(* ===== verification/Prelude.thy ===== *)
theory Prelude
  imports Main "HOL-Library.Word" "HOL-Library.AList" "HOL-Library.Signed_Division"
begin

text \<open>
  What the component theories share: the run-time errors of Go, its fixed-width integers,
  its maps and its buffered channels, together with the lemmas the components' proofs use.

  \<^item> \<open>go_panic\<close> lists the run-time errors the code can raise; an operation that can
    panic has the result type \<open>'a res\<close>, with \<open>Inl\<close> for the panic.
  \<^item> \<open>i64\<close>, \<open>i32\<close> and \<open>u16\<close> reduce an integer to the value that a variable of type
    \<open>int64\<close>, \<open>int32\<close> or \<open>uint16\<close> holds.
  \<^item> \<open>gomap\<close> is a Go map as an association list with distinct keys: iteration visits the
    list's elements, and the length is the number of keys.
  \<^item> \<open>chan\<close> is a buffered channel: a queue with a capacity that can be closed.
\<close>

section \<open>Collections of facts\<close>

named_theorems wrap_simps \<open>values in range are unchanged by the wrap-around\<close>
named_theorems gomap_simps \<open>lookups, keys and sizes of Go maps after an operation\<close>
named_theorems chan_simps \<open>contents of a channel after an operation\<close>

section \<open>Run-time errors\<close>

datatype go_panic =
    DivideByZero
  | IndexOutOfRange
  | NilDereference
  | SendOnClosed
  | CloseOfClosed
  | CloseOfNil
  | TypeAssertion
  | PanicValue string

type_synonym 'a res = "go_panic + 'a"

section \<open>Fixed-width integers\<close>

definition i64 :: "int \<Rightarrow> int" where
  "i64 x = (x + 2 ^ 63) mod 2 ^ 64 - 2 ^ 63"

definition i32 :: "int \<Rightarrow> int" where
  "i32 x = (x + 2 ^ 31) mod 2 ^ 32 - 2 ^ 31"

definition u16 :: "int \<Rightarrow> int" where
  "u16 x = x mod 2 ^ 16"

definition in_i64 :: "int \<Rightarrow> bool" where
  "in_i64 x \<longleftrightarrow> - (2 ^ 63) \<le> x \<and> x < 2 ^ 63"

lemma i64_id [wrap_simps]: "in_i64 x \<Longrightarrow> i64 x = x"
  by (simp add: i64_def in_i64_def)

lemma in_i64_i64 [simp]: "in_i64 (i64 x)"
  using pos_mod_bound [of "2 ^ 64" "x + 2 ^ 63"] pos_mod_sign [of "2 ^ 64" "x + 2 ^ 63"]
  by (simp add: i64_def in_i64_def)

lemma i32_range: "- (2 ^ 31) \<le> i32 x" "i32 x < 2 ^ 31"
  using pos_mod_bound [of "2 ^ 32" "x + 2 ^ 31"] pos_mod_sign [of "2 ^ 32" "x + 2 ^ 31"]
  by (simp_all add: i32_def)

lemma u16_range: "0 \<le> u16 x" "u16 x < 65536"
  by (simp_all add: u16_def)

lemma u16_id [wrap_simps]: "0 \<le> x \<Longrightarrow> x < 65536 \<Longrightarrow> u16 x = x"
  by (simp add: u16_def)

text \<open>Go's integer division truncates towards zero; on non-negative operands it is \<open>div\<close>.\<close>

lemma sdiv_nonneg [simp]:
  fixes a b :: int
  assumes "0 \<le> a" "0 \<le> b"
  shows "a sdiv b = a div b"
  using assms by (cases "a = 0"; cases "b = 0") (simp_all add: signed_divide_int_def)

section \<open>Lists\<close>

lemma map_nth_upt: "map (\<lambda>i. f (xs ! i)) [0..<length xs] = map f xs"
  by (rule nth_equalityI) simp_all

lemma distinct_last_butlast: "distinct xs \<Longrightarrow> xs \<noteq> [] \<Longrightarrow> last xs \<notin> set (butlast xs)"
  by (cases xs rule: rev_cases) auto

lemma distinct_hd_tl: "distinct xs \<Longrightarrow> xs \<noteq> [] \<Longrightarrow> hd xs \<notin> set (tl xs)"
  by (cases xs) auto

lemma find_append_None: "find P xs = None \<Longrightarrow> find P (xs @ ys) = find P ys"
  by (induction xs) (auto split: if_splits)

lemma filter_take_subset: "x \<in> set (take j xs) \<Longrightarrow> P x \<Longrightarrow> x \<in> set (take j (filter P xs))"
proof (induction xs arbitrary: j)
  case (Cons y ys)
  show ?case
  proof (cases j)
    case (Suc i)
    show ?thesis
    proof (cases "x \<in> set (take i ys)")
      case True
      then have "x \<in> set (take i (filter P ys))" by (rule Cons.IH) (rule Cons.prems)
      moreover have "set (take i (filter P ys)) \<subseteq> set (take (Suc i) (filter P ys))"
        by (rule set_take_subset_set_take) simp
      ultimately show ?thesis using Suc by auto
    qed (use Cons.prems Suc in auto)
  qed (use Cons.prems in simp)
qed simp

lemma option_eqI: "(\<And>v. a = Some v \<longleftrightarrow> b = Some v) \<Longrightarrow> a = b"
  by (cases a; cases b) auto

lemma in_concat_nth: "x \<in> set (concat xss) \<longleftrightarrow> (\<exists>i < length xss. x \<in> set (xss ! i))"
  by (metis (no_types, lifting) UN_iff in_set_conv_nth set_concat)

text \<open>Lists whose keys carry the number of the list they are in have no key in common.\<close>

lemma distinct_concat_by_index:
  assumes "\<And>i. i < length xss \<Longrightarrow> distinct (map f (xss ! i))"
    and "\<And>i x. i < length xss \<Longrightarrow> x \<in> set (xss ! i) \<Longrightarrow> h (f x) = i + n"
  shows "distinct (map f (concat xss))"
  using assms
proof (induction xss arbitrary: n)
  case Nil
  then show ?case by simp
next
  case (Cons xs xss)
  have "distinct (map f (concat xss))"
    by (rule Cons.IH [of "Suc n"]) (use Cons.prems(1) [of "Suc i" for i] Cons.prems(2) [of "Suc i" for i] in auto)
  moreover have "distinct (map f xs)" using Cons.prems(1) [of 0] by simp
  moreover have "f x \<noteq> f y" if x: "x \<in> set xs" and y: "y \<in> set (concat xss)" for x y
  proof -
    obtain i where "i < length xss" "y \<in> set (xss ! i)"
      using y unfolding in_concat_nth by blast
    then show ?thesis
      using Cons.prems(2) [of 0 x] Cons.prems(2) [of "Suc i" y] x by auto
  qed
  ultimately show ?case by (fastforce simp: image_iff)
qed

section \<open>Go maps\<close>

type_synonym ('k, 'v) gomap = "('k \<times> 'v) list"

definition gm_ok :: "('k, 'v) gomap \<Rightarrow> bool" where
  "gm_ok m \<longleftrightarrow> distinct (map fst m)"

definition gm_get :: "('k, 'v) gomap \<Rightarrow> 'k \<Rightarrow> 'v option" where
  "gm_get m = map_of m"

definition gm_has :: "('k, 'v) gomap \<Rightarrow> 'k \<Rightarrow> bool" where
  "gm_has m k \<longleftrightarrow> gm_get m k \<noteq> None"

definition gm_set :: "'k \<Rightarrow> 'v \<Rightarrow> ('k, 'v) gomap \<Rightarrow> ('k, 'v) gomap" where
  "gm_set k v m = AList.update k v m"

definition gm_del :: "'k \<Rightarrow> ('k, 'v) gomap \<Rightarrow> ('k, 'v) gomap" where
  "gm_del k m = AList.delete k m"

lemma gm_ok_empty [gomap_simps]: "gm_ok []"
  by (simp add: gm_ok_def)

lemma gm_ok_set [gomap_simps]: "gm_ok m \<Longrightarrow> gm_ok (gm_set k v m)"
  by (simp add: gm_ok_def gm_set_def distinct_update)

lemma gm_ok_del [gomap_simps]: "gm_ok m \<Longrightarrow> gm_ok (gm_del k m)"
  by (simp add: gm_ok_def gm_del_def distinct_delete)

lemma gm_get_empty [gomap_simps]: "gm_get [] k = None"
  by (simp add: gm_get_def)

lemma gm_get_set [gomap_simps]: "gm_get (gm_set k v m) = (gm_get m)(k \<mapsto> v)"
  by (simp add: gm_get_def gm_set_def update_conv')

lemma gm_get_del [gomap_simps]: "gm_get (gm_del k m) = (gm_get m)(k := None)"
  by (simp add: gm_get_def gm_del_def delete_conv')

lemma gm_get_in: "gm_ok m \<Longrightarrow> gm_get m k = Some v \<longleftrightarrow> (k, v) \<in> set m"
  by (simp add: gm_ok_def gm_get_def map_of_eq_Some_iff)

lemma dom_gm_get: "dom (gm_get m) = fst ` set m"
  by (simp add: gm_get_def dom_map_of_conv_image_fst)

lemma card_dom_gm_get: "gm_ok m \<Longrightarrow> card (dom (gm_get m)) = length m"
  by (simp add: dom_gm_get gm_ok_def distinct_card flip: set_map)

lemma gm_has_iff: "gm_has m k \<longleftrightarrow> k \<in> fst ` set m"
  by (force simp: gm_has_def dom_gm_get [symmetric])

lemma gm_has_set [gomap_simps]: "gm_has (gm_set k v m) j \<longleftrightarrow> j = k \<or> gm_has m j"
  by (simp add: gm_has_def gm_get_set)

lemma gm_has_del [gomap_simps]: "gm_has (gm_del k m) j \<longleftrightarrow> j \<noteq> k \<and> gm_has m j"
  by (simp add: gm_has_def gm_get_del)

lemma length_gm_set [gomap_simps]:
  "length (gm_set k v m) = (if gm_has m k then length m else Suc (length m))"
  unfolding gm_has_iff gm_set_def by (induction m) auto

lemma length_gm_del [gomap_simps]:
  "gm_ok m \<Longrightarrow> length (gm_del k m) = (if gm_has m k then length m - 1 else length m)"
  unfolding gm_has_iff gm_del_def gm_ok_def
proof (induction m)
  case (Cons x m)
  then show ?case
    by (cases "fst x = k") (auto dest: length_pos_if_in_set)
qed simp

section \<open>Buffered channels\<close>

text \<open>
  \<open>make(chan T, n)\<close>: values wait in \<open>chbuf\<close> in the order they were sent. A send on a full
  buffer blocks, a send on a closed channel panics; a receive from an empty buffer blocks while
  the channel is open and reports \<open>ok = false\<close> once it is closed.
\<close>

record 'a chan =
  chbuf :: "'a list"
  chcap :: nat
  chclosed :: bool

datatype 'a send_result = Sent 'a | SendBlocks | SendPanics

datatype ('a, 'c) recv_result = Received 'a 'c | RecvClosed | RecvBlocks

definition make_chan :: "nat \<Rightarrow> 'a chan" where
  "make_chan n = \<lparr>chbuf = [], chcap = n, chclosed = False\<rparr>"

definition chan_len :: "'a chan \<Rightarrow> nat" where
  "chan_len c = length (chbuf c)"

definition chan_send :: "'a \<Rightarrow> 'a chan \<Rightarrow> 'a chan send_result" where
  "chan_send x c =
     (if chclosed c then SendPanics
      else if length (chbuf c) < chcap c then Sent (c\<lparr>chbuf := chbuf c @ [x]\<rparr>)
      else SendBlocks)"

definition chan_recv :: "'a chan \<Rightarrow> ('a, 'a chan) recv_result" where
  "chan_recv c =
     (case chbuf c of
        x # xs \<Rightarrow> Received x (c\<lparr>chbuf := xs\<rparr>)
      | [] \<Rightarrow> if chclosed c then RecvClosed else RecvBlocks)"

definition chan_close :: "'a chan \<Rightarrow> 'a chan res" where
  "chan_close c = (if chclosed c then Inl CloseOfClosed else Inr (c\<lparr>chclosed := True\<rparr>))"

definition chan_ok :: "'a chan \<Rightarrow> bool" where
  "chan_ok c \<longleftrightarrow> length (chbuf c) \<le> chcap c"

lemma chan_ok_make [chan_simps]: "chan_ok (make_chan n)"
  by (simp add: chan_ok_def make_chan_def)

lemma chan_send_Sent [chan_simps]:
  "chan_send x c = Sent c' \<longleftrightarrow>
     \<not> chclosed c \<and> length (chbuf c) < chcap c \<and> c' = c\<lparr>chbuf := chbuf c @ [x]\<rparr>"
  by (auto simp: chan_send_def)

lemma chan_recv_Received [chan_simps]:
  "chan_recv c = Received x c' \<longleftrightarrow> chbuf c = x # chbuf c' \<and> c' = c\<lparr>chbuf := chbuf c'\<rparr>"
  by (auto simp: chan_recv_def split: list.splits if_splits)

lemma chan_ok_send [chan_simps]: "chan_send x c = Sent c' \<Longrightarrow> chan_ok c'"
  by (simp add: chan_send_Sent chan_ok_def)

lemma chan_ok_recv: "chan_ok c \<Longrightarrow> chan_recv c = Received x c' \<Longrightarrow> chan_ok c'"
  by (auto simp: chan_recv_def chan_ok_def split: list.splits if_splits)

section \<open>Outcomes\<close>

text \<open>
  The outcome of running a piece of code: it returns, it blocks for ever on a channel, or it
  panics. \<open>obind\<close> runs one piece after another.
\<close>

datatype 'a outcome = Ret 'a | Blocks | Panics go_panic

fun obind :: "'a outcome \<Rightarrow> ('a \<Rightarrow> 'b outcome) \<Rightarrow> 'b outcome" where
  "obind (Ret x) f = f x"
| "obind Blocks f = Blocks"
| "obind (Panics e) f = Panics e"

lemma obind_Ret_iff: "obind m f = Ret y \<longleftrightarrow> (\<exists>x. m = Ret x \<and> f x = Ret y)"
  by (cases m) auto

text \<open>A byte slice is a \<open>string\<close>: a \<open>char\<close> is one byte, so Go's conversions between the two are the identity.\<close>

type_synonym bytes = string

section \<open>Lists of batches\<close>

text \<open>The last item of a sequence of batches, none of which is empty, is the last item of the last batch.\<close>

lemma concat_last:
  assumes "concat ds = xs @ [x]" "\<forall>d \<in> set ds. d \<noteq> []"
  obtains ds0 d where "ds = ds0 @ [d @ [x]]" "concat ds0 @ d = xs"
proof -
  obtain ds0 d1 where ds: "ds = ds0 @ [d1]" using assms(1) by (cases ds rule: rev_cases) auto
  then obtain d y where "d1 = d @ [y]" using assms(2) by (cases d1 rule: rev_cases) auto
  then show thesis using that ds assms(1) by auto
qed

end
