(* ===== verification/Protobuf.thy ===== *)
theory Protobuf
  imports Prelude
begin

text \<open>
  The messages between the nodes, \<open>src/protobuf/message.pb.go\<close> and the schema \<open>message.proto\<close>. The encoder and
  the decoder are the protobuf runtime and not code of the program; the program relies on one law, the
  locale \<open>codec\<close>: what was encoded is decoded to the same value.

  The second part is the published wire format for these two messages, as a concrete codec that
  satisfies the law: varints, fields that carry their length, empty fields left out, and the rule of
  \<open>proto3\<close> that a string must be UTF-8, because of which the encoder can fail. The reader takes the fields
  of the schema and refuses any other.
\<close>

section \<open>Messages\<close>

record SignalReq =
  ToPeerId :: string
  reqData :: bytes

type_synonym SignalBatchReq = "SignalReq list"

record pb_codec =
  pbMarshal :: "SignalBatchReq \<Rightarrow> string + bytes"
  pbUnmarshal :: "bytes \<Rightarrow> string + SignalBatchReq"

text \<open>The getters of the generated code, which accept a nil pointer.\<close>

definition GetToPeerId :: "SignalReq option \<Rightarrow> string" where
  "GetToPeerId x = (case x of None \<Rightarrow> [] | Some m \<Rightarrow> ToPeerId m)"

definition GetData :: "SignalReq option \<Rightarrow> bytes" where
  "GetData x = (case x of None \<Rightarrow> [] | Some m \<Rightarrow> reqData m)"

definition GetItems :: "SignalBatchReq option \<Rightarrow> SignalReq list" where
  "GetItems x = (case x of None \<Rightarrow> [] | Some m \<Rightarrow> m)"

section \<open>The law of the codec\<close>

locale codec =
  fixes marshal :: "'m \<Rightarrow> 'e + bytes" and unmarshal :: "bytes \<Rightarrow> 'e + 'm"
  assumes decode_encode: "marshal m = Inr raw \<Longrightarrow> unmarshal raw = Inr m"
begin

lemma encode_inj: "marshal m = Inr raw \<Longrightarrow> marshal m' = Inr raw \<Longrightarrow> m = m'"
  by (drule decode_encode)+ simp

end

section \<open>The wire format\<close>

text \<open>A varint has seven bits in each byte, the lowest first, and at most ten bytes.\<close>

fun AppendVarint :: "nat \<Rightarrow> bytes" where
  "AppendVarint v = (if v < 128 then [char_of v] else char_of (v mod 128 + 128) # AppendVarint (v div 128))"

declare AppendVarint.simps [simp del]

fun ConsumeVarint :: "nat \<Rightarrow> bytes \<Rightarrow> (nat \<times> bytes) option" where
  "ConsumeVarint k [] = None"
| "ConsumeVarint k (b # bs) =
     (let y = of_char b :: nat
      in if y < 128 then (if k = 9 \<and> 1 < y then None else Some (y, bs))
         else if k = 9 then None
         else case ConsumeVarint (Suc k) bs of None \<Rightarrow> None | Some (v, rest) \<Rightarrow> Some (y - 128 + 128 * v, rest))"

definition AppendBytes :: "bytes \<Rightarrow> bytes" where
  "AppendBytes b = AppendVarint (length b) @ b"

definition ConsumeBytes :: "bytes \<Rightarrow> (bytes \<times> bytes) option" where
  "ConsumeBytes s =
     (case ConsumeVarint 0 s of
        None \<Rightarrow> None
      | Some (k, rest) \<Rightarrow> if length rest < k then None else Some (take k rest, drop k rest))"

text \<open>\<open>utf8.Valid\<close>\<close>

definition inR :: "nat \<Rightarrow> nat \<Rightarrow> char \<Rightarrow> bool" where
  "inR a b c \<longleftrightarrow> a \<le> of_char c \<and> of_char c \<le> b"

fun dropRune :: "bytes \<Rightarrow> bytes option" where
  "dropRune [] = None"
| "dropRune (a # s) =
     (if inR 0 0x7F a then Some s
      else if inR 0xC2 0xDF a then (case s of b # t \<Rightarrow> if inR 0x80 0xBF b then Some t else None | _ \<Rightarrow> None)
      else if inR 0xE0 0xEF a then
        (case s of
           b # c # t \<Rightarrow>
             if inR (if inR 0xE0 0xE0 a then 0xA0 else 0x80) (if inR 0xED 0xED a then 0x9F else 0xBF) b \<and> inR 0x80 0xBF c
             then Some t else None
         | _ \<Rightarrow> None)
      else if inR 0xF0 0xF4 a then
        (case s of
           b # c # d # t \<Rightarrow>
             if inR (if inR 0xF0 0xF0 a then 0x90 else 0x80) (if inR 0xF4 0xF4 a then 0x8F else 0xBF) b \<and>
                inR 0x80 0xBF c \<and> inR 0x80 0xBF d
             then Some t else None
         | _ \<Rightarrow> None)
      else None)"

lemma dropRune_shorter: "dropRune s = Some t \<Longrightarrow> length t < length s"
  by (cases s) (auto split: if_splits list.splits)

function utf8Valid :: "bytes \<Rightarrow> bool" where
  "utf8Valid s = (s = [] \<or> (case dropRune s of None \<Rightarrow> False | Some t \<Rightarrow> utf8Valid t))"
  by pat_completeness auto
termination by (relation "measure length") (auto simp: dropRune_shorter)

declare utf8Valid.simps [simp del]

lemma utf8Valid_ascii: "list_all (inR 0 0x7F) s \<Longrightarrow> utf8Valid s"
  by (induction s) (subst utf8Valid.simps, simp)+

text \<open>One message: field 1 is the string, field 2 the bytes; a tag is the number and the wire type 2.\<close>

definition encField :: "nat \<Rightarrow> bytes \<Rightarrow> bytes" where
  "encField num b = AppendVarint (num * 8 + 2) @ AppendBytes b"

definition encReq :: "SignalReq \<Rightarrow> bytes" where
  "encReq m = (if ToPeerId m = [] then [] else encField 1 (ToPeerId m)) @
     (if reqData m = [] then [] else encField 2 (reqData m))"

definition reqFits :: "SignalReq \<Rightarrow> bool" where
  "reqFits m \<longleftrightarrow> length (encReq m) < 2 ^ 63"

definition wireMarshal :: "SignalBatchReq \<Rightarrow> string + bytes" where
  "wireMarshal items =
     (if \<not> list_all (\<lambda>m. utf8Valid (ToPeerId m)) items then Inl ''string field contains invalid UTF-8''
      else if \<not> list_all reqFits items then Inl ''message too large''
      else Inr (concat (map (\<lambda>m. encField 1 (encReq m)) items)))"

definition readField :: "bytes \<Rightarrow> (nat \<times> bytes \<times> bytes) option" where
  "readField s =
     (case ConsumeVarint 0 s of
        None \<Rightarrow> None
      | Some (tag, rest) \<Rightarrow>
          if tag mod 8 \<noteq> 2 then None
          else case ConsumeBytes rest of None \<Rightarrow> None | Some (v, rest2) \<Rightarrow> Some (tag div 8, v, rest2))"

lemma ConsumeVarint_shorter: "ConsumeVarint k s = Some (v, rest) \<Longrightarrow> length rest < length s"
  by (induction k s arbitrary: v rest rule: ConsumeVarint.induct) (fastforce simp: Let_def split: if_splits option.splits)+

lemma readField_shorter: "readField s = Some (num, v, rest) \<Longrightarrow> length rest < length s"
  by (fastforce simp: readField_def ConsumeBytes_def dest!: ConsumeVarint_shorter split: option.splits if_splits)

function decReq :: "SignalReq \<Rightarrow> bytes \<Rightarrow> SignalReq option" where
  "decReq m s =
     (if s = [] then Some m
      else case readField s of
             None \<Rightarrow> None
           | Some (num, v, rest) \<Rightarrow>
               if num = 1 then (if utf8Valid v then decReq (m\<lparr>ToPeerId := v\<rparr>) rest else None)
               else if num = 2 then decReq (m\<lparr>reqData := v\<rparr>) rest
               else None)"
  by pat_completeness auto
termination by (relation "measure (\<lambda>(m, s). length s)") (auto simp: readField_shorter)

function decBatch :: "bytes \<Rightarrow> SignalBatchReq option" where
  "decBatch s =
     (if s = [] then Some []
      else case readField s of
             None \<Rightarrow> None
           | Some (num, v, rest) \<Rightarrow>
               if num = 1 then
                 (case decReq \<lparr>ToPeerId = [], reqData = []\<rparr> v of
                    None \<Rightarrow> None
                  | Some m \<Rightarrow> map_option (\<lambda>ms. m # ms) (decBatch rest))
               else None)"
  by pat_completeness auto
termination by (relation "measure length") (auto simp: readField_shorter)

declare decReq.simps [simp del] decBatch.simps [simp del]

definition wireUnmarshal :: "bytes \<Rightarrow> string + SignalBatchReq" where
  "wireUnmarshal raw =
     (case decBatch raw of None \<Rightarrow> Inl ''cannot parse invalid wire-format data'' | Some items \<Rightarrow> Inr items)"

definition wireCodec :: pb_codec where
  "wireCodec = \<lparr>pbMarshal = wireMarshal, pbUnmarshal = wireUnmarshal\<rparr>"

section \<open>Round trips\<close>

lemma AppendVarint_ne [simp]: "AppendVarint v \<noteq> []"
  by (subst AppendVarint.simps) simp

lemma varint_roundtrip:
  "k \<le> 9 \<Longrightarrow> v < 2 ^ (64 - 7 * k) \<Longrightarrow> ConsumeVarint k (AppendVarint v @ rest) = Some (v, rest)"
proof (induction v arbitrary: k rule: AppendVarint.induct)
  case (1 v)
  show ?case
  proof (cases "v < 128")
    case True
    then show ?thesis using 1(2,3) by (subst AppendVarint.simps) (auto simp: Let_def)
  next
    case False
    have k: "k \<noteq> 9" using False 1(3) by auto
    have "v < 128 * 2 ^ (64 - 7 * Suc k)"
    proof -
      have "(2::nat) ^ (64 - 7 * k) = 2 ^ 7 * 2 ^ (64 - 7 * Suc k)"
        using k 1(2) by (subst power_add [symmetric], intro arg_cong [where f = "\<lambda>n. 2 ^ n"]) simp
      then show ?thesis using 1(3) by simp
    qed
    then have "v div 128 < 2 ^ (64 - 7 * Suc k)" by (simp add: less_mult_imp_div_less mult.commute)
    then have "ConsumeVarint (Suc k) (AppendVarint (v div 128) @ rest) = Some (v div 128, rest)"
      using 1(1) [OF False] k 1(2) by simp
    moreover have "of_char (char_of (v mod 128 + 128) :: char) = v mod 128 + 128" by simp
    ultimately show ?thesis using False k by (subst AppendVarint.simps) (simp add: Let_def)
  qed
qed

lemma ConsumeBytes_AppendBytes: "length b < 2 ^ 64 \<Longrightarrow> ConsumeBytes (AppendBytes b @ rest) = Some (b, rest)"
  using varint_roundtrip [of 0 "length b" "b @ rest"] by (simp add: ConsumeBytes_def AppendBytes_def)

lemma readField_encField:
  assumes "num < 2 ^ 29" "length b < 2 ^ 64"
  shows "readField (encField num b @ rest) = Some (num, b, rest)"
proof -
  have "(num * 8 + 2) mod 8 = 2" "(num * 8 + 2) div 8 = num" by presburger+
  then show ?thesis
    using assms varint_roundtrip [of 0 "num * 8 + 2" "AppendBytes b @ rest"] ConsumeBytes_AppendBytes [of b rest]
    by (simp add: readField_def encField_def del: add_2_eq_Suc')
qed

lemma encField_ne [simp]: "encField num b \<noteq> []"
  by (simp add: encField_def)

lemma encField_len: "length b \<le> length (encField num b)"
  by (simp add: encField_def AppendBytes_def)

lemma decReq_field:
  assumes "length b < 2 ^ 64"
  shows "utf8Valid b \<Longrightarrow> decReq m (encField 1 b @ rest) = decReq (m\<lparr>ToPeerId := b\<rparr>) rest"
    and "decReq m (encField 2 b @ rest) = decReq (m\<lparr>reqData := b\<rparr>) rest"
  using readField_encField [OF _ assms, of _ rest] by (subst decReq.simps, simp)+

lemma decReq_encReq:
  assumes "utf8Valid (ToPeerId m)" "reqFits m"
  shows "decReq \<lparr>ToPeerId = [], reqData = []\<rparr> (encReq m) = Some m"
proof -
  have l: "ToPeerId m \<noteq> [] \<longrightarrow> length (ToPeerId m) < 2 ^ 64" "reqData m \<noteq> [] \<longrightarrow> length (reqData m) < 2 ^ 64"
    using assms(2) encField_len [of "ToPeerId m" 1] encField_len [of "reqData m" 2]
    by (auto simp: reqFits_def encReq_def split: if_splits)
  have e: "decReq m' [] = Some m'" for m' by (simp add: decReq.simps)
  show ?thesis
    using l assms(1) decReq_field(1) [of "ToPeerId m" _ "[]"] decReq_field(2) [of "reqData m" _ "[]"]
    by (cases m) (auto simp: encReq_def e decReq_field simp del: One_nat_def)
qed

lemma decBatch_enc:
  "list_all (\<lambda>m. utf8Valid (ToPeerId m)) items \<Longrightarrow> list_all reqFits items \<Longrightarrow>
     decBatch (concat (map (\<lambda>m. encField 1 (encReq m)) items)) = Some items"
proof (induction items)
  case Nil
  show ?case by (simp add: decBatch.simps)
next
  case (Cons m ms)
  then have "length (encReq m) < 2 ^ 64" by (simp add: reqFits_def)
  then show ?case using Cons decReq_encReq [of m]
    by (subst decBatch.simps) (simp add: readField_encField del: One_nat_def)
qed

interpretation wire: codec wireMarshal wireUnmarshal
  by unfold_locales (auto simp: wireMarshal_def wireUnmarshal_def decBatch_enc simp del: One_nat_def split: if_splits)

lemma wireCodec_law: "codec (pbMarshal wireCodec) (pbUnmarshal wireCodec)"
  by (simp add: wireCodec_def wire.codec_axioms)

end
