(* ===== verification/RateLimit.thy ===== *)
theory RateLimit
  imports Prelude
begin

text \<open>
  The token bucket of \<open>src/util/ratelimit/ratelimit.go\<close>. Times are nanoseconds, durations and
  token counts are \<open>int64\<close> values whose arithmetic wraps; the clock of a bucket is the argument
  \<open>now\<close> of each operation, as in the internal versions of the methods, and the mutex makes each
  operation one atomic step on the record. Division by a zero fill interval or quantum panics:
  the constructor reports a value that is not positive but does not refuse it.

  The lemmas show that the lazy refill is exact (it equals a refill at every tick), that a bucket
  never holds more than its capacity, that the tokens granted over any run are bounded by the
  capacity plus the quantum times the ticks that passed, and that the waiting time \<open>take\<close>
  returns is enough and not a tick too long.
\<close>

section \<open>The bucket and its operations\<close>

record bucket =
  startTime :: int
  capacity :: int
  quantum :: int
  fillInterval :: int
  availableTokens :: int
  latestTick :: int

definition infinityDuration :: int where
  "infinityDuration = 0x7fffffffffffffff"

text \<open>\<open>time.Time.Sub\<close> saturates at the ends of the \<open>int64\<close> range.\<close>

definition timeSub :: "int \<Rightarrow> int \<Rightarrow> int" where
  "timeSub a b = max (- (2 ^ 63)) (min (2 ^ 63 - 1) (a - b))"

definition timeAdd :: "int \<Rightarrow> int \<Rightarrow> int" where
  "timeAdd a d = a + d"

definition NewBucketWithQuantumAndClock :: "int \<Rightarrow> int \<Rightarrow> int \<Rightarrow> int \<Rightarrow> bucket" where
  "NewBucketWithQuantumAndClock fill cap q now =
     \<lparr>startTime = now, capacity = cap, quantum = q, fillInterval = fill,
      availableTokens = cap, latestTick = 0\<rparr>"

definition NewBucketWithQuantum :: "int \<Rightarrow> int \<Rightarrow> int \<Rightarrow> int \<Rightarrow> bucket" where
  "NewBucketWithQuantum fill cap q now = NewBucketWithQuantumAndClock fill cap q now"

definition NewBucketWithClock :: "int \<Rightarrow> int \<Rightarrow> int \<Rightarrow> bucket" where
  "NewBucketWithClock fill cap now = NewBucketWithQuantumAndClock fill cap 1 now"

definition NewBucket :: "int \<Rightarrow> int \<Rightarrow> int \<Rightarrow> bucket" where
  "NewBucket fill cap now = NewBucketWithClock fill cap now"

definition currentTick :: "bucket \<Rightarrow> int \<Rightarrow> int res" where
  "currentTick tb now =
     (if fillInterval tb = 0 then Inl DivideByZero
      else Inr (i64 (timeSub now (startTime tb) sdiv fillInterval tb)))"

definition adjustavailableTokens :: "int \<Rightarrow> bucket \<Rightarrow> bucket" where
  "adjustavailableTokens tick tb =
     (let lastTick = latestTick tb;
          tb1 = tb\<lparr>latestTick := tick\<rparr>
      in if availableTokens tb1 \<ge> capacity tb1 then tb1
         else let a = i64 (availableTokens tb1 + i64 (i64 (tick - lastTick) * quantum tb1))
              in if a > capacity tb1 then tb1\<lparr>availableTokens := capacity tb1\<rparr>
                 else tb1\<lparr>availableTokens := a\<rparr>)"

definition takeAvailable :: "bucket \<Rightarrow> int \<Rightarrow> int \<Rightarrow> (bucket \<times> int) res" where
  "takeAvailable tb now count =
     (if count \<le> 0 then Inr (tb, 0)
      else case currentTick tb now of
        Inl e \<Rightarrow> Inl e
      | Inr tick \<Rightarrow>
          let tb1 = adjustavailableTokens tick tb
          in if availableTokens tb1 \<le> 0 then Inr (tb1, 0)
             else let n = (if count > availableTokens tb1 then availableTokens tb1 else count)
                  in Inr (tb1\<lparr>availableTokens := i64 (availableTokens tb1 - n)\<rparr>, n))"

definition available :: "bucket \<Rightarrow> int \<Rightarrow> (bucket \<times> int) res" where
  "available tb now =
     (case currentTick tb now of
        Inl e \<Rightarrow> Inl e
      | Inr tick \<Rightarrow>
          let tb1 = adjustavailableTokens tick tb in Inr (tb1, availableTokens tb1))"

definition takeTokens :: "bucket \<Rightarrow> int \<Rightarrow> int \<Rightarrow> int \<Rightarrow> (bucket \<times> int \<times> bool) res" where
  "takeTokens tb now count maxWait =
     (if count \<le> 0 then Inr (tb, 0, True)
      else case currentTick tb now of
        Inl e \<Rightarrow> Inl e
      | Inr tick \<Rightarrow>
          let tb1 = adjustavailableTokens tick tb;
              avail = i64 (availableTokens tb1 - count)
          in if avail \<ge> 0 then Inr (tb1\<lparr>availableTokens := avail\<rparr>, 0, True)
             else if quantum tb1 = 0 then Inl DivideByZero
             else let endTick = i64 (tick + i64 (i64 (i64 (- avail + quantum tb1) - 1) sdiv quantum tb1));
                      endTime = timeAdd (startTime tb1) (i64 (endTick * fillInterval tb1));
                      waitTime = timeSub endTime now
                  in if waitTime > maxWait then Inr (tb1, 0, False)
                     else Inr (tb1\<lparr>availableTokens := avail\<rparr>, waitTime, True))"

text \<open>The exported methods: lock, read the clock, run the internal version, unlock.\<close>

definition TakeAvailable :: "bucket \<Rightarrow> int \<Rightarrow> int \<Rightarrow> (bucket \<times> int) res" where
  "TakeAvailable tb now count = takeAvailable tb now count"

definition Available :: "bucket \<Rightarrow> int \<Rightarrow> (bucket \<times> int) res" where
  "Available tb now = available tb now"

definition Capacity :: "bucket \<Rightarrow> int" where
  "Capacity tb = capacity tb"

definition Take :: "bucket \<Rightarrow> int \<Rightarrow> int \<Rightarrow> (bucket \<times> int) res" where
  "Take tb now count =
     (case takeTokens tb now count infinityDuration of
        Inl e \<Rightarrow> Inl e
      | Inr (tb1, d, ok) \<Rightarrow> Inr (tb1, d))"

definition TakeMaxDuration :: "bucket \<Rightarrow> int \<Rightarrow> int \<Rightarrow> int \<Rightarrow> (bucket \<times> int \<times> bool) res" where
  "TakeMaxDuration tb now count maxWait = takeTokens tb now count maxWait"

text \<open>\<open>Wait\<close> and \<open>WaitMaxDuration\<close> return the time they sleep: \<open>None\<close> for no sleep.\<close>

definition Wait :: "bucket \<Rightarrow> int \<Rightarrow> int \<Rightarrow> (bucket \<times> int option) res" where
  "Wait tb now count =
     (case Take tb now count of
        Inl e \<Rightarrow> Inl e
      | Inr (tb1, d) \<Rightarrow> Inr (tb1, if d > 0 then Some d else None))"

definition WaitMaxDuration ::
    "bucket \<Rightarrow> int \<Rightarrow> int \<Rightarrow> int \<Rightarrow> (bucket \<times> int option \<times> bool) res" where
  "WaitMaxDuration tb now count maxWait =
     (case TakeMaxDuration tb now count maxWait of
        Inl e \<Rightarrow> Inl e
      | Inr (tb1, d, ok) \<Rightarrow> Inr (tb1, (if d > 0 then Some d else None), ok))"

definition nextQuantum :: "int \<Rightarrow> int" where
  "nextQuantum q =
     (let q1 = i64 (i64 (q * 11) sdiv 10)
      in if q1 = q then i64 (q1 + 1) else q1)"

section \<open>Well-formed buckets and the range of int64\<close>

definition bucket_ok :: "bucket \<Rightarrow> bool" where
  "bucket_ok tb \<longleftrightarrow> 0 < fillInterval tb \<and> 0 < quantum tb \<and> 0 < capacity tb \<and>
     availableTokens tb \<le> capacity tb \<and> 0 \<le> latestTick tb"

text \<open>The tick that \<open>now\<close> falls in, and the tokens a bucket has at a tick, over the integers.\<close>

definition tickOf :: "bucket \<Rightarrow> int \<Rightarrow> int" where
  "tickOf tb now = (now - startTime tb) div fillInterval tb"

definition level :: "bucket \<Rightarrow> int \<Rightarrow> int" where
  "level tb tick = min (capacity tb) (availableTokens tb + (tick - latestTick tb) * quantum tb)"

text \<open>
  \<open>due tb T now\<close>: the clock has not gone back behind the bucket's latest tick and \<open>T\<close> ticks of
  the bucket fit in an \<open>int64\<close>. With one tick a second and a quantum of a million tokens this
  holds for 290,000 years.
\<close>

definition due :: "bucket \<Rightarrow> int \<Rightarrow> int \<Rightarrow> bool" where
  "due tb T now \<longleftrightarrow> startTime tb \<le> now \<and> now - startTime tb < 2 ^ 63 \<and>
     latestTick tb \<le> tickOf tb now \<and> tickOf tb now \<le> T \<and>
     T * quantum tb + capacity tb < 2 ^ 63 \<and> - (2 ^ 63) \<le> availableTokens tb"

lemma tickOf_nonneg: "0 < fillInterval tb \<Longrightarrow> startTime tb \<le> now \<Longrightarrow> 0 \<le> tickOf tb now"
  by (simp add: tickOf_def pos_imp_zdiv_nonneg_iff)

lemma tickOf_le: "0 < fillInterval tb \<Longrightarrow> startTime tb \<le> now \<Longrightarrow> tickOf tb now \<le> now - startTime tb"
  unfolding tickOf_def by (smt (verit) div_by_1 int_div_less_self zdiv_mono2)

lemma tickOf_mono: "0 < fillInterval tb \<Longrightarrow> now \<le> now' \<Longrightarrow> tickOf tb now \<le> tickOf tb now'"
  by (simp add: tickOf_def zdiv_mono1)

lemma currentTick_eq:
  assumes "0 < fillInterval tb" "startTime tb \<le> now" "now - startTime tb < 2 ^ 63"
  shows "currentTick tb now = Inr (tickOf tb now)"
proof -
  have sub: "timeSub now (startTime tb) = now - startTime tb"
    using assms(2,3) by (simp add: timeSub_def)
  have "in_i64 (tickOf tb now)"
    using tickOf_nonneg [OF assms(1,2)] tickOf_le [OF assms(1,2)] assms(3)
    by (simp add: in_i64_def)
  then show ?thesis
    using assms by (simp add: currentTick_def sub tickOf_def i64_id)
qed

lemma adjust_level:
  assumes ok: "bucket_ok tb" and lt: "latestTick tb \<le> t" "t \<le> T"
    and fits: "T * quantum tb + capacity tb < 2 ^ 63" "- (2 ^ 63) \<le> availableTokens tb"
  shows "adjustavailableTokens t tb = tb\<lparr>latestTick := t, availableTokens := level tb t\<rparr>"
proof -
  let ?d = "(t - latestTick tb) * quantum tb"
  have q: "0 < quantum tb" "0 \<le> latestTick tb" "availableTokens tb \<le> capacity tb" "0 < capacity tb"
    using ok by (simp_all add: bucket_ok_def)
  have d0: "0 \<le> ?d" using lt q by simp
  have "?d \<le> T * quantum tb"
    using lt q by (intro mult_right_mono) auto
  then have dT: "?d + capacity tb < 2 ^ 63" using fits by linarith
  have "t - latestTick tb \<le> ?d"
    using q lt by (smt (verit) mult_le_cancel_left1)
  then have in1: "in_i64 (t - latestTick tb)"
    using dT lt q by (simp add: in_i64_def)
  have in2: "in_i64 ?d" using d0 dT q by (simp add: in_i64_def)
  have in3: "in_i64 (availableTokens tb + ?d)"
    using d0 dT q fits by (simp add: in_i64_def)
  show ?thesis
    using d0 q
    by (auto simp: adjustavailableTokens_def Let_def level_def i64_id [OF in1] i64_id [OF in2]
        i64_id [OF in3] min_def)
qed

lemma due_currentTick: "bucket_ok tb \<Longrightarrow> due tb T now \<Longrightarrow> currentTick tb now = Inr (tickOf tb now)"
  by (simp add: currentTick_eq bucket_ok_def due_def)

lemma due_adjust:
  "bucket_ok tb \<Longrightarrow> due tb T now \<Longrightarrow>
   adjustavailableTokens (tickOf tb now) tb =
     tb\<lparr>latestTick := tickOf tb now, availableTokens := level tb (tickOf tb now)\<rparr>"
  by (rule adjust_level [where T = T]) (simp_all add: due_def)

lemma level_le_capacity: "level tb t \<le> capacity tb"
  by (simp add: level_def)

lemma level_ge:
  "bucket_ok tb \<Longrightarrow> latestTick tb \<le> t \<Longrightarrow> availableTokens tb \<le> level tb t"
  by (simp add: level_def bucket_ok_def)

lemma level_refill:
  "level tb t \<le> availableTokens tb + (t - latestTick tb) * quantum tb"
  by (simp add: level_def)

lemmas due_simps = due_currentTick due_adjust

section \<open>The lazy refill is exact\<close>

text \<open>The refill the comments describe: at each tick a quantum of tokens, up to the capacity.\<close>

definition tickOnce :: "bucket \<Rightarrow> bucket" where
  "tickOnce tb = tb\<lparr>latestTick := latestTick tb + 1,
     availableTokens := min (capacity tb) (availableTokens tb + quantum tb)\<rparr>"

lemma tickOnce_iterate:
  assumes "bucket_ok tb"
  shows "(tickOnce ^^ n) tb =
    tb\<lparr>latestTick := latestTick tb + int n, availableTokens := level tb (latestTick tb + int n)\<rparr>"
proof (induction n)
  case 0
  then show ?case using assms by (simp add: level_def bucket_ok_def min_def)
next
  case (Suc n)
  have "min (capacity tb) (level tb (latestTick tb + int n) + quantum tb)
      = level tb (latestTick tb + int (Suc n))"
    using assms by (auto simp: level_def bucket_ok_def algebra_simps min_def)
  then show ?case
    unfolding funpow.simps o_apply Suc.IH by (simp add: tickOnce_def algebra_simps)
qed

text \<open>
  C15: computing the tokens only when the bucket is used is exact: as long as the counts fit in an
  \<open>int64\<close>, adjusting a well-formed bucket by \<open>n\<close> ticks at once leaves the same bucket as adding a
  quantum at each of the \<open>n\<close> ticks and capping at the capacity each time.
\<close>

theorem adjust_eq_ticking:
  assumes "bucket_ok tb"
    and "(latestTick tb + int n) * quantum tb + capacity tb < 2 ^ 63"
    and "- (2 ^ 63) \<le> availableTokens tb"
  shows "adjustavailableTokens (latestTick tb + int n) tb = (tickOnce ^^ n) tb"
  using adjust_level [OF assms(1) _ order_refl assms(2,3)] tickOnce_iterate [OF assms(1)]
  by simp

definition sample_bucket :: bucket where
  "sample_bucket = (NewBucketWithQuantum 1000000000 5 5 0)\<lparr>availableTokens := -8\<rparr>"

theorem adjust_eq_ticking_witness:
  "adjustavailableTokens (latestTick sample_bucket + int 2) sample_bucket
     = (tickOnce ^^ 2) sample_bucket"
  by (rule adjust_eq_ticking)
    (simp_all add: sample_bucket_def NewBucketWithQuantum_def NewBucketWithQuantumAndClock_def
      bucket_ok_def)

section \<open>Taking tokens without waiting\<close>

lemma takeAvailable_due:
  assumes ok: "bucket_ok tb" and d: "due tb T now" and c: "0 < count"
  shows "takeAvailable tb now count =
    (let l = level tb (tickOf tb now); n = (if l \<le> 0 then 0 else min count l)
     in Inr (tb\<lparr>latestTick := tickOf tb now, availableTokens := l - n\<rparr>, n))"
proof -
  let ?l = "level tb (tickOf tb now)"
  have le: "?l \<le> capacity tb" by (rule level_le_capacity)
  have "0 \<le> T"
    using d ok tickOf_nonneg [of tb now] by (simp add: due_def bucket_ok_def)
  then have cap: "capacity tb < 2 ^ 63"
    using d ok by (smt (verit) due_def bucket_ok_def mult_nonneg_nonneg)
  show ?thesis
  proof (cases "?l \<le> 0")
    case True
    then show ?thesis
      using c by (simp add: takeAvailable_def due_simps [OF ok d] Let_def)
  next
    case False
    then have "in_i64 (?l - min count ?l)"
      using c le cap by (simp add: in_i64_def min_def)
    with False c show ?thesis
      by (auto simp: takeAvailable_def due_simps [OF ok d] Let_def i64_id min_def)
  qed
qed

text \<open>
  \<open>takeAvailable\<close> on a well-formed bucket returns at most \<open>count\<close> tokens, grants all of
  \<open>count\<close> when the bucket holds that many and otherwise empties it, never hands out a negative
  number, and keeps the bucket well-formed with its configuration unchanged.
\<close>

theorem takeAvailable_correct:
  assumes "bucket_ok tb" and "due tb T now" and "0 < count"
  shows "\<exists>tb' n. takeAvailable tb now count = Inr (tb', n) \<and> bucket_ok tb' \<and>
    0 \<le> n \<and> n \<le> count \<and> n = max 0 (min count (level tb (tickOf tb now))) \<and>
    availableTokens tb' = level tb (tickOf tb now) - n \<and> latestTick tb' = tickOf tb now \<and>
    startTime tb' = startTime tb \<and> capacity tb' = capacity tb \<and> quantum tb' = quantum tb \<and>
    fillInterval tb' = fillInterval tb"
  using assms level_le_capacity [of tb "tickOf tb now"] tickOf_nonneg [of tb now]
  by (auto simp: takeAvailable_due [OF assms] Let_def bucket_ok_def due_def min_def max_def)

theorem takeAvailable_correct_witness:
  "\<exists>tb' n. takeAvailable sample_bucket 3500000000 4 = Inr (tb', n) \<and> bucket_ok tb' \<and>
    0 \<le> n \<and> n \<le> 4 \<and> n = max 0 (min 4 (level sample_bucket (tickOf sample_bucket 3500000000))) \<and>
    availableTokens tb' = level sample_bucket (tickOf sample_bucket 3500000000) - n \<and>
    latestTick tb' = tickOf sample_bucket 3500000000 \<and>
    startTime tb' = startTime sample_bucket \<and> capacity tb' = capacity sample_bucket \<and>
    quantum tb' = quantum sample_bucket \<and> fillInterval tb' = fillInterval sample_bucket"
  by (rule takeAvailable_correct [where T = 3])
    (simp_all add: sample_bucket_def NewBucketWithQuantum_def NewBucketWithQuantumAndClock_def
      bucket_ok_def due_def tickOf_def)

section \<open>The rate over a run\<close>

text \<open>A sequence of calls of \<open>takeAvailable\<close>, each with its time and count, and the total granted.\<close>

fun takes :: "bucket \<Rightarrow> (int \<times> int) list \<Rightarrow> (bucket \<times> int) res" where
  "takes tb [] = Inr (tb, 0)"
| "takes tb ((now, count) # rs) =
     (case takeAvailable tb now count of
        Inl e \<Rightarrow> Inl e
      | Inr (tb1, n) \<Rightarrow>
          (case takes tb1 rs of Inl e \<Rightarrow> Inl e | Inr (tb2, m) \<Rightarrow> Inr (tb2, n + m)))"

lemma tickOf_update [simp]:
  "tickOf (tb\<lparr>latestTick := t, availableTokens := a\<rparr>) now = tickOf tb now"
  by (simp add: tickOf_def)

lemma due_step:
  "due tb T now' \<Longrightarrow> tickOf tb now \<le> tickOf tb now' \<Longrightarrow> 0 \<le> a \<Longrightarrow>
   due (tb\<lparr>latestTick := tickOf tb now, availableTokens := a\<rparr>) T now'"
  by (simp add: due_def)

lemma takeAvailable_step:
  assumes ok: "bucket_ok tb" and a: "0 \<le> availableTokens tb" and d: "due tb T now" and c: "0 < c"
  obtains l n where "takeAvailable tb now c = Inr (tb\<lparr>latestTick := tickOf tb now, availableTokens := l - n\<rparr>, n)"
    "0 \<le> n" "n \<le> l" "bucket_ok (tb\<lparr>latestTick := tickOf tb now, availableTokens := l - n\<rparr>)"
    "l \<le> availableTokens tb + (tickOf tb now - latestTick tb) * quantum tb"
proof -
  define l where "l = level tb (tickOf tb now)"
  define n where "n = (if l \<le> 0 then 0 else min c l)"
  have "0 \<le> l" using level_ge [OF ok] d a unfolding l_def due_def by (meson order_trans)
  then have n: "0 \<le> n" "n \<le> l" using c by (auto simp: n_def)
  moreover have "l \<le> capacity tb" unfolding l_def by (rule level_le_capacity)
  moreover have "0 \<le> tickOf tb now" using ok d tickOf_nonneg [of tb now] by (auto simp: bucket_ok_def due_def)
  moreover have "takeAvailable tb now c = Inr (tb\<lparr>latestTick := tickOf tb now, availableTokens := l - n\<rparr>, n)"
    by (simp add: takeAvailable_due [OF ok d c] n_def l_def Let_def)
  moreover have "l \<le> availableTokens tb + (tickOf tb now - latestTick tb) * quantum tb"
    unfolding l_def by (rule level_refill)
  ultimately show thesis using ok by (intro that) (auto simp: bucket_ok_def)
qed

lemma takes_bound:
  assumes "bucket_ok tb" and "0 \<le> availableTokens tb"
    and "sorted (map fst rs)" and "\<And>now. now \<in> fst ` set rs \<Longrightarrow> due tb T now"
  shows "\<exists>tb' n. takes tb rs = Inr (tb', n) \<and> bucket_ok tb' \<and> 0 \<le> availableTokens tb' \<and> 0 \<le> n \<and>
    n + availableTokens tb' \<le> availableTokens tb + (latestTick tb' - latestTick tb) * quantum tb \<and>
    (latestTick tb' = latestTick tb \<or> (\<exists>now \<in> fst ` set rs. latestTick tb' = tickOf tb now))"
  using assms
proof (induction rs arbitrary: tb)
  case Nil
  then show ?case by simp
next
  case (Cons r rs)
  obtain now c where r: "r = (now, c)" by (cases r)
  have d: "due tb T now" using Cons.prems(4) r by auto
  have srt: "sorted (map fst rs)" "\<And>now'. now' \<in> fst ` set rs \<Longrightarrow> now \<le> now'"
    using Cons.prems(3) r by force+
  show ?case
  proof (cases "0 < c")
    case False
    have "\<exists>tb' n. takes tb rs = Inr (tb', n) \<and> bucket_ok tb' \<and> 0 \<le> availableTokens tb' \<and> 0 \<le> n \<and>
      n + availableTokens tb' \<le> availableTokens tb + (latestTick tb' - latestTick tb) * quantum tb \<and>
      (latestTick tb' = latestTick tb \<or> (\<exists>now \<in> fst ` set rs. latestTick tb' = tickOf tb now))"
      by (rule Cons.IH) (use Cons.prems srt in auto)
    with False r show ?thesis by (fastforce simp: takeAvailable_def)
  next
    case True
    show ?thesis
    proof (rule takeAvailable_step [OF Cons.prems(1,2) d True])
      fix l n
      let ?tb1 = "tb\<lparr>latestTick := tickOf tb now, availableTokens := l - n\<rparr>"
      assume step: "takeAvailable tb now c = Inr (?tb1, n)" "0 \<le> n" "n \<le> l" "bucket_ok ?tb1"
        "l \<le> availableTokens tb + (tickOf tb now - latestTick tb) * quantum tb"
      have fill: "0 < fillInterval tb" using Cons.prems(1) by (simp add: bucket_ok_def)
      have due1: "due ?tb1 T now'" if "now' \<in> fst ` set rs" for now'
        by (rule due_step [OF _ tickOf_mono [OF fill]]) (use Cons.prems(4) srt that step in auto)
      obtain tb' m where rest: "takes ?tb1 rs = Inr (tb', m)" "bucket_ok tb'" "0 \<le> availableTokens tb'" "0 \<le> m"
          "m + availableTokens tb' \<le> l - n + (latestTick tb' - tickOf tb now) * quantum tb"
          "latestTick tb' = tickOf tb now \<or> (\<exists>now' \<in> fst ` set rs. latestTick tb' = tickOf tb now')"
        using Cons.IH [OF step(4) _ srt(1) due1] step(3) by auto
      have "n + m + availableTokens tb' \<le> availableTokens tb + (latestTick tb' - latestTick tb) * quantum tb"
        using rest(5) step(5) by (simp add: algebra_simps)
      then show ?thesis using rest step by (auto simp: r)
    qed
  qed
qed

text \<open>
  C16: The limiter \<open>main\<close> builds, \<open>NewBucketWithQuantum(time.Second, rate, rate)\<close>, enforces its
  rate: over any sequence of \<open>takeAvailable\<close> calls at non-decreasing times within the first \<open>s\<close>
  seconds, no call fails and no more than \<open>rate * (s + 1)\<close> tokens are granted in all.
\<close>

theorem limiter_rate:
  assumes "0 < rate" and "0 \<le> s" and "s * rate + rate < 2 ^ 63"
    and "sorted (map fst rs)"
    and "\<forall>(now, c) \<in> set rs. t0 \<le> now \<and> now - t0 < (s + 1) * 1000000000"
    and "s + 1 < 2 ^ 33"
  shows "\<exists>tb' n. takes (NewBucketWithQuantum 1000000000 rate rate t0) rs = Inr (tb', n) \<and>
    0 \<le> n \<and> n \<le> rate * (s + 1)"
proof -
  let ?tb = "NewBucketWithQuantum 1000000000 rate rate t0"
  have fld: "quantum ?tb = rate" "capacity ?tb = rate" "availableTokens ?tb = rate"
      "latestTick ?tb = 0" "startTime ?tb = t0" "fillInterval ?tb = 1000000000"
    by (simp_all add: NewBucketWithQuantum_def NewBucketWithQuantumAndClock_def)
  have tk: "tickOf ?tb now \<le> s" if "now - t0 < (s + 1) * 1000000000" for now
  proof -
    have "(now - t0) div 1000000000 < s + 1"
      using that pos_mod_sign [of 1000000000 "now - t0"]
        div_mod_decomp_int [of "now - t0" 1000000000] by simp
    then show ?thesis by (simp add: tickOf_def fld)
  qed
  have ok: "bucket_ok ?tb" using assms(1) by (simp add: bucket_ok_def fld)
  have due: "due ?tb s now" if "now \<in> fst ` set rs" for now
    using that assms tk [of now] tickOf_nonneg [of ?tb now]
    by (auto simp: due_def fld split_beta dest!: bspec)
  obtain tb' n where run: "takes ?tb rs = Inr (tb', n)" "0 \<le> n" "0 \<le> availableTokens tb'"
      "n + availableTokens tb' \<le> rate + latestTick tb' * rate"
      "latestTick tb' = 0 \<or> (\<exists>now \<in> fst ` set rs. latestTick tb' = tickOf ?tb now)"
    using takes_bound [OF ok _ assms(4) due] assms(1) by (auto simp: fld)
  have "latestTick tb' \<le> s"
    using run(5) due assms(2) by (fastforce simp: due_def)
  then have "rate + latestTick tb' * rate \<le> rate * (s + 1)"
    using assms(1) by (simp add: algebra_simps)
  with run show ?thesis by (intro exI [of _ tb'] exI [of _ n]) linarith
qed

theorem limiter_rate_witness:
  "\<exists>tb' n. takes (NewBucketWithQuantum 1000000000 2 2 7) [(7, 1), (8, 1), (9, 1), (2000000006, 5)]
      = Inr (tb', n) \<and> 0 \<le> n \<and> n \<le> 2 * (1 + 1)"
  by (rule limiter_rate) simp_all

section \<open>Taking tokens and waiting for them\<close>

text \<open>The number of ticks after which \<open>m\<close> missing tokens have been added.\<close>

definition ticksFor :: "bucket \<Rightarrow> int \<Rightarrow> int" where
  "ticksFor tb m = (m + quantum tb - 1) div quantum tb"

lemma ticksFor_enough: "0 < quantum tb \<Longrightarrow> m \<le> ticksFor tb m * quantum tb"
  using div_mod_decomp_int [of "m + quantum tb - 1" "quantum tb"]
    pos_mod_bound [of "quantum tb" "m + quantum tb - 1"]
  unfolding ticksFor_def by linarith

lemma ticksFor_least: "0 < quantum tb \<Longrightarrow> (ticksFor tb m - 1) * quantum tb < m"
  using div_mod_decomp_int [of "m + quantum tb - 1" "quantum tb"]
    pos_mod_sign [of "quantum tb" "m + quantum tb - 1"]
  unfolding ticksFor_def left_diff_distrib by linarith

lemma ticksFor_pos: "0 < quantum tb \<Longrightarrow> 0 < m \<Longrightarrow> 0 < ticksFor tb m"
  using ticksFor_enough [of tb m] by (smt (verit) mult_nonpos_nonneg)

lemma ticksFor_le: "0 < quantum tb \<Longrightarrow> 0 < m \<Longrightarrow> ticksFor tb m \<le> m"
  using ticksFor_least [of tb m] ticksFor_pos [of tb m]
  by (smt (verit) mult_le_cancel_left1)

text \<open>
  \<open>waits tb T now count\<close>: the request does not overflow. The bucket is used at a time \<open>now\<close> it can
  be used at, and the tick at which the last missing token arrives is again within the horizon.
\<close>

definition waits :: "bucket \<Rightarrow> int \<Rightarrow> int \<Rightarrow> int \<Rightarrow> bool" where
  "waits tb T now count \<longleftrightarrow> due tb T now \<and> 0 < count \<and>
     count + quantum tb - availableTokens tb < 2 ^ 63 \<and>
     (tickOf tb now + (count - level tb (tickOf tb now)) + 1) * fillInterval tb < 2 ^ 63 \<and>
     (tickOf tb now + (count - level tb (tickOf tb now)) + 1) * quantum tb + capacity tb < 2 ^ 63"

definition endTickOf :: "bucket \<Rightarrow> int \<Rightarrow> int \<Rightarrow> int" where
  "endTickOf tb now count =
     tickOf tb now + ticksFor tb (count - level tb (tickOf tb now))"

lemma takeTokens_short:
  assumes ok: "bucket_ok tb" and w: "waits tb T now count"
    and short: "level tb (tickOf tb now) < count"
  shows "takeTokens tb now count maxWait =
    (let d = startTime tb + endTickOf tb now count * fillInterval tb - now;
         tb1 = tb\<lparr>latestTick := tickOf tb now, availableTokens := level tb (tickOf tb now)\<rparr>
     in if d > maxWait then Inr (tb1, 0, False)
        else Inr (tb1\<lparr>availableTokens := level tb (tickOf tb now) - count\<rparr>, d, True))"
proof -
  let ?t = "tickOf tb now" and ?l = "level tb (tickOf tb now)"
  let ?m = "count - ?l"
  have d: "due tb T now" and c: "0 < count" using w by (simp_all add: waits_def)
  have q: "0 < quantum tb" "0 < fillInterval tb" "0 < capacity tb" using ok by (simp_all add: bucket_ok_def)
  have t0: "0 \<le> ?t" "startTime tb \<le> now" "now - startTime tb < 2 ^ 63" "latestTick tb \<le> ?t"
    using d q tickOf_nonneg by (auto simp: due_def)
  have l: "availableTokens tb \<le> ?l" "?l \<le> capacity tb"
    using level_ge [OF ok t0(4)] level_le_capacity by auto
  have m: "0 < ?m" "?m + quantum tb < 2 ^ 63" using short l w by (simp_all add: waits_def)
  have tf: "0 < ticksFor tb ?m" "ticksFor tb ?m \<le> ?m"
    using ticksFor_pos ticksFor_le q m by auto
  have e: "?t < endTickOf tb now count" "endTickOf tb now count \<le> ?t + ?m"
    using tf by (simp_all add: endTickOf_def)
  have "endTickOf tb now count * fillInterval tb \<le> (?t + ?m + 1) * fillInterval tb"
    using e q by (intro mult_right_mono) auto
  then have ef: "endTickOf tb now count * fillInterval tb < 2 ^ 63"
    using w by (simp add: waits_def)
  have elt: "endTickOf tb now count \<le> endTickOf tb now count * fillInterval tb"
    using q e t0 by (smt (verit) mult_le_cancel_left1)
  have r1: "in_i64 (?l - count)" "in_i64 (?m + quantum tb)" "in_i64 (?m + quantum tb - 1)"
    using m q by (auto simp: in_i64_def)
  have r2: "in_i64 (ticksFor tb ?m)" "in_i64 (endTickOf tb now count)"
      "in_i64 (endTickOf tb now count * fillInterval tb)"
    unfolding in_i64_def using tf m e t0 ef elt q by linarith+
  have sub: "timeSub (startTime tb + endTickOf tb now count * fillInterval tb) now
      = startTime tb + endTickOf tb now count * fillInterval tb - now"
    unfolding timeSub_def using t0 ef e elt by linarith
  show ?thesis
    using c m q by (simp add: takeTokens_def due_simps [OF ok d] Let_def i64_id [OF r1(1)]
        i64_id [OF r1(2)] i64_id [OF r1(3)] ticksFor_def [symmetric] i64_id [OF r2(1)]
        endTickOf_def [symmetric] i64_id [OF r2(2)] i64_id [OF r2(3)] timeAdd_def sub)
qed

lemma available_due:
  "bucket_ok tb \<Longrightarrow> due tb T now \<Longrightarrow>
   available tb now = Inr (tb\<lparr>latestTick := tickOf tb now, availableTokens := level tb (tickOf tb now)\<rparr>,
     level tb (tickOf tb now))"
  by (simp add: available_def due_simps Let_def)

lemma tickOf_end: "0 < fillInterval tb \<Longrightarrow> tickOf tb (startTime tb + k * fillInterval tb) = k"
  by (simp add: tickOf_def)

lemma tickOf_before:
  assumes "0 < fillInterval tb" and "now < startTime tb + k * fillInterval tb"
  shows "tickOf tb now < k"
proof -
  have "tickOf tb now * fillInterval tb \<le> now - startTime tb"
    using div_mod_decomp_int [of "now - startTime tb" "fillInterval tb"]
      pos_mod_sign [OF assms(1), of "now - startTime tb"]
    unfolding tickOf_def by linarith
  also have "\<dots> < k * fillInterval tb" using assms(2) by simp
  finally show ?thesis using assms(1) by simp
qed

text \<open>What is available after a reservation, up to the tick when the tokens are there.\<close>

lemma reserved_available:
  assumes ok: "bucket_ok tb" and w: "waits tb T now count" and short: "level tb (tickOf tb now) < count"
    and tb': "tb' = tb\<lparr>latestTick := tickOf tb now, availableTokens := level tb (tickOf tb now) - count\<rparr>"
    and n: "now \<le> now'" "tickOf tb now' \<le> endTickOf tb now count" "now' - startTime tb < 2 ^ 63"
  shows "\<exists>tb2. available tb' now' = Inr (tb2,
    min (capacity tb) ((tickOf tb now' - tickOf tb now) * quantum tb - (count - level tb (tickOf tb now))))"
proof -
  let ?t = "tickOf tb now" and ?m = "count - level tb (tickOf tb now)"
  have q: "0 < quantum tb" "0 < fillInterval tb" "0 < capacity tb" using ok by (simp_all add: bucket_ok_def)
  have t0: "0 \<le> ?t" "latestTick tb \<le> ?t" "0 < count" using w q tickOf_nonneg by (auto simp: waits_def due_def)
  have ok': "bucket_ok tb'"
    using ok short t0 level_le_capacity [of tb ?t] by (simp add: tb' bucket_ok_def)
  have "endTickOf tb now count \<le> ?t + ?m" using ticksFor_le q short by (auto simp: endTickOf_def)
  then have "due tb' (?t + ?m + 1) now'"
    using w n t0 tickOf_mono [OF q(2) n(1)] level_ge [OF ok t0(2)] q by (auto simp: due_def tb' waits_def)
  from available_due [OF ok' this] show ?thesis
    by (simp add: tb' level_def algebra_simps)
qed

text \<open>
  The waiting time \<open>take\<close> returns is right: when the bucket is short of the tokens asked for
  and the wait is acceptable, the tokens are reserved at once, after the wait the bucket is no
  longer in debt, and at any earlier time it still is, so the wait is not longer than needed.
\<close>

theorem takeTokens_wait_exact:
  assumes "bucket_ok tb" and "waits tb T now count"
    and "level tb (tickOf tb now) < count"
    and "takeTokens tb now count maxWait = Inr (tb', d, True)"
  shows "0 < d \<and> d \<le> maxWait \<and>
    (\<exists>tb2 a. available tb' (now + d) = Inr (tb2, a) \<and> 0 \<le> a) \<and>
    (\<forall>now'. now \<le> now' \<and> now' < now + d \<longrightarrow> (\<exists>tb2 a. available tb' now' = Inr (tb2, a) \<and> a < 0))"
proof -
  let ?t = "tickOf tb now" and ?l = "level tb (tickOf tb now)" and ?e = "endTickOf tb now count"
  let ?m = "count - ?l"
  have q: "0 < quantum tb" "0 < fillInterval tb" "0 < capacity tb"
    using assms(1) by (simp_all add: bucket_ok_def)
  have d: "d = startTime tb + ?e * fillInterval tb - now" "d \<le> maxWait"
    and tb': "tb' = tb\<lparr>latestTick := ?t, availableTokens := ?l - count\<rparr>"
    using assms(4) unfolding takeTokens_short [OF assms(1-3)] by (auto simp: Let_def split: if_splits)
  note R = reserved_available [OF assms(1-3) tb']
  have e: "?t < ?e" "?e \<le> ?t + ?m"
    using ticksFor_pos ticksFor_le q assms(3) by (auto simp: endTickOf_def)
  have "?e * fillInterval tb \<le> (?t + ?m + 1) * fillInterval tb"
    using e q by (intro mult_right_mono) auto
  then have ef: "?e * fillInterval tb < 2 ^ 63"
    using assms(2) by (simp add: waits_def)
  have at: "tickOf tb (now + d) = ?e" "now + d - startTime tb < 2 ^ 63" using tickOf_end [OF q(2), of ?e] ef d by simp_all
  have pos: "0 < d"
    using tickOf_mono [OF q(2), of "now + d" now] at(1) e by linarith
  have "0 \<le> (?e - ?t) * quantum tb - ?m" using ticksFor_enough [OF q(1), of ?m] by (simp add: endTickOf_def)
  then have "\<exists>tb2 a. available tb' (now + d) = Inr (tb2, a) \<and> 0 \<le> a"
    using R [of "now + d"] at pos q(3) by (fastforce simp: min_def)
  moreover have "\<exists>tb2 a. available tb' now' = Inr (tb2, a) \<and> a < 0" if n: "now \<le> now'" "now' < now + d" for now'
  proof -
    have t1: "tickOf tb now' < ?e" using tickOf_before [OF q(2)] n d by simp
    have "(tickOf tb now' - ?t) * quantum tb \<le> (ticksFor tb ?m - 1) * quantum tb"
      using t1 q by (intro mult_right_mono) (auto simp: endTickOf_def)
    then have "(tickOf tb now' - ?t) * quantum tb - ?m < 0" using ticksFor_least [OF q(1), of ?m] by simp
    then show ?thesis using R [OF n(1)] t1 n(2) at(2) by fastforce
  qed
  ultimately show ?thesis using pos d by blast
qed

theorem takeTokens_wait_exact_witness:
  "\<exists>tb2 a tb3 b.
     available (sample_bucket\<lparr>latestTick := 1, availableTokens := -15\<rparr>) 4000000000 = Inr (tb2, a) \<and> 0 \<le> a \<and>
     available (sample_bucket\<lparr>latestTick := 1, availableTokens := -15\<rparr>) 3999999999 = Inr (tb3, b) \<and> b < 0"
proof -
  let ?tb = "sample_bucket\<lparr>latestTick := 1, availableTokens := -15\<rparr>"
  have "0 < (2500000000 :: int) \<and> 2500000000 \<le> infinityDuration \<and>
      (\<exists>tb2 a. available ?tb (1500000000 + 2500000000) = Inr (tb2, a) \<and> 0 \<le> a) \<and>
      (\<forall>now'. 1500000000 \<le> now' \<and> now' < 1500000000 + 2500000000 \<longrightarrow>
         (\<exists>tb2 a. available ?tb now' = Inr (tb2, a) \<and> a < 0))"
    by (rule takeTokens_wait_exact [where tb = sample_bucket and T = 20 and count = 12])
      (simp_all add: sample_bucket_def NewBucketWithQuantum_def NewBucketWithQuantumAndClock_def
        bucket_ok_def waits_def due_def tickOf_def level_def takeTokens_def currentTick_def timeSub_def
        adjustavailableTokens_def Let_def i64_def timeAdd_def infinityDuration_def)
  then have "\<exists>tb2 a. available ?tb 4000000000 = Inr (tb2, a) \<and> 0 \<le> a"
      "\<exists>tb2 a. available ?tb 3999999999 = Inr (tb2, a) \<and> a < 0"
    by simp_all
  then show ?thesis by blast
qed

text \<open>
  A bucket built with a fill interval of zero is not refused by the constructor, and every
  later request for tokens panics with a division by zero.
\<close>

theorem zero_interval_panics:
  assumes "0 < count"
  shows "takeAvailable (NewBucketWithQuantum 0 cap q t0) now count = Inl DivideByZero \<and>
    takeTokens (NewBucketWithQuantum 0 cap q t0) now count w = Inl DivideByZero"
  using assms
  by (simp add: takeAvailable_def takeTokens_def currentTick_def NewBucketWithQuantum_def
      NewBucketWithQuantumAndClock_def)

theorem zero_interval_panics_witness:
  "takeAvailable (NewBucketWithQuantum 0 5 5 0) 9 1 = Inl DivideByZero \<and>
    takeTokens (NewBucketWithQuantum 0 5 5 0) 9 1 0 = Inl DivideByZero"
  by (rule zero_interval_panics) simp

end
