(* ===== verification/Float64.thy ===== *)
theory Float64
  imports Complex_Main "HOL-Library.Log_Nat"
begin

text \<open>
  The \<open>float64\<close> of Go, as far as the CPU statistics and the rate limiter use it: a finite value is the rational number it
  stands for, results of operations are rounded to 53 significant bits with ties to even, and
  values from \<open>2 ^ 1024\<close> on become infinite. The sign of zero and the loss of precision below
  \<open>2 ^ -1022\<close> are left out: the operands here are integers below \<open>2 ^ 64\<close> and quotients of them. What
  the conversion of an infinite or too large value to an integer gives depends on the machine, so it
  is an argument.

  The locale \<open>rounding\<close> states what the proofs use of the rounding, a bound of the relative error;
  the rounding defined here is shown to be an instance.
\<close>

section \<open>Rounding\<close>

definition expo :: "rat \<Rightarrow> int" where
  "expo x = (let (p, q) = quotient_of x; n = bitlen p - bitlen q in if 2 powi n \<le> x then n else n - 1)"

definition roundEven :: "rat \<Rightarrow> int" where
  "roundEven y =
     (let f = \<lfloor>y\<rfloor>
      in if y - of_int f < 1 / 2 then f else if 1 / 2 < y - of_int f then f + 1 else if even f then f else f + 1)"

definition rnd :: "rat \<Rightarrow> rat" where
  "rnd x = (if x = 0 then 0 else let u = 2 powi (expo \<bar>x\<bar> - 52) in of_int (roundEven (x / u)) * u)"

lemma roundEven_error: "\<bar>of_int (roundEven y) - y\<bar> \<le> 1 / 2"
proof -
  have "of_int \<lfloor>y\<rfloor> \<le> y" "y < of_int \<lfloor>y\<rfloor> + 1" by linarith+
  then show ?thesis unfolding roundEven_def Let_def abs_le_iff by (auto simp del: of_int_floor_le)
qed

lemma roundEven_of_int [simp]: "roundEven (of_int k) = k"
  by (simp add: roundEven_def Let_def)

lemma roundEven_near: "\<bar>y - of_int k\<bar> < 1 / 2 \<Longrightarrow> roundEven y = k"
proof -
  assume a: "\<bar>y - of_int k\<bar> < 1 / 2"
  have "\<lfloor>y\<rfloor> = k \<or> \<lfloor>y\<rfloor> = k - 1" using a by linarith
  then show ?thesis using a by (auto simp: roundEven_def Let_def abs_less_iff)
qed

lemma powi_mono: "m \<le> n \<Longrightarrow> (2 :: rat) powi m \<le> 2 powi n"
  by (rule power_int_increasing) simp_all

lemma expo_bounds:
  assumes "0 < x"
  shows "2 powi (expo x) \<le> x" "x < 2 powi (expo x + 1)"
proof -
  obtain p q where pq: "quotient_of x = (p, q)" by fastforce
  then have x: "x = of_int p / of_int q" and q: "0 < q" by (auto dest: quotient_of_div quotient_of_denom_pos)
  have p: "0 < p" using assms x q by (simp add: zero_less_divide_iff)
  have B: "2 powi (bitlen k - 1) \<le> (of_int k :: rat) \<and> (of_int k :: rat) < 2 powi (bitlen k)" if "0 < k" for k
  proof -
    have "of_int (2 ^ nat (bitlen k - 1)) \<le> (of_int k :: rat)" "(of_int k :: rat) < of_int (2 ^ nat (bitlen k))"
      using bitlen_bounds [OF that] by (simp_all only: of_int_le_iff of_int_less_iff)
    moreover have "1 \<le> bitlen k" using that by (auto simp: bitlen_alt_def)
    ultimately show ?thesis by (simp add: power_int_def)
  qed
  have "x < 2 powi (bitlen p) / 2 powi (bitlen q - 1)"
    unfolding x using B [OF p] B [OF q] p q by (intro frac_less) auto
  also have "\<dots> = 2 powi (bitlen p - bitlen q + 1)" by (simp add: power_int_diff power_int_add)
  finally have up: "x < 2 powi (bitlen p - bitlen q + 1)" .
  have "2 powi (bitlen p - bitlen q - 1) = (2 :: rat) powi (bitlen p - 1) / 2 powi (bitlen q)"
    by (simp add: power_int_diff)
  also have "\<dots> \<le> x" unfolding x using B [OF p] B [OF q] p q by (intro frac_le) auto
  finally have lo: "2 powi (bitlen p - bitlen q - 1) \<le> x" .
  show "2 powi (expo x) \<le> x" "x < 2 powi (expo x + 1)"
    using up lo by (auto simp: expo_def pq Let_def)
qed

lemma expo_eq:
  assumes "2 powi n \<le> x" "x < 2 powi (n + 1)"
  shows "expo x = n"
proof -
  have "0 < x" using assms(1) by (rule less_le_trans [rotated]) simp
  note E = expo_bounds [OF this]
  have "\<not> n + 1 \<le> expo x" using E(1) assms(2) powi_mono [of "n + 1" "expo x"] by linarith
  moreover have "\<not> expo x + 1 \<le> n" using E(2) assms(1) powi_mono [of "expo x + 1" n] by linarith
  ultimately show ?thesis by linarith
qed

lemma rnd_error: "\<bar>rnd x - x\<bar> \<le> \<bar>x\<bar> / 2 ^ 53"
proof (cases "x = 0")
  case False
  let ?u = "(2 :: rat) powi (expo \<bar>x\<bar> - 52)"
  have u: "0 < ?u" by simp
  have "rnd x - x = (of_int (roundEven (x / ?u)) - x / ?u) * ?u"
    using False by (simp add: rnd_def Let_def left_diff_distrib)
  then have "\<bar>rnd x - x\<bar> = \<bar>of_int (roundEven (x / ?u)) - x / ?u\<bar> * ?u" by (simp add: abs_mult)
  also have "\<dots> \<le> 1 / 2 * ?u" using roundEven_error u by (intro mult_right_mono) auto
  also have "\<dots> = 2 powi (expo \<bar>x\<bar>) / 2 ^ 53" by (simp add: power_int_diff)
  also have "\<dots> \<le> \<bar>x\<bar> / 2 ^ 53" using expo_bounds(1) [of "\<bar>x\<bar>"] False by (simp add: divide_right_mono)
  finally show ?thesis .
qed (simp add: rnd_def)

lemma rnd_int:
  assumes "\<bar>k\<bar> < 2 ^ 53"
  shows "rnd (of_int k) = of_int k"
proof (cases "k = 0")
  case False
  let ?e = "expo \<bar>of_int k :: rat\<bar>"
  let ?u = "(2 :: rat) powi (?e - 52)"
  have "2 powi ?e \<le> \<bar>of_int k :: rat\<bar>" using expo_bounds(1) False by simp
  also have "\<dots> < 2 powi 53"
    using assms by (simp add: power_int_def flip: of_int_abs)
  finally have "?e < 53" using powi_mono [of 53 ?e] by linarith
  then have "inverse ?u = of_int (2 ^ nat (52 - ?e))" by (simp add: power_int_def power_one_over)
  then have "of_int k / ?u = of_int (k * 2 ^ nat (52 - ?e))" by (simp add: divide_inverse)
  then have "roundEven (of_int k / ?u) = k * 2 ^ nat (52 - ?e)" by (metis roundEven_of_int)
  then have "of_int (roundEven (of_int k / ?u)) * ?u = of_int k / ?u * ?u"
    using \<open>of_int k / ?u = of_int (k * 2 ^ nat (52 - ?e))\<close> by simp
  then show ?thesis using False by (simp add: rnd_def Let_def)
qed (simp add: rnd_def)

section \<open>Values and operations\<close>

datatype f64 = Fin rat | PInf | NInf | NaN

definition mkF :: "rat \<Rightarrow> f64" where
  "mkF x = (let r = rnd x in if 2 ^ 1024 \<le> r then PInf else if r \<le> - (2 ^ 1024) then NInf else Fin r)"

definition fOfInt :: "int \<Rightarrow> f64" where
  "fOfInt k = mkF (of_int k)"

fun fneg :: "f64 \<Rightarrow> f64" where
  "fneg (Fin x) = Fin (- x)"
| "fneg PInf = NInf"
| "fneg NInf = PInf"
| "fneg NaN = NaN"

fun fadd :: "f64 \<Rightarrow> f64 \<Rightarrow> f64" where
  "fadd (Fin x) (Fin y) = mkF (x + y)"
| "fadd NaN y = NaN"
| "fadd x NaN = NaN"
| "fadd PInf NInf = NaN"
| "fadd NInf PInf = NaN"
| "fadd PInf y = PInf"
| "fadd NInf y = NInf"
| "fadd x PInf = PInf"
| "fadd x NInf = NInf"

definition fsub :: "f64 \<Rightarrow> f64 \<Rightarrow> f64" where
  "fsub x y = fadd x (fneg y)"

text \<open>The infinity with the sign of a number; an infinity times zero is not a number.\<close>

definition infOf :: "rat \<Rightarrow> f64" where
  "infOf x = (if 0 < x then PInf else if x < 0 then NInf else NaN)"

fun signOf :: "f64 \<Rightarrow> rat" where
  "signOf (Fin x) = x"
| "signOf PInf = 1"
| "signOf NInf = -1"
| "signOf NaN = 0"

fun fmul :: "f64 \<Rightarrow> f64 \<Rightarrow> f64" where
  "fmul (Fin x) (Fin y) = mkF (x * y)"
| "fmul x y = infOf (signOf x * signOf y)"

fun fdiv :: "f64 \<Rightarrow> f64 \<Rightarrow> f64" where
  "fdiv (Fin x) (Fin y) = (if y = 0 then infOf x else mkF (x / y))"
| "fdiv (Fin x) y = (if y = NaN then NaN else Fin 0)"
| "fdiv NaN y = NaN"
| "fdiv x (Fin y) = (if y = 0 then x else infOf (signOf x * y))"
| "fdiv x y = NaN"

fun fless :: "f64 \<Rightarrow> f64 \<Rightarrow> bool" where
  "fless (Fin x) (Fin y) \<longleftrightarrow> x < y"
| "fless NaN y \<longleftrightarrow> False"
| "fless x NaN \<longleftrightarrow> False"
| "fless NInf y \<longleftrightarrow> y \<noteq> NInf"
| "fless x PInf \<longleftrightarrow> x \<noteq> PInf"
| "fless x y \<longleftrightarrow> False"

definition fle :: "f64 \<Rightarrow> f64 \<Rightarrow> bool" where
  "fle x y \<longleftrightarrow> fless x y \<or> x = y \<and> x \<noteq> NaN"

fun fabs :: "f64 \<Rightarrow> f64" where
  "fabs (Fin x) = Fin \<bar>x\<bar>"
| "fabs NInf = PInf"
| "fabs x = x"

definition trunc :: "rat \<Rightarrow> int" where
  "trunc x = (if x < 0 then \<lceil>x\<rceil> else \<lfloor>x\<rfloor>)"

text \<open>Conversion to an integer type with the values from \<open>lo\<close> up to \<open>hi\<close>, with \<open>oor\<close> for the rest.\<close>

definition fToInt :: "(f64 \<Rightarrow> int) \<Rightarrow> int \<Rightarrow> int \<Rightarrow> f64 \<Rightarrow> int" where
  "fToInt oor lo hi v =
     (case v of Fin x \<Rightarrow> if lo \<le> trunc x \<and> trunc x \<le> hi then trunc x else oor v | _ \<Rightarrow> oor v)"

abbreviation fToInt64 :: "(f64 \<Rightarrow> int) \<Rightarrow> f64 \<Rightarrow> int" where
  "fToInt64 oor \<equiv> fToInt oor (- (2 ^ 63)) (2 ^ 63 - 1)"

abbreviation fToUint64 :: "(f64 \<Rightarrow> int) \<Rightarrow> f64 \<Rightarrow> int" where
  "fToUint64 oor \<equiv> fToInt oor 0 (2 ^ 64 - 1)"

section \<open>What the proofs use of the rounding\<close>

locale rounding =
  fixes r :: "rat \<Rightarrow> rat"
  assumes rel_error: "\<bar>r x - x\<bar> \<le> \<bar>x\<bar> / 2 ^ 53"
begin

lemma abs_error: "\<bar>x\<bar> \<le> b \<Longrightarrow> \<bar>r x - x\<bar> \<le> b / 2 ^ 53"
  using rel_error [of x] by (meson divide_right_mono order_trans zero_le_numeral zero_le_power)

lemma bounded: "\<bar>x\<bar> \<le> b \<Longrightarrow> \<bar>r x\<bar> \<le> 2 * b"
  using abs_error [of x b] by (simp add: abs_if split: if_splits)

text \<open>A weighted mean of two numbers, each product and the sum rounded, stays near the exact mean.\<close>

lemma mean_error:
  assumes p: "0 \<le> p" "p \<le> b" and u: "0 \<le> u" "u \<le> b" and d: "0 \<le> d" "0 \<le> e" "d + e \<le> 1"
  shows "\<bar>r (r (p * d) + r (u * e)) - (p * d + u * e)\<bar> \<le> 4 * b / 2 ^ 53"
proof -
  have b: "0 \<le> b" using p by linarith
  have "p * d \<le> b * d" "u * e \<le> b * e" using p u d by (auto intro: mult_right_mono)
  moreover have "b * d + b * e \<le> b" using mult_left_mono [OF d(3) b] by (simp add: distrib_left)
  moreover have nn: "0 \<le> p * d" "0 \<le> u * e" "0 \<le> b * d" "0 \<le> b * e" using p u d b by auto
  ultimately have s: "p * d + u * e \<le> b" "\<bar>p * d\<bar> \<le> b" "\<bar>u * e\<bar> \<le> b" by (auto simp: abs_if)
  have e1: "\<bar>r (p * d) - p * d\<bar> \<le> b / 2 ^ 53" "\<bar>r (u * e) - u * e\<bar> \<le> b / 2 ^ 53"
    using abs_error s by blast+
  let ?s = "r (p * d) + r (u * e)"
  have "\<bar>?s\<bar> \<le> 2 * b" using e1 s nn b by (simp add: abs_if split: if_splits)
  then have "\<bar>r ?s - ?s\<bar> \<le> 2 * b / 2 ^ 53" by (rule abs_error)
  then show ?thesis using e1 by (simp add: abs_if split: if_splits)
qed

text \<open>A quotient by a rounded number, rounded, stays near the exact quotient.\<close>

lemma quotient_error:
  assumes n: "0 \<le> n" and z: "0 < z"
  shows "0 < r z" "n / r z \<le> 2 * (n / z)" "\<bar>r (n / r z) - n / z\<bar> \<le> 4 * (n / z) / 2 ^ 53"
proof -
  have e: "\<bar>r z - z\<bar> \<le> z / 2 ^ 53" using rel_error [of z] z by simp
  moreover have "z / 2 ^ 53 \<le> z / 2" using z by simp
  ultimately have lo: "z / 2 \<le> r z" by linarith
  then show pos: "0 < r z" using z by linarith
  have "n / r z \<le> n / (z / 2)" using n z lo by (intro divide_left_mono) auto
  then show b: "n / r z \<le> 2 * (n / z)" by (simp add: mult.commute)
  have "n / r z - n / z = n / r z * ((z - r z) / z)" using z pos by (simp add: field_simps)
  then have "\<bar>n / r z - n / z\<bar> = n / r z * (\<bar>r z - z\<bar> / z)" using n z pos by (simp add: abs_mult abs_minus_commute)
  also have "\<dots> \<le> n / r z * (1 / 2 ^ 53)"
    using e n z pos by (intro mult_left_mono) (simp_all add: field_simps)
  also have "\<dots> \<le> 2 * (n / z) / 2 ^ 53" using b by simp
  finally have 1: "\<bar>n / r z - n / z\<bar> \<le> 2 * (n / z) / 2 ^ 53" .
  have "\<bar>n / r z\<bar> \<le> 2 * (n / z)" using b n pos by simp
  from abs_error [OF this] 1 show "\<bar>r (n / r z) - n / z\<bar> \<le> 4 * (n / z) / 2 ^ 53" by linarith
qed

end

interpretation r64: rounding rnd
  by unfold_locales (rule rnd_error)

lemma mkF_fin:
  assumes "\<bar>x\<bar> \<le> 2 ^ 1000"
  shows "mkF x = Fin (rnd x)"
proof -
  have "\<bar>rnd x\<bar> \<le> 2 * 2 ^ 1000" using r64.bounded [OF assms] .
  moreover have "2 * (2 :: rat) ^ 1000 < 2 ^ 1024" using power_strict_increasing [of 1001 1024 "2 :: rat"] by simp
  ultimately show ?thesis by (simp add: mkF_def Let_def abs_le_iff)
qed

lemma mkF_small: "\<bar>x\<bar> \<le> 2 ^ 70 \<Longrightarrow> mkF x = Fin (rnd x)"
  by (rule mkF_fin, erule order_trans) (rule power_increasing, simp_all)

lemma trunc_near:
  assumes "\<bar>v - x\<bar> \<le> d" "0 \<le> x" "d < 1"
  shows "x - 1 - d < of_int (trunc v)" "of_int (trunc v) \<le> x + d"
proof -
  have "of_int \<lfloor>v\<rfloor> \<le> v" "v < of_int \<lfloor>v\<rfloor> + 1" "of_int \<lceil>v\<rceil> < v + 1" "v \<le> of_int \<lceil>v\<rceil>" by linarith+
  moreover have "\<lceil>v\<rceil> = 0" if "v < 0" using assms that by (simp add: ceiling_eq_iff abs_le_iff)
  ultimately show "x - 1 - d < of_int (trunc v)" "of_int (trunc v) \<le> x + d"
    using assms by (auto simp: trunc_def abs_le_iff simp del: of_int_floor_le)
qed

lemma trunc_near_nonneg: "\<bar>v - x\<bar> \<le> d \<Longrightarrow> 0 \<le> x \<Longrightarrow> d < 1 \<Longrightarrow> 0 \<le> trunc v"
  by (auto simp: trunc_def abs_le_iff le_floor_iff)

lemma fOfInt_small: "\<bar>k\<bar> < 2 ^ 53 \<Longrightarrow> fOfInt k = Fin (of_int k)"
proof -
  assume k: "\<bar>k\<bar> < 2 ^ 53"
  then have "\<bar>of_int k :: rat\<bar> \<le> of_int (2 ^ 70)" unfolding of_int_abs [symmetric] of_int_le_iff by simp
  then show ?thesis using k by (simp add: fOfInt_def mkF_small rnd_int)
qed

end
