(* ===== verification/RateBucket.thy ===== *)
theory RateBucket
  imports RateLimit Float64
begin

text \<open>
  The constructors of \<open>src/util/ratelimit/ratelimit.go\<close> that take a rate as a floating-point number:
  they search for a quantum with which a fill interval of whole nanoseconds gives the rate up to a
  margin of one percent. The theorems say that the search returns for the usual rates, and that the
  rate of the bucket, computed exactly, is within the margin although the code compares rounded
  numbers.
\<close>

section \<open>The rate of a bucket\<close>

definition Rate :: "bucket \<Rightarrow> f64" where
  "Rate tb = fdiv (fmul (Fin 1000000000) (fOfInt (quantum tb))) (fOfInt (fillInterval tb))"

definition rateMargin :: f64 where
  "rateMargin = Fin (rnd (1 / 100))"

text \<open>\<open>oor\<close> is the result of the conversion to an integer for a number that is out of its range.\<close>

definition fillOf :: "(f64 \<Rightarrow> int) \<Rightarrow> f64 \<Rightarrow> int \<Rightarrow> int" where
  "fillOf oor rate q = fToInt64 oor (fdiv (fmul (Fin 1000000000) (fOfInt q)) rate)"

definition closeTo :: "f64 \<Rightarrow> bucket \<Rightarrow> bool" where
  "closeTo rate tb \<longleftrightarrow> (let diff = fabs (fsub (Rate tb) rate) in fle (fdiv diff rate) rateMargin)"

section \<open>The search for a quantum\<close>

lemma nextQuantum_eq:
  assumes "0 \<le> q" "q < 2 ^ 50"
  shows "nextQuantum q = (if q < 10 then q + 1 else q * 11 div 10)"
proof -
  have "in_i64 (q * 11)" "in_i64 (q * 11 div 10)" "in_i64 (q + 1)"
    using assms by (auto simp: in_i64_def)
  then show ?thesis
    using assms by (auto simp: nextQuantum_def Let_def i64_id)
qed

lemma nextQuantum_grows:
  assumes "0 \<le> q" "q < 2 ^ 50"
  shows "q < nextQuantum q"
  using nextQuantum_eq [OF assms] assms by auto

lemma nextQuantum_nat:
  assumes "q < 1125899906842624"
  shows "int q < nextQuantum (int q)" "0 \<le> nextQuantum (int q)"
  using nextQuantum_grows [of "int q"] assms by simp_all

text \<open>
  The loop of \<open>NewBucketWithRateAndClock\<close>. The quantum starts at 1 and only grows, so it is a natural
  number. The number at the end of the message of the panic is left out.
\<close>

function searchQuantum :: "(f64 \<Rightarrow> int) \<Rightarrow> f64 \<Rightarrow> bucket \<Rightarrow> nat \<Rightarrow> bucket res" where
  "searchQuantum oor rate tb q =
     (if int q < 2 ^ 50
      then let f = fillOf oor rate (int q)
           in if f \<le> 0 then searchQuantum oor rate tb (nat (nextQuantum (int q)))
              else let tb1 = tb\<lparr>fillInterval := f, quantum := int q\<rparr>
                   in if closeTo rate tb1 then Inr tb1
                      else searchQuantum oor rate tb1 (nat (nextQuantum (int q)))
      else Inl (PanicValue ''cannot find suitable quantum for ''))"
  by pat_completeness auto
termination
  by (relation "measure (\<lambda>(_, _, _, q). nat (2 ^ 50 - int q))") (auto simp: nextQuantum_nat)

definition NewBucketWithRateAndClock :: "(f64 \<Rightarrow> int) \<Rightarrow> f64 \<Rightarrow> int \<Rightarrow> int \<Rightarrow> bucket res" where
  "NewBucketWithRateAndClock oor rate cap now =
     searchQuantum oor rate (NewBucketWithQuantumAndClock 1 cap 1 now) 1"

definition NewBucketWithRate :: "(f64 \<Rightarrow> int) \<Rightarrow> f64 \<Rightarrow> int \<Rightarrow> int \<Rightarrow> bucket res" where
  "NewBucketWithRate oor rate cap now = NewBucketWithRateAndClock oor rate cap now"

declare searchQuantum.simps [simp del]

lemma searchQuantum_found:
  assumes "searchQuantum oor rate tb q = Inr tb'" and "0 < q"
  shows "closeTo rate tb' \<and> fillInterval tb' = fillOf oor rate (quantum tb') \<and>
    0 < fillInterval tb' \<and> 0 < quantum tb' \<and> quantum tb' < 2 ^ 50 \<and>
    capacity tb' = capacity tb \<and> availableTokens tb' = availableTokens tb \<and>
    latestTick tb' = latestTick tb \<and> startTime tb' = startTime tb"
  using assms
proof (induction oor rate tb q rule: searchQuantum.induct)
  case (1 oor rate tb q)
  have lt: "int q < 2 ^ 50"
    using "1.prems" by (subst (asm) searchQuantum.simps) (auto split: if_splits)
  then have pos: "0 < nat (nextQuantum (int q))"
    using nextQuantum_grows [of "int q"] by simp
  show ?case
  proof (cases "fillOf oor rate (int q) \<le> 0")
    case True
    then show ?thesis
      using 1(1) [OF lt refl True _ pos] "1.prems" lt
      by (auto simp: searchQuantum.simps [of oor rate tb q] Let_def)
  next
    case False
    then show ?thesis
      using 1(2) [OF lt refl False refl _ _ pos] "1.prems" lt
      by (auto simp: searchQuantum.simps [of oor rate tb q] Let_def split: if_splits)
  qed
qed

section \<open>Rounded and exact rates\<close>

text \<open>The exact rate in tokens per second, and how far \<open>Rate\<close> is from it.\<close>

definition trueRate :: "bucket \<Rightarrow> rat" where
  "trueRate tb = 1000000000 * of_int (quantum tb) / of_int (fillInterval tb)"

lemma scaled_quantum:
  assumes "0 < q" "q < 2 ^ 50"
  shows "fmul (Fin 1000000000) (fOfInt q) = Fin (rnd (1000000000 * of_int q))"
    "\<bar>rnd (1000000000 * of_int q) - 1000000000 * of_int q\<bar> \<le> 1000000000 * of_int q / 2 ^ 53"
    "(of_int q :: rat) \<le> 2 ^ 50"
proof -
  have "of_int q \<le> (of_int (2 ^ 50) :: rat)" using assms by (simp only: of_int_le_iff)
  then show q: "(of_int q :: rat) \<le> 2 ^ 50" by simp
  have "\<bar>1000000000 * of_int q :: rat\<bar> \<le> 2 ^ 80" using q assms by simp
  also have "\<dots> \<le> 2 ^ 1000" by (rule power_increasing) simp_all
  finally have "mkF (1000000000 * of_int q) = Fin (rnd (1000000000 * of_int q))" by (rule mkF_fin)
  then show "fmul (Fin 1000000000) (fOfInt q) = Fin (rnd (1000000000 * of_int q))"
    using assms by (simp add: fOfInt_small)
  show "\<bar>rnd (1000000000 * of_int q) - 1000000000 * of_int q\<bar> \<le> 1000000000 * of_int q / (2 :: rat) ^ 53"
    using rnd_error [of "1000000000 * of_int q"] assms by simp
qed

lemma rel_near:
  fixes c t :: rat
  assumes "\<bar>c - t\<bar> \<le> t / 2 ^ 53" "0 < t"
  shows "0 \<le> c \<and> c \<le> 2 * t \<and> c \<le> 3 / 2 * t"
  using assms by (simp add: abs_if split: if_splits)

lemma Rate_near:
  assumes q: "0 < quantum tb" "quantum tb < 2 ^ 50" and f: "0 < fillInterval tb" "fillInterval tb < 2 ^ 63"
  obtains c where "Rate tb = Fin c" "\<bar>c - trueRate tb\<bar> \<le> 8 * trueRate tb / 2 ^ 53"
proof -
  let ?A = "1000000000 * of_int (quantum tb) :: rat" and ?z = "of_int (fillInterval tb) :: rat"
  let ?n = "rnd ?A" and ?t = "trueRate tb"
  note Q = scaled_quantum [OF q]
  have A: "0 < ?A" "?A \<le> 2 ^ 80" using q Q(3) by simp_all
  have z: "1 \<le> ?z" "?z \<le> 2 ^ 63"
  proof -
    have "of_int 1 \<le> ?z" "?z \<le> of_int (2 ^ 63)" using f by (simp_all only: of_int_le_iff)
    then show "1 \<le> ?z" "?z \<le> 2 ^ 63" by simp_all
  qed
  have n: "0 \<le> ?n" "?n \<le> 2 * ?A" using rel_near [OF Q(2) A(1)] by blast+
  have big: "(2 :: rat) ^ 82 \<le> 2 ^ 1000" "(2 :: rat) ^ 63 \<le> 2 ^ 1000" by (rule power_increasing; simp)+
  have Z: "fOfInt (fillInterval tb) = Fin (rnd ?z)"
    unfolding fOfInt_def using z big by (intro mkF_fin) linarith
  note E = r64.quotient_error [OF n(1), of ?z]
  have zp: "0 < ?z" using z by linarith
  have "?n / ?z \<le> 2 * ?A / 1" using n z A by (intro frac_le) auto
  then have "?n / rnd ?z \<le> 4 * ?A" using E(2) [OF zp] by linarith
  moreover have "0 \<le> ?n / rnd ?z" using n E(1) [OF zp] by simp
  ultimately have "\<bar>?n / rnd ?z\<bar> \<le> 2 ^ 1000" using A(2) big(1) by simp
  then have R: "Rate tb = Fin (rnd (?n / rnd ?z))"
    using Q(1) Z E(1) [OF zp] by (simp add: Rate_def mkF_fin)
  have t: "?A / ?z = ?t" by (simp add: trueRate_def)
  have "\<bar>?n / ?z - ?A / ?z\<bar> = \<bar>?n - ?A\<bar> / ?z" using zp by (simp flip: diff_divide_distrib)
  also have "\<dots> \<le> (?A / 2 ^ 53) / ?z" using Q(2) zp by (intro divide_right_mono) auto
  also have "\<dots> = ?A / ?z / 2 ^ 53" by (simp only: divide_divide_eq_left mult.commute)
  finally have 1: "\<bar>?n / ?z - ?t\<bar> \<le> ?t / 2 ^ 53" unfolding t .
  have t0: "0 < ?t" using A(1) zp t by (metis divide_pos_pos)
  have "?n / ?z \<le> 3 / 2 * ?t" using rel_near [OF 1 t0] by blast
  then have "4 * (?n / ?z) / 2 ^ 53 \<le> 6 * ?t / 2 ^ 53" by (intro divide_right_mono) (linarith, simp)
  then have "\<bar>rnd (?n / rnd ?z) - ?t\<bar> \<le> 8 * ?t / 2 ^ 53" using E(3) [OF zp] 1 t0 by linarith
  then show thesis by (rule that [OF R])
qed

text \<open>The comparison with the margin, on the rounded numbers and on the exact ones.\<close>

lemma rateMargin_bounds: "\<exists>m. rateMargin = Fin m \<and> 99 / 10000 \<le> m \<and> m \<le> 1 / 100 + 1 / 2 ^ 59"
  using rnd_error [of "1 / 100"] by (simp add: rateMargin_def abs_if split: if_splits)

lemma closeTo_iff:
  assumes c: "Rate tb = Fin c" "\<bar>c - r\<bar> \<le> 2 ^ 1000" and r: "0 < r"
  obtains d x m where "\<bar>d - (c - r)\<bar> \<le> \<bar>c - r\<bar> / 2 ^ 53" "x = \<bar>d\<bar> / r" "\<bar>rnd x - x\<bar> \<le> x / 2 ^ 53"
    "99 / 10000 \<le> m" "m \<le> 1 / 100 + 1 / 2 ^ 59"
    "closeTo (Fin r) tb \<Longrightarrow> rnd x \<le> m" "rnd x \<le> m \<Longrightarrow> x \<le> 2 ^ 1000 \<Longrightarrow> closeTo (Fin r) tb"
proof -
  let ?d = "rnd (c - r)"
  let ?x = "\<bar>?d\<bar> / r"
  obtain m where m: "rateMargin = Fin m" "99 / 10000 \<le> m" "m \<le> 1 / 100 + 1 / 2 ^ 59" using rateMargin_bounds by blast
  have x: "0 \<le> ?x" using r by simp
  have e: "\<bar>rnd ?x - ?x\<bar> \<le> ?x / 2 ^ 53" using rnd_error [of ?x] unfolding abs_of_nonneg [OF x] .
  have "fsub (Rate tb) (Fin r) = Fin ?d" using c by (simp add: fsub_def mkF_fin)
  then have cl: "closeTo (Fin r) tb \<longleftrightarrow> fle (mkF ?x) (Fin m)" using r m(1) by (simp add: closeTo_def)
  have "0 \<le> rnd ?x" using e x by (auto simp: abs_if split: if_splits)
  then have "mkF ?x = PInf \<or> mkF ?x = Fin (rnd ?x)" by (auto simp: mkF_def Let_def not_le intro: less_le_trans)
  then have 1: "rnd ?x \<le> m" if "closeTo (Fin r) tb" using that cl by (auto simp: fle_def)
  have 2: "closeTo (Fin r) tb" if "rnd ?x \<le> m" "?x \<le> 2 ^ 1000"
    using that cl x mkF_fin [of ?x] by (auto simp: fle_def)
  show thesis by (rule that [OF _ refl e m(2,3) 1 2]) (use rnd_error in blast)
qed

lemma closeTo_margin:
  assumes "Rate tb = Fin c" "\<bar>c - r\<bar> \<le> 2 ^ 1000" "0 < r" "closeTo (Fin r) tb"
  shows "\<bar>c - r\<bar> \<le> r * (1 / 100 + 1 / 2 ^ 50)"
proof (rule closeTo_iff [OF assms(1-3)])
  fix d x m
  assume h: "\<bar>d - (c - r)\<bar> \<le> \<bar>c - r\<bar> / 2 ^ 53" "x = \<bar>d\<bar> / r" "\<bar>rnd x - x\<bar> \<le> x / 2 ^ 53"
    "m \<le> 1 / 100 + 1 / 2 ^ 59" "closeTo (Fin r) tb \<Longrightarrow> rnd x \<le> m"
  have "rnd x \<le> 1 / 100 + 1 / 2 ^ 59" using h(4,5) assms(4) by linarith
  then have x: "x \<le> 1 / 100 + 1 / 2 ^ 55" using h(3) by (simp add: abs_if split: if_splits)
  have "\<bar>d\<bar> = x * r" using h(2) assms(3) by simp
  also have "\<dots> \<le> (1 / 100 + 1 / 2 ^ 55) * r" using x assms(3) by (intro mult_right_mono) auto
  finally have "\<bar>d\<bar> \<le> r * (1 / 100 + 1 / 2 ^ 55)" by (simp only: mult.commute)
  then show ?thesis using h(1) assms(3) by (simp add: abs_if split: if_splits)
qed

lemma trueRate_bounds:
  assumes q: "0 < quantum tb" "quantum tb < 2 ^ 50" and f: "0 < fillInterval tb"
  shows "0 < trueRate tb" "trueRate tb \<le> 2 ^ 80"
proof -
  have z: "1 \<le> (of_int (fillInterval tb) :: rat)" using f by (metis int_one_le_iff_zero_less of_int_1_le_iff)
  then show "0 < trueRate tb" using q by (simp add: trueRate_def)
  have "trueRate tb \<le> 1000000000 * 2 ^ 50 / 1"
    unfolding trueRate_def using scaled_quantum(3) [OF q] q z by (intro frac_le) auto
  then show "trueRate tb \<le> 2 ^ 80" by simp
qed

lemma rate_margin:
  assumes c: "Rate tb = Fin c" "\<bar>c - trueRate tb\<bar> \<le> 8 * trueRate tb / 2 ^ 53"
    and q: "0 < quantum tb" "quantum tb < 2 ^ 50" "0 < fillInterval tb" and r: "0 < r" "r \<le> 2 ^ 900"
    and cl: "closeTo (Fin r) tb"
  shows "\<bar>trueRate tb - r\<bar> \<le> r * (1 / 100 + 1 / 2 ^ 48)"
proof -
  let ?t = "trueRate tb"
  note T = trueRate_bounds [OF q]
  have "8 * ?t / 2 ^ 53 \<le> ?t" using T(1) by simp
  then have "\<bar>c - ?t\<bar> \<le> ?t" using c(2) by linarith
  then have "\<bar>c - r\<bar> \<le> 2 ^ 81 + r" using T r(1) by (simp add: abs_if split: if_splits)
  moreover have "(2 :: rat) ^ 81 \<le> 2 ^ 999" "(2 :: rat) ^ 900 \<le> 2 ^ 999" by (rule power_increasing; simp)+
  moreover have "(2 :: rat) ^ 1000 = 2 ^ 999 + 2 ^ 999" using power_Suc [of "2 :: rat" 999] by (simp only: mult_2 Suc_numeral) simp
  ultimately have "\<bar>c - r\<bar> \<le> 2 ^ 1000" using r(2) by linarith
  from closeTo_margin [OF c(1) this r(1) cl] have m: "\<bar>c - r\<bar> \<le> r * (1 / 100 + 1 / 2 ^ 50)" .
  then have "?t \<le> 2 * r" using c(2) T(1) r(1) by (simp add: abs_if split: if_splits)
  then have "8 * ?t / 2 ^ 53 \<le> r * (1 / 2 ^ 49)" by simp
  then show ?thesis using c(2) m r(1) by (simp add: abs_if split: if_splits)
qed

section \<open>The search returns\<close>

text \<open>For the usual rates already the quantum 1 is close enough: the fill interval has at least 198 nanoseconds.\<close>

lemma first_fill:
  assumes r: "1 \<le> r" "r \<le> 5000000"
  obtains f where "fillOf oor (Fin r) 1 = f" "\<bar>1000000000 / r - of_int f\<bar> \<le> 1001 / 1000" "198 \<le> f" "f < 2 ^ 63"
proof -
  let ?y = "1000000000 / r"
  have y: "200 \<le> ?y" "?y \<le> 1000000000" using r by (simp_all add: field_simps)
  have "(1000000000 :: rat) \<le> 2 ^ 1000" by (rule order_trans [of _ "2 ^ 30"]) (simp, rule power_increasing, simp_all)
  then have m: "mkF ?y = Fin (rnd ?y)" using y by (intro mkF_fin) simp
  have "rnd (1000000000 :: rat) = 1000000000" using rnd_int [of 1000000000] by simp
  then have v: "fdiv (fmul (Fin 1000000000) (fOfInt 1)) (Fin r) = Fin (rnd ?y)"
    using scaled_quantum(1) [of 1] m r by simp
  have y0: "0 \<le> ?y" using y(1) by linarith
  have "\<bar>?y\<bar> \<le> 1000000000" using y(2) unfolding abs_of_nonneg [OF y0] .
  from r64.abs_error [OF this] have e: "\<bar>rnd ?y - ?y\<bar> \<le> 1 / 1000" by (rule order_trans) simp
  note T = trunc_near [OF e y0]
  have b: "?y - 1 - 1 / 1000 < of_int (trunc (rnd ?y))" "of_int (trunc (rnd ?y)) \<le> ?y + 1 / 1000" using T by simp_all
  have f1: "198 \<le> trunc (rnd ?y)"
  proof -
    have "of_int 197 < (of_int (trunc (rnd ?y)) :: rat)" using b(1) y(1) by simp
    then show ?thesis by (simp only: of_int_less_iff)
  qed
  have f2: "trunc (rnd ?y) < 2 ^ 31"
  proof -
    have "(of_int (trunc (rnd ?y)) :: rat) < of_int (2 ^ 31)" using b(2) y(2) by simp
    then show ?thesis by (simp only: of_int_less_iff)
  qed
  have "fillOf oor (Fin r) 1 = trunc (rnd ?y)" using v f1 f2 by (simp add: fillOf_def fToInt_def)
  moreover have "\<bar>?y - of_int (trunc (rnd ?y))\<bar> \<le> 1001 / 1000" using b by (intro abs_leI) linarith+
  ultimately show thesis using that f1 f2 by simp
qed

lemma first_close:
  assumes r: "1 \<le> r" "r \<le> 5000000" and tb: "quantum tb = 1" "fillInterval tb = f"
    and f: "\<bar>1000000000 / r - of_int f\<bar> \<le> 1001 / 1000" "198 \<le> f" "f < 2 ^ 63"
  shows "closeTo (Fin r) tb"
proof -
  let ?t = "trueRate tb" and ?f = "of_int f :: rat"
  have fp: "198 \<le> ?f" using f(2) by (metis of_int_le_iff of_int_numeral)
  have "?t - r = r * ((1000000000 / r - ?f) / ?f)" using tb r fp by (simp add: trueRate_def field_simps)
  then have "\<bar>?t - r\<bar> = r * (\<bar>1000000000 / r - ?f\<bar> / ?f)" using r fp by (simp add: abs_mult)
  also have "\<dots> \<le> r * ((1001 / 1000) / 198)" using f(1) fp r by (intro mult_left_mono frac_le) auto
  finally have t: "\<bar>?t - r\<bar> \<le> r * (52 / 10000)" using r by simp
  have tt: "0 < ?t" "?t \<le> 2 * r" using t r by (simp_all add: abs_if split: if_splits)
  show ?thesis
  proof (rule Rate_near [of tb])
    fix c assume c: "Rate tb = Fin c" "\<bar>c - ?t\<bar> \<le> 8 * ?t / 2 ^ 53"
    have cr: "\<bar>c - r\<bar> \<le> r * (53 / 10000)" using c(2) t tt r by (simp add: abs_if split: if_splits)
    then have "\<bar>c - r\<bar> \<le> 2 ^ 30" using r by simp
    moreover have big: "(2 :: rat) ^ 30 \<le> 2 ^ 1000" by (rule power_increasing) simp_all
    ultimately have fin: "\<bar>c - r\<bar> \<le> 2 ^ 1000" by linarith
    have r0: "0 < r" using r by linarith
    show ?thesis
    proof (rule closeTo_iff [OF c(1) fin r0])
      fix d x m
      assume h: "\<bar>d - (c - r)\<bar> \<le> \<bar>c - r\<bar> / 2 ^ 53" "x = \<bar>d\<bar> / r" "\<bar>rnd x - x\<bar> \<le> x / 2 ^ 53" "99 / 10000 \<le> m"
        "rnd x \<le> m \<Longrightarrow> x \<le> 2 ^ 1000 \<Longrightarrow> closeTo (Fin r) tb"
      have "\<bar>d\<bar> \<le> r * (54 / 10000)" using h(1) cr r0 by (simp add: abs_if split: if_splits)
      then have x: "x \<le> 54 / 10000" using h(2) r0 by (simp add: divide_le_eq mult.commute)
      then have "rnd x \<le> m" using h(3,4) by (simp add: abs_if split: if_splits)
      moreover have "x \<le> 2 ^ 1000" using x big by (rule_tac order_trans [of _ "2 ^ 30"]) simp_all
      ultimately show ?thesis by (rule h(5))
    qed
  qed (use tb f in simp_all)
qed

text \<open>
  C33: A bucket made for a rate has that rate up to the margin: whenever the search returns, the bucket is
  well formed and full, and its exact rate, the quantum per fill interval, differs from the wanted
  rate by at most one percent and a rounding error; and for every rate from one to five million
  tokens a second the search does return.
\<close>

theorem NewBucketWithRate_margin:
  assumes cap: "0 < cap" and oor: "\<And>v. oor v < 2 ^ 63" and r: "0 < r" "r \<le> 2 ^ 900"
  shows "(NewBucketWithRate oor (Fin r) cap now = Inr tb \<longrightarrow>
      bucket_ok tb \<and> capacity tb = cap \<and> availableTokens tb = cap \<and> startTime tb = now \<and>
      \<bar>1000000000 * of_int (quantum tb) / of_int (fillInterval tb) - r\<bar> \<le> r * (1 / 100 + 1 / 2 ^ 48)) \<and>
    (1 \<le> r \<and> r \<le> 5000000 \<longrightarrow> (\<exists>tb. NewBucketWithRate oor (Fin r) cap now = Inr tb))"
proof (intro conjI impI)
  let ?tb0 = "NewBucketWithQuantumAndClock 1 cap 1 now"
  assume "NewBucketWithRate oor (Fin r) cap now = Inr tb"
  then have s: "searchQuantum oor (Fin r) ?tb0 1 = Inr tb" by (simp add: NewBucketWithRate_def NewBucketWithRateAndClock_def)
  note F = searchQuantum_found [OF s, simplified]
  show "bucket_ok tb" "capacity tb = cap" "availableTokens tb = cap" "startTime tb = now"
    using F cap by (auto simp: bucket_ok_def NewBucketWithQuantumAndClock_def)
  have f: "fillInterval tb < 2 ^ 63" using F oor by (auto simp: fillOf_def fToInt_def split: f64.splits if_splits)
  have t: "1000000000 * of_int (quantum tb) / of_int (fillInterval tb) = trueRate tb" by (simp add: trueRate_def)
  show "\<bar>1000000000 * of_int (quantum tb) / of_int (fillInterval tb) - r\<bar> \<le> r * (1 / 100 + 1 / 2 ^ 48)"
    unfolding t
  proof (rule Rate_near [of tb])
    fix c assume c: "Rate tb = Fin c" "\<bar>c - trueRate tb\<bar> \<le> 8 * trueRate tb / 2 ^ 53"
    show "\<bar>trueRate tb - r\<bar> \<le> r * (1 / 100 + 1 / 2 ^ 48)"
      using rate_margin [OF c] F f r by simp
  qed (use F f in simp_all)
next
  assume "1 \<le> r \<and> r \<le> 5000000"
  then have r: "1 \<le> r" "r \<le> 5000000" by simp_all
  show "\<exists>tb. NewBucketWithRate oor (Fin r) cap now = Inr tb"
  proof (rule first_fill [OF r, of oor])
    fix f assume f: "fillOf oor (Fin r) 1 = f" "\<bar>1000000000 / r - of_int f\<bar> \<le> 1001 / 1000" "198 \<le> f" "f < 2 ^ 63"
    have "closeTo (Fin r) ((NewBucketWithQuantumAndClock 1 cap 1 now)\<lparr>fillInterval := f, quantum := 1\<rparr>)"
      by (rule first_close [OF r _ _ f(2-4)]) simp_all
    then show ?thesis
      using f by (simp add: NewBucketWithRate_def NewBucketWithRateAndClock_def searchQuantum.simps [of _ _ _ "Suc 0"] Let_def)
  qed
qed

theorem NewBucketWithRate_margin_witness:
  "\<exists>tb. NewBucketWithRate (\<lambda>_. 0) (Fin 500) 500 0 = Inr tb \<and>
     \<bar>1000000000 * of_int (quantum tb) / of_int (fillInterval tb) - 500\<bar> \<le> (500 :: rat) * (1 / 100 + 1 / 2 ^ 48)"
proof -
  have b: "(500 :: rat) \<le> 2 ^ 900" by (rule order_trans [of _ "2 ^ 30"]) (simp, rule power_increasing, simp_all)
  obtain tb where tb: "NewBucketWithRate (\<lambda>_. 0) (Fin 500) 500 0 = Inr tb"
    using NewBucketWithRate_margin [of 500 "\<lambda>_. 0" 500 0] b by auto
  have "\<bar>1000000000 * of_int (quantum tb) / of_int (fillInterval tb) - 500\<bar> \<le> (500 :: rat) * (1 / 100 + 1 / 2 ^ 48)"
    by (rule NewBucketWithRate_margin [of 500 "\<lambda>_. 0" 500 0 tb, THEN conjunct1, rule_format, OF _ _ _ b tb,
          THEN conjunct2, THEN conjunct2, THEN conjunct2, THEN conjunct2]) simp_all
  then show ?thesis using tb by blast
qed

end
