(* ===== verification/FastMap.thy ===== *)
theory FastMap
  imports Prelude
begin

text \<open>
  The interface \<open>FastMap\<close> of \<open>src/util/fastmap/fastmap.go\<close>, the contract the hub relies on for
  its table of clients. The laws say that the implementation behaves as one map from peer ids to
  values whatever its internal layout: what a lookup finds after each operation, that the counts
  are the number of keys, and that an iteration visits each binding once. The lemmas of the
  locale are the facts about a table of clients that follow from the laws alone.
\<close>

locale fast_map =
  fixes empty :: "'m"
    and setm :: "string \<Rightarrow> 'v \<Rightarrow> 'm \<Rightarrow> 'm"
    and getm :: "'m \<Rightarrow> string \<Rightarrow> 'v option"
    and hasm :: "'m \<Rightarrow> string \<Rightarrow> bool"
    and removem :: "string \<Rightarrow> 'm \<Rightarrow> 'm"
    and clearm :: "'m \<Rightarrow> 'm"
    and countm :: "'m \<Rightarrow> nat"
    and perMap :: "'m \<Rightarrow> nat list"
    and items :: "'m \<Rightarrow> (string \<times> 'v) list"
    and invar :: "'m \<Rightarrow> bool"
  assumes get_empty: "getm empty = Map.empty"
    and get_set: "invar m \<Longrightarrow> getm (setm k v m) = (getm m)(k \<mapsto> v)"
    and get_remove: "invar m \<Longrightarrow> getm (removem k m) = (getm m)(k := None)"
    and has_get: "invar m \<Longrightarrow> hasm m k \<longleftrightarrow> getm m k \<noteq> None"
    and get_clear: "invar m \<Longrightarrow> getm (clearm m) = Map.empty"
    and items_get: "invar m \<Longrightarrow> map_of (items m) = getm m"
    and items_distinct: "invar m \<Longrightarrow> distinct (map fst (items m))"
    and count_items: "invar m \<Longrightarrow> countm m = length (items m)"
    and perMap_count: "invar m \<Longrightarrow> sum_list (perMap m) = countm m"
    and invar_empty: "invar empty"
    and invar_set: "invar m \<Longrightarrow> invar (setm k v m)"
    and invar_remove: "invar m \<Longrightarrow> invar (removem k m)"
    and invar_clear: "invar m \<Longrightarrow> invar (clearm m)"
begin

lemma finite_keys: "invar m \<Longrightarrow> finite (dom (getm m))"
  using finite_dom_map_of [of "items m"] by (simp add: items_get)

lemma count_card: "invar m \<Longrightarrow> countm m = card (dom (getm m))"
  using distinct_card [of "map fst (items m)"]
  by (simp add: count_items items_distinct items_get [symmetric] dom_map_of_conv_image_fst)

lemma count_set:
  assumes "invar m"
  shows "countm (setm k v m) = (if hasm m k then countm m else Suc (countm m))"
proof -
  have "countm (setm k v m) = card (insert k (dom (getm m)))"
    using assms by (simp add: count_card invar_set get_set)
  also have "\<dots> = (if k \<in> dom (getm m) then countm m else Suc (countm m))"
    using assms finite_keys [OF assms] by (simp add: card_insert_if count_card)
  finally show ?thesis
    using assms by (simp add: has_get domIff)
qed

lemma count_remove:
  assumes "invar m"
  shows "countm (removem k m) = (if hasm m k then countm m - 1 else countm m)"
proof -
  have "countm (removem k m) = card (dom (getm m) - {k})"
    using assms by (simp add: count_card invar_remove get_remove)
  also have "\<dots> = (if k \<in> dom (getm m) then countm m - 1 else countm m)"
    using assms finite_keys [OF assms] by (simp add: card_Diff_singleton_if count_card)
  finally show ?thesis
    using assms by (simp add: has_get domIff)
qed

lemma count_zero: "invar m \<Longrightarrow> countm m = 0 \<longleftrightarrow> getm m = Map.empty"
  using finite_keys [of m] by (simp add: count_card)

lemma item_get: "invar m \<Longrightarrow> (k, v) \<in> set (items m) \<longleftrightarrow> getm m k = Some v"
  using items_distinct [of m] by (simp add: items_get [symmetric])

lemma remove_absent: "invar m \<Longrightarrow> \<not> hasm m k \<Longrightarrow> getm (removem k m) = getm m"
  by (simp add: get_remove has_get fun_upd_idem)

lemma set_then_remove: "invar m \<Longrightarrow> getm (removem k (setm k v m)) = (getm m)(k := None)"
  by (simp add: get_remove get_set invar_set)

lemma set_commute:
  "invar m \<Longrightarrow> k \<noteq> l \<Longrightarrow> getm (setm k v (setm l w m)) = getm (setm l w (setm k v m))"
  by (simp add: get_set invar_set fun_upd_twist)

lemmas laws = get_empty get_set get_remove has_get get_clear invar_empty invar_set
  invar_remove invar_clear

end

end
