(* ===== verification/CMap.thy ===== *)
theory CMap
  imports FastMap "HOL-Library.Multiset"
begin

text \<open>
  The sharded map of \<open>src/util/fastmap/cmap/cmap.go\<close>: 32 maps, a key lives in the one its FNV
  hash selects. A shard is a Go map; its read-write lock makes each method one step on the
  shard. Values are polymorphic, the code stores client pointers.

  Iteration runs concurrently: \<open>snapshot\<close> copies every shard into a channel of its own and
  \<open>fanIn\<close> merges the channels in an order the scheduler chooses, so \<open>fanIn\<close> and everything
  built on it take the schedule, a list of channel numbers, as an argument. The theorems hold for
  every schedule.

  The theory interprets the \<open>fast_map\<close> contract: sharding is invisible, counts are exact, and
  iteration visits each binding exactly once.
\<close>

unbundle bit_operations_syntax

section \<open>Hashing\<close>

definition SHARD_COUNT :: nat where
  "SHARD_COUNT = 32"

definition fnv32 :: "string \<Rightarrow> 32 word" where
  "fnv32 key = foldl (\<lambda>hash c. (hash * 16777619) XOR of_char c) 2166136261 key"

definition shardIndex :: "string \<Rightarrow> nat" where
  "shardIndex key = unat (fnv32 key) mod SHARD_COUNT"

section \<open>The map and its operations\<close>

type_synonym 'v shard = "(string, 'v) gomap"
type_synonym 'v cmap = "'v shard list"

definition NewCMap :: "'v cmap" where
  "NewCMap = replicate SHARD_COUNT []"

definition GetShard :: "'v cmap \<Rightarrow> string \<Rightarrow> 'v shard" where
  "GetShard m key = m ! shardIndex key"

text \<open>Running a critical section on the shard of a key.\<close>

definition withShard :: "string \<Rightarrow> ('v shard \<Rightarrow> 'v shard) \<Rightarrow> 'v cmap \<Rightarrow> 'v cmap" where
  "withShard key f m = m[shardIndex key := f (GetShard m key)]"

definition cmSet :: "string \<Rightarrow> 'v \<Rightarrow> 'v cmap \<Rightarrow> 'v cmap" where
  "cmSet key value m = withShard key (gm_set key value) m"

fun MSet :: "(string \<times> 'v) list \<Rightarrow> 'v cmap \<Rightarrow> 'v cmap" where
  "MSet [] m = m"
| "MSet ((key, value) # data) m = MSet data (withShard key (gm_set key value) m)"

definition Upsert ::
    "string \<Rightarrow> 'v \<Rightarrow> (bool \<Rightarrow> 'v option \<Rightarrow> 'v \<Rightarrow> 'v) \<Rightarrow> 'v cmap \<Rightarrow> 'v cmap \<times> 'v" where
  "Upsert key value cb m =
     (let v = gm_get (GetShard m key) key;
          r = cb (v \<noteq> None) v value
      in (withShard key (gm_set key r) m, r))"

definition SetIfAbsent :: "string \<Rightarrow> 'v \<Rightarrow> 'v cmap \<Rightarrow> 'v cmap \<times> bool" where
  "SetIfAbsent key value m =
     (let ok = gm_has (GetShard m key) key
      in (if \<not> ok then withShard key (gm_set key value) m else m, \<not> ok))"

definition cmGet :: "'v cmap \<Rightarrow> string \<Rightarrow> 'v option" where
  "cmGet m key = gm_get (GetShard m key) key"

function countFrom :: "'v cmap \<Rightarrow> nat \<Rightarrow> nat \<Rightarrow> nat" where
  "countFrom m i n =
     (if i < SHARD_COUNT then countFrom m (Suc i) (n + length (m ! i)) else n)"
  by pat_completeness auto
termination
  by (relation "measure (\<lambda>(m, i, n). SHARD_COUNT - i)") auto

declare countFrom.simps [simp del]

definition cmCount :: "'v cmap \<Rightarrow> nat" where
  "cmCount m = countFrom m 0 0"

definition CountNoLock :: "'v cmap \<Rightarrow> nat" where
  "CountNoLock m = countFrom m 0 0"

definition CountPerMap :: "'v cmap \<Rightarrow> nat list" where
  "CountPerMap m = map (\<lambda>i. length (m ! i)) [0..<SHARD_COUNT]"

definition CountPerMapNoLock :: "'v cmap \<Rightarrow> nat list" where
  "CountPerMapNoLock m = map (\<lambda>i. length (m ! i)) [0..<SHARD_COUNT]"

definition Has :: "'v cmap \<Rightarrow> string \<Rightarrow> bool" where
  "Has m key = gm_has (GetShard m key) key"

definition cmRemove :: "string \<Rightarrow> 'v cmap \<Rightarrow> 'v cmap" where
  "cmRemove key m = withShard key (gm_del key) m"

definition RemoveCb ::
    "string \<Rightarrow> (string \<Rightarrow> 'v option \<Rightarrow> bool \<Rightarrow> bool) \<Rightarrow> 'v cmap \<Rightarrow> 'v cmap \<times> bool" where
  "RemoveCb key cb m =
     (let v = gm_get (GetShard m key) key;
          ok = (v \<noteq> None);
          remove = cb key v ok
      in (if remove \<and> ok then withShard key (gm_del key) m else m, remove))"

definition Pop :: "string \<Rightarrow> 'v cmap \<Rightarrow> 'v cmap \<times> 'v option" where
  "Pop key m = (withShard key (gm_del key) m, gm_get (GetShard m key) key)"

definition IsEmpty :: "'v cmap \<Rightarrow> bool" where
  "IsEmpty m = (cmCount m = 0)"

section \<open>Iteration\<close>

definition snapshot :: "'v cmap \<Rightarrow> (string \<times> 'v) list list" where
  "snapshot m = map (\<lambda>shard. shard) m"

text \<open>
  Each channel has a goroutine that forwards its elements; the schedule says whose turn it is. A
  turn of a drained channel does nothing, and what is left when the schedule ends is forwarded
  channel by channel.
\<close>

fun fanIn :: "'a list list \<Rightarrow> nat list \<Rightarrow> 'a list" where
  "fanIn chans [] = concat chans"
| "fanIn chans (i # sched) =
     (if i < length chans
      then (case chans ! i of
              [] \<Rightarrow> fanIn chans sched
            | x # xs \<Rightarrow> x # fanIn (chans[i := xs]) sched)
      else fanIn chans sched)"

definition Iter :: "'v cmap \<Rightarrow> nat list \<Rightarrow> (string \<times> 'v) list" where
  "Iter m sched = fanIn (snapshot m) sched"

definition IterBuffered :: "'v cmap \<Rightarrow> nat list \<Rightarrow> (string \<times> 'v) list" where
  "IterBuffered m sched = fanIn (snapshot m) sched"

text \<open>The items \<open>Range\<close> passes to its callback: it stops after the first one that returns false.\<close>

fun rangeUntil :: "(string \<Rightarrow> 'v \<Rightarrow> bool) \<Rightarrow> (string \<times> 'v) list \<Rightarrow> (string \<times> 'v) list" where
  "rangeUntil f [] = []"
| "rangeUntil f ((k, v) # its) = (if \<not> f k v then [(k, v)] else (k, v) # rangeUntil f its)"

definition Range :: "'v cmap \<Rightarrow> (string \<Rightarrow> 'v \<Rightarrow> bool) \<Rightarrow> nat list \<Rightarrow> (string \<times> 'v) list" where
  "Range m f sched = rangeUntil f (IterBuffered m sched)"

definition GetChanByShard :: "'v cmap \<Rightarrow> nat \<Rightarrow> (string \<times> 'v) list res" where
  "GetChanByShard m index = (if index < length m then Inr (m ! index) else Inl IndexOutOfRange)"

definition Clear :: "nat list \<Rightarrow> 'v cmap \<Rightarrow> 'v cmap" where
  "Clear sched m = foldl (\<lambda>m' (k, v). cmRemove k m') m (IterBuffered m sched)"

definition Items :: "'v cmap \<Rightarrow> nat list \<Rightarrow> (string, 'v) gomap" where
  "Items m sched = foldl (\<lambda>tmp (k, v). gm_set k v tmp) [] (IterBuffered m sched)"

definition cmIterCb :: "(string \<Rightarrow> 'v \<Rightarrow> 's \<Rightarrow> 's) \<Rightarrow> 'v cmap \<Rightarrow> 's \<Rightarrow> 's" where
  "cmIterCb fn m s = foldl (\<lambda>s shard. foldl (\<lambda>s (k, v). fn k v s) s shard) s m"

definition Keys :: "'v cmap \<Rightarrow> nat list \<Rightarrow> string list" where
  "Keys m sched = fanIn (map (\<lambda>shard. map fst shard) m) sched"

text \<open>\<open>marshal\<close> is \<open>sonic.Marshal\<close> on the collected map.\<close>

definition MarshalJSON :: "((string, 'v) gomap \<Rightarrow> 'r) \<Rightarrow> 'v cmap \<Rightarrow> nat list \<Rightarrow> 'r" where
  "MarshalJSON marshal m sched =
     marshal (foldl (\<lambda>tmp (k, v). gm_set k v tmp) [] (IterBuffered m sched))"

section \<open>The invariant\<close>

definition cmap_ok :: "'v cmap \<Rightarrow> bool" where
  "cmap_ok m \<longleftrightarrow> length m = SHARD_COUNT \<and>
     (\<forall>i < SHARD_COUNT. gm_ok (m ! i) \<and> (\<forall>k \<in> fst ` set (m ! i). shardIndex k = i))"

lemma shardIndex_less [simp]: "shardIndex k < SHARD_COUNT"
  by (simp add: shardIndex_def SHARD_COUNT_def)

lemma cmap_ok_shard: "cmap_ok m \<Longrightarrow> gm_ok (GetShard m k)"
  by (simp add: cmap_ok_def GetShard_def)

lemma cmap_ok_length: "cmap_ok m \<Longrightarrow> length m = SHARD_COUNT"
  by (simp add: cmap_ok_def)

lemma cmap_ok_index: "cmap_ok m \<Longrightarrow> (k, v) \<in> set (m ! i) \<Longrightarrow> i < SHARD_COUNT \<Longrightarrow> shardIndex k = i"
  by (force simp: cmap_ok_def)

lemma withShard_ok:
  assumes ok: "cmap_ok m" and f: "gm_ok (f (GetShard m k))"
    and sub: "fst ` set (f (GetShard m k)) \<subseteq> insert k (fst ` set (GetShard m k))"
  shows "cmap_ok (withShard k f m)"
  unfolding cmap_ok_def
proof (intro conjI allI impI ballI)
  show "length (withShard k f m) = SHARD_COUNT"
    using cmap_ok_length [OF ok] by (simp add: withShard_def)
next
  fix i assume i: "i < SHARD_COUNT"
  show "gm_ok (withShard k f m ! i)"
    using ok f i by (simp add: cmap_ok_def withShard_def nth_list_update)
  fix j assume j: "j \<in> fst ` set (withShard k f m ! i)"
  show "shardIndex j = i"
  proof (cases "i = shardIndex k")
    case True
    then have "j \<in> insert k (fst ` set (m ! i))"
      using j sub cmap_ok_length [OF ok] by (auto simp: withShard_def GetShard_def)
    then consider "j = k" | b where "(j, b) \<in> set (m ! i)" by auto
    then show ?thesis
      by cases (use True in simp, rule cmap_ok_index [OF ok _ i])
  next
    case False
    then show ?thesis using ok i j by (auto simp: cmap_ok_def withShard_def)
  qed
qed

lemma fst_gm_set: "fst ` set (gm_set k v m) = insert k (fst ` set m)"
  by (simp add: gm_set_def dom_update)

lemma fst_gm_del: "fst ` set (gm_del k m) \<subseteq> fst ` set m"
  unfolding gm_del_def by (rule dom_delete_subset)

lemma cmap_ok_set [simp]: "cmap_ok m \<Longrightarrow> cmap_ok (withShard k (gm_set k v) m)"
  by (rule withShard_ok) (simp_all add: cmap_ok_shard gm_ok_set fst_gm_set)

lemma cmap_ok_del [simp]: "cmap_ok m \<Longrightarrow> cmap_ok (withShard k (gm_del k) m)"
  by (rule withShard_ok) (simp_all add: cmap_ok_shard gm_ok_del subset_insertI2 fst_gm_del)

lemma cmap_ok_New: "cmap_ok NewCMap"
  by (simp add: cmap_ok_def NewCMap_def gm_ok_empty)

lemma cmGet_withShard:
  assumes "cmap_ok m"
  shows "cmGet (withShard k f m) j =
    (if shardIndex j = shardIndex k then gm_get (f (GetShard m k)) j else cmGet m j)"
  using assms cmap_ok_length [OF assms]
  by (simp add: cmGet_def GetShard_def withShard_def)

lemma cmGet_set: "cmap_ok m \<Longrightarrow> cmGet (withShard k (gm_set k v) m) = (cmGet m)(k \<mapsto> v)"
  by (rule ext) (simp add: cmGet_withShard gm_get_set, simp add: cmGet_def GetShard_def)

lemma cmGet_del: "cmap_ok m \<Longrightarrow> cmGet (withShard k (gm_del k) m) = (cmGet m)(k := None)"
  by (rule ext) (simp add: cmGet_withShard gm_get_del, simp add: cmGet_def GetShard_def)

lemma gm_get_GetShard [simp]: "gm_get (GetShard m k) k = cmGet m k"
  by (simp add: cmGet_def)

lemma Has_iff: "Has m k \<longleftrightarrow> cmGet m k \<noteq> None"
  by (simp add: Has_def gm_has_def)

section \<open>Counting\<close>

lemma countFrom_eq: "countFrom m i n = n + sum_list (map (\<lambda>i. length (m ! i)) [i..<SHARD_COUNT])"
proof (induction m i n rule: countFrom.induct)
  case (1 m i n)
  show ?case
  proof (cases "i < SHARD_COUNT")
    case True
    with 1 show ?thesis by (simp add: countFrom.simps [of m i] upt_conv_Cons)
  next
    case False
    then show ?thesis by (simp add: countFrom.simps [of m i])
  qed
qed

lemma sum_shard_lengths:
  "length m = SHARD_COUNT \<Longrightarrow> sum_list (map (\<lambda>i. length (m ! i)) [0..<SHARD_COUNT]) = length (concat m)"
  using map_nth_upt [of length m] by (simp add: length_concat)

lemma CountNoLock_concat: "length m = SHARD_COUNT \<Longrightarrow> CountNoLock m = length (concat m)"
  by (simp add: CountNoLock_def countFrom_eq sum_shard_lengths)

section \<open>All bindings\<close>

lemma distinct_keys: "cmap_ok m \<Longrightarrow> distinct (map fst (concat m))"
  by (rule distinct_concat_by_index [where h = shardIndex and n = 0])
    (auto simp: cmap_ok_def gm_ok_def)

lemma map_of_shards:
  assumes "cmap_ok m"
  shows "map_of (concat m) = cmGet m"
proof (intro ext option_eqI)
  fix k v
    have "map_of (concat m) k = Some v \<longleftrightarrow> (\<exists>i < SHARD_COUNT. (k, v) \<in> set (m ! i))"
      using distinct_keys [OF assms] cmap_ok_length [OF assms]
      by (simp only: map_of_eq_Some_iff in_concat_nth)
    also have "\<dots> \<longleftrightarrow> (k, v) \<in> set (GetShard m k)"
    proof
      assume "\<exists>i < SHARD_COUNT. (k, v) \<in> set (m ! i)"
      then obtain i where i: "i < SHARD_COUNT" "(k, v) \<in> set (m ! i)" by blast
      then have "shardIndex k = i" by (rule_tac cmap_ok_index [OF assms])
      with i show "(k, v) \<in> set (GetShard m k)" by (simp add: GetShard_def)
    next
      assume "(k, v) \<in> set (GetShard m k)"
      then show "\<exists>i < SHARD_COUNT. (k, v) \<in> set (m ! i)"
        unfolding GetShard_def using shardIndex_less by blast
    qed
    also have "\<dots> \<longleftrightarrow> cmGet m k = Some v"
      by (simp add: gm_get_in [OF cmap_ok_shard [OF assms], symmetric])
    finally show "map_of (concat m) k = Some v \<longleftrightarrow> cmGet m k = Some v" .
qed

lemma mset_fanIn: "mset (fanIn chans sched) = mset (concat chans)"
proof (induction chans sched rule: fanIn.induct)
  case (2 chans i sched)
  show ?case
  proof (cases "i < length chans")
    case True
    show ?thesis
    proof (cases "chans ! i")
      case (Cons x xs)
      have "chans = take i chans @ (x # xs) # drop (Suc i) chans"
        using id_take_nth_drop [OF True] Cons by simp
      moreover have "chans[i := xs] = take i chans @ xs # drop (Suc i) chans"
        by (simp add: upd_conv_take_nth_drop True)
      ultimately have "mset (concat chans) = add_mset x (mset (concat (chans[i := xs])))"
        by (metis (no_types, lifting) append_Cons concat.simps(2) concat_append mset.simps(2)
            mset_append union_mset_add_mset_right union_mset_add_mset_left)
      then show ?thesis using 2 True Cons by simp
    qed (use 2 True in simp)
  qed (use 2 in simp)
qed simp

lemma mset_IterBuffered: "mset (IterBuffered m sched) = mset (concat m)"
  by (simp add: IterBuffered_def snapshot_def mset_fanIn)

lemma distinct_IterBuffered: "cmap_ok m \<Longrightarrow> distinct (map fst (IterBuffered m sched))"
  using distinct_keys [of m] mset_IterBuffered [of m sched]
  by (metis distinct_map mset_eq_imp_distinct_iff mset_eq_setD)

lemma map_of_IterBuffered: "cmap_ok m \<Longrightarrow> map_of (IterBuffered m sched) = cmGet m"
  using map_of_shards [of m] map_of_inject_set [of "IterBuffered m sched" "concat m"]
    mset_eq_setD [OF mset_IterBuffered [of m sched]] distinct_IterBuffered [of m sched] distinct_keys [of m]
  by simp

lemma foldl_remove:
  assumes "cmap_ok m"
  shows "cmap_ok (foldl (\<lambda>m' (k, v). cmRemove k m') m its) \<and>
    cmGet (foldl (\<lambda>m' (k, v). cmRemove k m') m its) = (cmGet m) |` (- fst ` set its)"
  using assms
proof (induction its arbitrary: m)
  case Nil
  then show ?case by (simp add: restrict_map_def)
next
  case (Cons it its)
  have "cmap_ok (cmRemove (fst it) m)" using Cons.prems by (simp add: cmRemove_def)
  from Cons.IH [OF this] show ?case
    using Cons.prems by (auto simp: cmRemove_def cmGet_del split_beta restrict_map_def fun_eq_iff)
qed

lemma Clear_empty:
  assumes "cmap_ok m"
  shows "cmGet (Clear sched m) = Map.empty" and "cmap_ok (Clear sched m)"
  using foldl_remove [OF assms, of "IterBuffered m sched"] map_of_IterBuffered [OF assms, of sched]
  by (auto simp: Clear_def restrict_map_def fun_eq_iff dom_map_of_conv_image_fst [symmetric] domIff)

lemma foldl_gm_set:
  "distinct (map fst its) \<Longrightarrow> fst ` set its \<inter> fst ` set tmp = {} \<Longrightarrow>
   gm_get (foldl (\<lambda>tmp (k, v). gm_set k v tmp) tmp its) = gm_get tmp ++ map_of its"
proof (induction its arbitrary: tmp)
  case (Cons it its)
  obtain k v where it: "it = (k, v)" by (cases it)
  have "gm_get (foldl (\<lambda>tmp (k, v). gm_set k v tmp) (gm_set k v tmp) its)
      = gm_get (gm_set k v tmp) ++ map_of its"
    by (rule Cons.IH) (use Cons.prems it in \<open>auto simp: fst_gm_set\<close>)
  moreover have "k \<notin> dom (map_of its)"
    using Cons.prems(1) it by (auto simp: dom_map_of_conv_image_fst)
  ultimately show ?case
    by (auto simp: it gm_get_set fun_eq_iff map_add_def domIff split: option.splits)
qed (simp add: gm_get_def)

section \<open>The contract\<close>

interpretation cm: fast_map NewCMap cmSet cmGet Has cmRemove "Clear sched" CountNoLock
  CountPerMapNoLock "\<lambda>m. IterBuffered m sched" cmap_ok for sched
proof (unfold_locales, goal_cases)
  case 1
  show ?case by (rule ext) (simp add: cmGet_def GetShard_def NewCMap_def gm_get_empty)
next
  case (8 m)
  then show ?case
    using mset_IterBuffered [of m sched] by (metis CountNoLock_concat cmap_ok_length size_mset)
next
  case (9 m)
  then show ?case
    by (simp add: CountPerMapNoLock_def sum_shard_lengths CountNoLock_concat cmap_ok_length)
qed (simp_all add: cmSet_def cmRemove_def cmGet_set cmGet_del Has_iff Clear_empty map_of_IterBuffered
    distinct_IterBuffered cmap_ok_New)

section \<open>Properties\<close>

text \<open>The updates a caller can make, each through one exported method.\<close>

datatype 'v cmap_op =
    OSet string 'v
  | OMSet "(string \<times> 'v) list"
  | OUpsert string 'v "bool \<Rightarrow> 'v option \<Rightarrow> 'v \<Rightarrow> 'v"
  | OSetIfAbsent string 'v
  | ORemove string
  | ORemoveCb string "string \<Rightarrow> 'v option \<Rightarrow> bool \<Rightarrow> bool"
  | OPop string
  | OClear "nat list"

fun apply_op :: "'v cmap_op \<Rightarrow> 'v cmap \<Rightarrow> 'v cmap" where
  "apply_op (OSet k v) m = cmSet k v m"
| "apply_op (OMSet d) m = MSet d m"
| "apply_op (OUpsert k v cb) m = fst (Upsert k v cb m)"
| "apply_op (OSetIfAbsent k v) m = fst (SetIfAbsent k v m)"
| "apply_op (ORemove k) m = cmRemove k m"
| "apply_op (ORemoveCb k cb) m = fst (RemoveCb k cb m)"
| "apply_op (OPop k) m = fst (Pop k m)"
| "apply_op (OClear sched) m = Clear sched m"

text \<open>The same updates on one unsharded map: the specification.\<close>

fun spec_op :: "'v cmap_op \<Rightarrow> (string \<rightharpoonup> 'v) \<Rightarrow> (string \<rightharpoonup> 'v)" where
  "spec_op (OSet k v) f = f(k \<mapsto> v)"
| "spec_op (OMSet d) f = f ++ map_of (rev d)"
| "spec_op (OUpsert k v cb) f = f(k \<mapsto> cb (f k \<noteq> None) (f k) v)"
| "spec_op (OSetIfAbsent k v) f = (if f k = None then f(k \<mapsto> v) else f)"
| "spec_op (ORemove k) f = f(k := None)"
| "spec_op (ORemoveCb k cb) f = (if cb k (f k) (f k \<noteq> None) then f(k := None) else f)"
| "spec_op (OPop k) f = f(k := None)"
| "spec_op (OClear sched) f = Map.empty"

lemma MSet_correct: "cmap_ok m \<Longrightarrow> cmap_ok (MSet d m) \<and> cmGet (MSet d m) = cmGet m ++ map_of (rev d)"
  by (induction d m rule: MSet.induct) (auto simp: cmGet_set)

lemma apply_op_correct:
  "cmap_ok m \<Longrightarrow> cmap_ok (apply_op ope m) \<and> cmGet (apply_op ope m) = spec_op ope (cmGet m)"
  by (cases ope)
    (auto simp: cmSet_def cmRemove_def Upsert_def SetIfAbsent_def RemoveCb_def Pop_def Let_def cmGet_set
      cmGet_del gm_has_def Clear_empty MSet_correct)

text \<open>
  C17: The sharded map refines one map: for every sequence of updates of a new map, through any of
  the exported methods and any scheduling of the iterations inside \<open>Clear\<close>, the sharding invariant
  holds and a lookup finds what the same updates leave in one unsharded map.
\<close>

theorem cmap_refines_map:
  "cmap_ok (fold apply_op ops NewCMap) \<and> cmGet (fold apply_op ops NewCMap) = fold spec_op ops Map.empty"
proof -
  have "cmap_ok (fold apply_op ops m) \<and> cmGet (fold apply_op ops m) = fold spec_op ops (cmGet m)"
    if "cmap_ok m" for m :: "'a cmap"
    using that by (induction ops arbitrary: m) (simp_all add: apply_op_correct)
  from this [OF cm.invar_empty] show ?thesis by (simp add: cm.get_empty)
qed

text \<open>
  What the methods report agrees with that map: \<open>Has\<close> and \<open>Get\<close> agree, \<open>SetIfAbsent\<close> reports
  true exactly when it stored, \<open>Pop\<close> and \<open>Upsert\<close> return the old and the new value, \<open>RemoveCb\<close>
  returns the callback's verdict, and \<open>Count\<close>, \<open>CountNoLock\<close> and the per-shard counts all give
  the number of keys.
\<close>

theorem cmap_results:
  assumes "cmap_ok m"
  shows "Has m k = (cmGet m k \<noteq> None) \<and> snd (SetIfAbsent k v m) = (cmGet m k = None) \<and>
    snd (Pop k m) = cmGet m k \<and> Some (snd (Upsert k v cb m)) = cmGet (fst (Upsert k v cb m)) k \<and>
    snd (RemoveCb k rcb m) = rcb k (cmGet m k) (cmGet m k \<noteq> None) \<and>
    cmCount m = card (dom (cmGet m)) \<and> CountNoLock m = card (dom (cmGet m)) \<and>
    sum_list (CountPerMap m) = card (dom (cmGet m)) \<and> CountPerMapNoLock m = CountPerMap m \<and>
    IsEmpty m = (cmGet m = Map.empty)"
  using cm.count_card [OF assms] cm.perMap_count [OF assms] cm.count_zero [OF assms] assms
  by (simp add: Has_iff SetIfAbsent_def Pop_def Upsert_def RemoveCb_def Let_def gm_has_def cmGet_set
      cmCount_def CountNoLock_def CountPerMap_def CountPerMapNoLock_def IsEmpty_def)

theorem cmap_results_witness:
  "Has (cmSet ''p1'' (7::nat) NewCMap) ''p1'' = (cmGet (cmSet ''p1'' (7::nat) NewCMap) ''p1'' \<noteq> None)"
  using cmap_results [OF cm.invar_set [OF cm.invar_empty], of "''p1''" 7 "''p1''" 8] by blast

text \<open>
  Iteration is exact under every scheduling of the goroutines that feed it: \<open>IterBuffered\<close>
  yields each binding of the map exactly once, \<open>Items\<close> collects exactly the map, \<open>Keys\<close> yields
  each key once, and \<open>Clear\<close> leaves an empty map.
\<close>

theorem cmap_iteration_exact:
  assumes "cmap_ok m"
  shows "distinct (IterBuffered m sched) \<and>
    set (IterBuffered m sched) = {(k, v). cmGet m k = Some v} \<and>
    gm_get (Items m sched) = cmGet m \<and>
    distinct (Keys m sched) \<and> set (Keys m sched) = dom (cmGet m) \<and>
    CountNoLock (Clear sched m) = 0"
proof -
  have keys: "mset (Keys m sched) = mset (map fst (concat m))"
    by (simp add: Keys_def mset_fanIn map_concat)
  have "distinct (Keys m sched)"
    using distinct_keys [OF assms] mset_eq_imp_distinct_iff [OF keys] by blast
  moreover have "set (Keys m sched) = dom (cmGet m)"
    using mset_eq_setD [OF keys] by (simp add: map_of_shards [OF assms, symmetric] dom_map_of_conv_image_fst)
  moreover have "gm_get (Items m sched) = cmGet m"
    using foldl_gm_set [of "IterBuffered m sched" "[]"] distinct_IterBuffered [OF assms]
      map_of_IterBuffered [OF assms] by (simp add: Items_def gm_get_def)
  moreover have "distinct (IterBuffered m sched)"
    using distinct_IterBuffered [OF assms] by (simp add: distinct_map)
  moreover have "set (IterBuffered m sched) = {(k, v). cmGet m k = Some v}"
    using cm.item_get [OF assms, where sched = sched] by auto
  moreover have "CountNoLock (Clear sched m) = 0"
    using cm.count_zero [OF cm.invar_clear [OF assms]] cm.get_clear [OF assms] by simp
  ultimately show ?thesis by blast
qed

theorem cmap_iteration_exact_witness:
  "set (Keys (cmSet ''b'' (2::nat) (cmSet ''a'' 1 NewCMap)) [5, 1, 1])
     = dom (cmGet (cmSet ''b'' (2::nat) (cmSet ''a'' 1 NewCMap)))"
  using cmap_iteration_exact [OF cm.invar_set [OF cm.invar_set [OF cm.invar_empty]],
      of "''b''" 2 "''a''" 1 "[5, 1, 1]"] by blast

end
