(* ===== verification/SMap.thy ===== *)
theory SMap
  imports FastMap
begin

text \<open>
  The second implementation of the interface \<open>FastMap\<close>, \<open>src/util/fastmap/smap/smap.go\<close>: a thin wrapper
  of the library \<open>skipmap\<close>, which the hub can use in place of the sharded map. The library is an
  argument, a record of its operations; what its documentation promises when no other goroutine
  changes the map is \<open>skip_laws\<close>.

  The theorem says that the wrapper satisfies the contract \<open>fast_map\<close>, so everything that was proved
  about a table of clients from the contract holds for it as well.
\<close>

record ('m, 'v) skipmap =
  skNewString :: 'm
  skLen :: "'m \<Rightarrow> nat"
  skStore :: "string \<Rightarrow> 'v \<Rightarrow> 'm \<Rightarrow> 'm"
  skLoad :: "string \<Rightarrow> 'm \<Rightarrow> 'v option"
  skDelete :: "string \<Rightarrow> 'm \<Rightarrow> 'm"
  skPairs :: "'m \<Rightarrow> (string \<times> 'v) list"

text \<open>\<open>skPairs\<close> lists the pairs \<open>Range\<close> visits, in its order, when the callback always returns true.\<close>

definition NewSMap :: "('m, 'v) skipmap \<Rightarrow> 'm" where
  "NewSMap lib = skNewString lib"

definition smCountNoLock :: "('m, 'v) skipmap \<Rightarrow> 'm \<Rightarrow> nat" where
  "smCountNoLock lib m = skLen lib m"

definition smCountPerMapNoLock :: "('m, 'v) skipmap \<Rightarrow> 'm \<Rightarrow> nat list" where
  "smCountPerMapNoLock lib m = [skLen lib m]"

definition smSet :: "('m, 'v) skipmap \<Rightarrow> string \<Rightarrow> 'v \<Rightarrow> 'm \<Rightarrow> 'm" where
  "smSet lib key v m = skStore lib key v m"

definition smGet :: "('m, 'v) skipmap \<Rightarrow> 'm \<Rightarrow> string \<Rightarrow> 'v option" where
  "smGet lib m key = (case skLoad lib key m of None \<Rightarrow> None | Some v \<Rightarrow> Some v)"

definition smHas :: "('m, 'v) skipmap \<Rightarrow> 'm \<Rightarrow> string \<Rightarrow> bool" where
  "smHas lib m key \<longleftrightarrow> skLoad lib key m \<noteq> None"

definition smRemove :: "('m, 'v) skipmap \<Rightarrow> string \<Rightarrow> 'm \<Rightarrow> 'm" where
  "smRemove lib key m = skDelete lib key m"

definition smClear :: "('m, 'v) skipmap \<Rightarrow> 'm \<Rightarrow> 'm" where
  "smClear lib m = foldl (\<lambda>m (key, v). skDelete lib key m) m (skPairs lib m)"

text \<open>The pairs on which the callback \<open>f\<close> is called: up to and with the first one it refuses.\<close>

fun visited :: "(string \<Rightarrow> 'v \<Rightarrow> bool) \<Rightarrow> (string \<times> 'v) list \<Rightarrow> (string \<times> 'v) list" where
  "visited f [] = []"
| "visited f ((k, v) # kvs) = (k, v) # (if f k v then visited f kvs else [])"

definition smRange :: "('m, 'v) skipmap \<Rightarrow> (string \<Rightarrow> 'v \<Rightarrow> bool) \<Rightarrow> 'm \<Rightarrow> (string \<times> 'v) list" where
  "smRange lib f m = visited f (skPairs lib m)"

section \<open>The contract\<close>

definition skip_laws :: "('m, 'v) skipmap \<Rightarrow> ('m \<Rightarrow> bool) \<Rightarrow> bool" where
  "skip_laws lib good \<longleftrightarrow>
     good (skNewString lib) \<and> (\<forall>k. skLoad lib k (skNewString lib) = None) \<and>
     (\<forall>m k v. good m \<longrightarrow> good (skStore lib k v m) \<and>
        (\<forall>j. skLoad lib j (skStore lib k v m) = (if j = k then Some v else skLoad lib j m))) \<and>
     (\<forall>m k. good m \<longrightarrow> good (skDelete lib k m) \<and>
        (\<forall>j. skLoad lib j (skDelete lib k m) = (if j = k then None else skLoad lib j m))) \<and>
     (\<forall>m. good m \<longrightarrow> distinct (map fst (skPairs lib m)) \<and> length (skPairs lib m) = skLen lib m \<and>
        (\<forall>k v. (k, v) \<in> set (skPairs lib m) \<longleftrightarrow> skLoad lib k m = Some v))"

lemma skip_delete_all:
  assumes "skip_laws lib good" "good m"
  shows "good (foldl (\<lambda>m (key, v). skDelete lib key m) m kvs) \<and>
    (\<forall>j. skLoad lib j (foldl (\<lambda>m (key, v). skDelete lib key m) m kvs) = (if j \<in> fst ` set kvs then None else skLoad lib j m))"
  using assms(2)
proof (induction kvs arbitrary: m)
  case (Cons kv kvs)
  obtain k v where kv: "kv = (k, v)" by fastforce
  have d: "good (skDelete lib k m)" "\<And>j. skLoad lib j (skDelete lib k m) = (if j = k then None else skLoad lib j m)"
    using assms(1) Cons.prems by (auto simp: skip_laws_def)
  show ?case using Cons.IH [OF d(1)] d(2) kv by auto
qed simp

text \<open>
  C32: The wrapper of the skip list satisfies the contract of the table of clients: with a library that
  keeps its promises, lookups, counts, iteration and clearing behave as those of one map. With a
  callback that never refuses, the iteration visits every binding exactly once.
\<close>

theorem smap_satisfies_contract:
  assumes "skip_laws lib good"
  shows "fast_map (NewSMap lib) (smSet lib) (smGet lib) (smHas lib) (smRemove lib) (smClear lib)
    (smCountNoLock lib) (smCountPerMapNoLock lib) (smRange lib (\<lambda>_ _. True)) good"
proof -
  have get: "smGet lib m = (\<lambda>k. skLoad lib k m)" for m by (rule ext) (simp add: smGet_def split: option.splits)
  have rng: "smRange lib (\<lambda>_ _. True) m = skPairs lib m" for m
  proof -
    have "visited (\<lambda>_ _. True) kvs = kvs" for kvs :: "(string \<times> 'b) list" by (induction kvs) auto
    then show ?thesis by (simp add: smRange_def)
  qed
  have mo: "map_of (skPairs lib m) k = skLoad lib k m" if "good m" for m k
  proof (rule option_eqI)
    fix v
    have "distinct (map fst (skPairs lib m))" "(k, v) \<in> set (skPairs lib m) \<longleftrightarrow> skLoad lib k m = Some v"
      using assms that unfolding skip_laws_def by blast+
    then show "map_of (skPairs lib m) k = Some v \<longleftrightarrow> skLoad lib k m = Some v" by simp
  qed
  have cl: "good (smClear lib m)" "skLoad lib j (smClear lib m) = None" if "good m" for m j
  proof -
    note D = skip_delete_all [OF assms that, of "skPairs lib m"]
    show "good (smClear lib m)" using D by (simp add: smClear_def)
    show "skLoad lib j (smClear lib m) = None"
      using D mo [OF that, of j] map_of_eq_None_iff [of "skPairs lib m" j] by (simp add: smClear_def split: if_splits)
  qed
  have store: "good (skStore lib k v m)" "skLoad lib j (skStore lib k v m) = (if j = k then Some v else skLoad lib j m)"
    and del: "good (skDelete lib k m)" "skLoad lib j (skDelete lib k m) = (if j = k then None else skLoad lib j m)"
    and pairs: "distinct (map fst (skPairs lib m))" "length (skPairs lib m) = skLen lib m" if "good m" for m k v j
    using assms that unfolding skip_laws_def by blast+
  have new: "good (skNewString lib)" "skLoad lib k (skNewString lib) = None" for k
    using assms unfolding skip_laws_def by blast+
  show ?thesis
    by unfold_locales
      (simp_all add: get rng new store del pairs mo cl NewSMap_def smSet_def smRemove_def smHas_def
        smCountNoLock_def smCountPerMapNoLock_def fun_eq_iff)
qed

definition listMap :: "((string \<times> nat) list, nat) skipmap" where
  "listMap = \<lparr>skNewString = [], skLen = length, skStore = gm_set, skLoad = \<lambda>k m. gm_get m k, skDelete = gm_del, skPairs = \<lambda>m. m\<rparr>"

theorem smap_satisfies_contract_witness:
  "fast_map (NewSMap listMap) (smSet listMap) (smGet listMap) (smHas listMap) (smRemove listMap) (smClear listMap)
    (smCountNoLock listMap) (smCountPerMapNoLock listMap) (smRange listMap (\<lambda>_ _. True)) gm_ok"
proof (rule smap_satisfies_contract)
  show "skip_laws listMap gm_ok"
    by (simp add: skip_laws_def listMap_def gomap_simps gm_get_in) (simp add: gm_ok_def)
qed

end
