(* ===== verification/LruBucket.thy ===== *)
theory LruBucket
  imports Prelude
begin

text \<open>
  One bucket of the cache of \<open>src/util/ecache/ecache.go\<close>: the type \<open>cache\<close> with its methods
  \<open>put\<close>, \<open>get\<close>, \<open>del\<close>, \<open>walk\<close> and \<open>ajust\<close>. The entries are stored in a preallocated array
  \<open>m\<close>, a hash map takes a key to its index in the array plus one, and the order of use is a
  doubly linked list inside the array \<open>dlnk\<close> of index pairs, whose element 0 stands for the pair
  (tail, head). Indices are \<open>uint16\<close> values, kept as natural numbers below 65536; an index out of
  range panics.

  \<open>cache_ok c xs\<close> says that the links of \<open>c\<close> form one ring through the indices \<open>xs\<close>, most recently
  used first, and that the hash map agrees with the array. The refinement theorems say that the
  methods act on the entries in that order as an LRU list does.
\<close>

section \<open>The bucket\<close>

type_synonym dlink = "(nat \<times> nat) list"

record 'a node =
  nk :: string
  vi :: "'a option"
  vb :: "8 word list"
  expireAt :: int

record 'a cache =
  dlnk :: dlink
  mem :: "'a node list"
  hmap :: "(string, nat) gomap"
  lastIdx :: nat

datatype action = PUT | GET | DEL

text \<open>What an inspector is told: the arguments of the callback \<open>on\<close>.\<close>

datatype 'a event = Event action string "'a option" "8 word list" int

text \<open>The two directions of a link: the constants \<open>p\<close> and \<open>n\<close> of the source.\<close>

abbreviation (input) iP :: nat where "iP \<equiv> 0"
abbreviation (input) iN :: nat where "iN \<equiv> Suc 0"

definition zeroNode :: "'a node" where
  "zeroNode = \<lparr>nk = [], vi = None, vb = [], expireAt = 0\<rparr>"

definition create :: "nat \<Rightarrow> 'a cache" where
  "create cap = \<lparr>dlnk = replicate (Suc cap) (0, 0), mem = replicate cap zeroNode, hmap = [], lastIdx = 0\<rparr>"

definition lnk :: "dlink \<Rightarrow> nat \<Rightarrow> nat \<Rightarrow> nat" where
  "lnk d f i = (if f = iP then fst (d ! i) else snd (d ! i))"

definition setLnk :: "nat \<Rightarrow> nat \<Rightarrow> nat \<Rightarrow> dlink \<Rightarrow> dlink" where
  "setLnk i f v d = d[i := (if f = iP then (v, snd (d ! i)) else (fst (d ! i), v))]"

text \<open>
  The tuple assignment of \<open>ajust\<close> evaluates every index and every right-hand side first and then
  assigns from left to right.
\<close>

definition ajust :: "nat \<Rightarrow> nat \<Rightarrow> nat \<Rightarrow> dlink \<Rightarrow> dlink res" where
  "ajust idx f t d =
     (if length d \<le> idx then Inl IndexOutOfRange
      else if lnk d f idx \<noteq> 0
      then (let a = lnk d t idx; b = lnk d f idx; h = lnk d t 0
            in if a < length d \<and> b < length d \<and> h < length d
               then Inr (setLnk 0 t idx (setLnk h f idx (setLnk idx t h (setLnk idx f 0
                      (setLnk b t a (setLnk a f b d))))))
               else Inl IndexOutOfRange)
      else Inr d)"

definition memOut :: "'a cache \<Rightarrow> nat \<Rightarrow> bool" where
  \<comment> \<open>\<open>c.m[x-1]\<close> is out of range; \<open>x - 1\<close> wraps around for \<open>x = 0\<close>\<close>
  "memOut c x \<longleftrightarrow> x = 0 \<or> length (mem c) < x"

definition cput ::
    "string \<Rightarrow> 'a option \<Rightarrow> 8 word list \<Rightarrow> int \<Rightarrow> 'a cache \<Rightarrow> ('a cache \<times> int \<times> 'a event list) res" where
  "cput k i b e c =
     (case gm_get (hmap c) k of
        Some x \<Rightarrow>
          if memOut c x then Inl IndexOutOfRange
          else (let c1 = c\<lparr>mem := (mem c)[x - 1 := (mem c ! (x - 1))\<lparr>vi := i, vb := b, expireAt := e\<rparr>]\<rparr>
                in case ajust x iP iN (dlnk c1) of
                     Inl er \<Rightarrow> Inl er
                   | Inr d \<Rightarrow> Inr (c1\<lparr>dlnk := d\<rparr>, 0, []))
      | None \<Rightarrow>
          if lastIdx c = length (mem c) mod 65536
          then (let x = lnk (dlnk c) iP 0
                in if memOut c x then Inl IndexOutOfRange
                   else (let tail = mem c ! (x - 1);
                             evs = (if expireAt tail > 0
                                    then [Event PUT (nk tail) (vi tail) (vb tail) (-1)] else []);
                             c1 = c\<lparr>hmap := gm_set k x (gm_del (nk tail) (hmap c)),
                                    mem := (mem c)[x - 1 := \<lparr>nk = k, vi = i, vb = b, expireAt = e\<rparr>]\<rparr>
                         in case ajust (lnk (dlnk c1) iP 0) iP iN (dlnk c1) of
                              Inl er \<Rightarrow> Inl er
                            | Inr d \<Rightarrow> Inr (c1\<lparr>dlnk := d\<rparr>, 1, evs)))
          else (let l = (lastIdx c + 1) mod 65536;
                    d1 = (if length (hmap c) = 0 then setLnk 0 iP l (dlnk c)
                          else setLnk (lnk (dlnk c) iN 0) iP l (dlnk c))
                in if memOut c l then Inl IndexOutOfRange
                   else Inr (c\<lparr>lastIdx := l,
                               mem := (mem c)[l - 1 := \<lparr>nk = k, vi = i, vb = b, expireAt = e\<rparr>],
                               dlnk := setLnk 0 iN l (d1[l := (0, lnk d1 iN 0)]),
                               hmap := gm_set k l (hmap c)\<rparr>, 1, [])))"

text \<open>
  \<open>get\<close> and \<open>del\<close> return the entry they found, \<open>None\<close> for \<open>(nil, 0)\<close>; \<open>del\<close> also returns the
  expiry time the entry had.
\<close>

definition cget :: "string \<Rightarrow> 'a cache \<Rightarrow> ('a cache \<times> 'a node option) res" where
  "cget k c =
     (case gm_get (hmap c) k of
        Some x \<Rightarrow>
          (case ajust x iP iN (dlnk c) of
             Inl er \<Rightarrow> Inl er
           | Inr d \<Rightarrow>
               if memOut c x then Inl IndexOutOfRange
               else Inr (c\<lparr>dlnk := d\<rparr>, Some (mem c ! (x - 1))))
      | None \<Rightarrow> Inr (c, None))"

definition cdel :: "string \<Rightarrow> 'a cache \<Rightarrow> ('a cache \<times> 'a node option \<times> int) res" where
  "cdel k c =
     (case gm_get (hmap c) k of
        Some x \<Rightarrow>
          if memOut c x then Inl IndexOutOfRange
          else if expireAt (mem c ! (x - 1)) > 0
          then (let e = expireAt (mem c ! (x - 1));
                    nd = (mem c ! (x - 1))\<lparr>expireAt := 0\<rparr>;
                    c1 = c\<lparr>mem := (mem c)[x - 1 := nd]\<rparr>
                in case ajust x iN iP (dlnk c1) of
                     Inl er \<Rightarrow> Inl er
                   | Inr d \<Rightarrow> Inr (c1\<lparr>dlnk := d\<rparr>, Some nd, e))
          else Inr (c, None, 0)
      | None \<Rightarrow> Inr (c, None, 0))"

text \<open>
  \<open>walk\<close> follows the links from the head. The entries it passes to the walker are the result;
  \<open>None\<close> stands for a traversal that has not reached the end when the fuel is used up.
\<close>

fun walkFrom :: "nat \<Rightarrow> ('a node \<Rightarrow> bool) \<Rightarrow> 'a cache \<Rightarrow> nat \<Rightarrow> 'a node list option" where
  "walkFrom fuel walker c idx =
     (case fuel of
        0 \<Rightarrow> None
      | Suc fuel' \<Rightarrow>
          if idx = 0 then Some []
          else (let nd = mem c ! (idx - 1) in
                if expireAt nd > 0
                then if \<not> walker nd then Some [nd]
                     else map_option ((#) nd) (walkFrom fuel' walker c (lnk (dlnk c) iN idx))
                else walkFrom fuel' walker c (lnk (dlnk c) iN idx)))"

declare walkFrom.simps [simp del]

definition cwalk :: "('a node \<Rightarrow> bool) \<Rightarrow> 'a cache \<Rightarrow> 'a node list option" where
  "cwalk walker c = walkFrom (Suc (length (dlnk c))) walker c (lnk (dlnk c) iN 0)"

section \<open>Rings of links\<close>

text \<open>
  \<open>linked P N xs\<close>: along \<open>xs\<close>, \<open>N\<close> leads to the next element and \<open>P\<close> back. A ring through the
  sentinel 0 is a linked list that starts and ends with 0.
\<close>

fun linked :: "(nat \<Rightarrow> nat) \<Rightarrow> (nat \<Rightarrow> nat) \<Rightarrow> nat list \<Rightarrow> bool" where
  "linked P N (x # y # zs) \<longleftrightarrow> N x = y \<and> P y = x \<and> linked P N (y # zs)"
| "linked P N _ \<longleftrightarrow> True"

lemma linked_append:
  "linked P N (xs @ ys) \<longleftrightarrow> linked P N xs \<and> linked P N ys \<and>
     (xs \<noteq> [] \<and> ys \<noteq> [] \<longrightarrow> N (last xs) = hd ys \<and> P (hd ys) = last xs)"
proof (induction xs)
  case (Cons x xs)
  then show ?case
    by (cases xs; cases ys) auto
qed simp

lemma linked_frame:
  assumes "\<And>z. z \<in> set (butlast xs) \<Longrightarrow> N' z = N z" "\<And>z. z \<in> set (tl xs) \<Longrightarrow> P' z = P z"
  shows "linked P' N' xs \<longleftrightarrow> linked P N xs"
  using assms
proof (induction P N xs rule: linked.induct)
  case (1 P N x y zs)
  have "linked P' N' (y # zs) \<longleftrightarrow> linked P N (y # zs)"
  proof (rule "1.IH")
    show "N' z = N z" if "z \<in> set (butlast (y # zs))" for z
      using that "1.prems"(1) [of z] by simp
    show "P' z = P z" if "z \<in> set (tl (y # zs))" for z
      using that "1.prems"(2) [of z] by simp
  qed
  moreover have "N' x = N x" "P' y = P y"
    using "1.prems"(1) [of x] "1.prems"(2) [of y] by simp_all
  ultimately show ?case by simp
qed simp_all

lemma linked_rev: "linked P N xs \<Longrightarrow> linked N P (rev xs)"
  by (induction P N xs rule: linked.induct) (simp_all add: linked_append)

lemma linked_Cons:
  "linked P N (x # xs) \<longleftrightarrow> linked P N xs \<and> (xs \<noteq> [] \<longrightarrow> N x = hd xs \<and> P (hd xs) = x)"
  by (cases xs) auto

text \<open>Unlinking an element that is not first and putting it behind the sentinel.\<close>

lemma linked_move:
  assumes ring: "linked P N (0 # as @ x # bs @ [0])"
    and d: "distinct (as @ x # bs)" "0 \<notin> set (as @ x # bs)" and as: "as \<noteq> []"
    and P': "P' = P(N x := P x, x := 0, N 0 := x)" and N': "N' = N(P x := N x, x := N 0, 0 := x)"
  shows "linked P' N' (0 # x # as @ bs @ [0])"
proof -
  let ?cs = "bs @ [0]"
  have j: "N 0 = hd as" "P x = last as" "N x = hd ?cs"
      and l: "linked P N as" "linked P N ?cs"
    using ring as by (simp_all add: linked_append linked_Cons)
  have ends: "hd as \<in> set as" "last as \<in> set as" "hd ?cs \<in> set ?cs"
    using as by (simp_all del: set_append)
  have dc: "distinct ?cs" "set as \<inter> set ?cs = {}" "x \<notin> set as" "x \<notin> set ?cs" "distinct as" "0 \<notin> set as" "x \<noteq> 0"
    using d by auto
  note ne = distinct_last_butlast [OF dc(5) as] distinct_hd_tl [OF dc(5) as] distinct_hd_tl [OF dc(1)]
  have "linked P' N' as"
  proof (subst linked_frame [where P = P and N = N])
    show "N' z = N z" if "z \<in> set (butlast as)" for z
      using that in_set_butlastD [OF that] ne dc by (auto simp: N' j)
    show "P' z = P z" if "z \<in> set (tl as)" for z
      using that list.set_sel(2) [OF as that] ne dc ends by (auto simp: P' j)
  qed (rule l(1))
  moreover have "linked P' N' ?cs"
  proof (subst linked_frame [where P = P and N = N])
    show "N' z = N z" if "z \<in> set (butlast ?cs)" for z
      using that d ends dc by (auto simp: N' j)
    show "P' z = P z" if "z \<in> set (tl ?cs)" for z
    proof -
      have "z \<in> set ?cs" using that by (rule list.set_sel(2) [rotated]) simp
      then show ?thesis using that ne(3) ends dc by (auto simp: P' j)
    qed
  qed (rule l(2))
  moreover have "N' 0 = x" "P' x = 0" "N' x = hd as" "P' (hd as) = x"
    using ends dc by (auto simp: N' P' j)
  moreover have "N' (last as) = hd ?cs" "P' (hd ?cs) = last as"
    using ends dc by (auto simp: N' P' j)
  ultimately show ?thesis
    using as by (simp add: linked_append linked_Cons)
qed

section \<open>Moving an entry\<close>

lemma length_setLnk [simp]: "length (setLnk i f v d) = length d"
  by (simp add: setLnk_def)

lemma setLnk_Nil [simp]: "setLnk i f v d = [] \<longleftrightarrow> d = []"
  by (simp add: setLnk_def)

lemma lnk_setLnk_same:
  "i < length d \<Longrightarrow> lnk (setLnk i f v d) f = (lnk d f)(i := v)"
  by (auto simp: lnk_def setLnk_def fun_eq_iff nth_list_update)

lemma lnk_setLnk_other:
  "(f = iP) \<noteq> (g = iP) \<Longrightarrow> lnk (setLnk i f v d) g = lnk d g"
  by (cases "i < length d")
    (auto simp: lnk_def setLnk_def fun_eq_iff nth_list_update list_update_beyond)

lemma ajust_ring:
  assumes ft: "(f = iP) \<noteq> (t = iP)"
    and ring: "linked (lnk d f) (lnk d t) (0 # as @ x # bs @ [0])"
    and ds: "distinct (as @ x # bs)" "0 \<notin> set (as @ x # bs)" "set (0 # as @ x # bs) \<subseteq> {..<length d}"
  obtains d' where "ajust x f t d = Inr d'" "length d' = length d"
    "linked (lnk d' f) (lnk d' t) (0 # x # as @ bs @ [0])"
proof (cases "as = []")
  case True
  then have "lnk d f x = 0" using ring by simp
  then have "ajust x f t d = Inr d" using ds by (simp add: ajust_def)
  with True ring that show thesis by simp
next
  case False
  let ?P = "lnk d f" and ?N = "lnk d t"
  have j: "?N 0 = hd as" "?P x = last as" "?N x = hd (bs @ [0])"
    using ring False by (simp_all add: linked_append linked_Cons)
  have "?P x \<in> set as" "?N 0 \<in> set as" "?N x \<in> insert 0 (set bs)"
    using False by (simp_all add: j hd_append)
  then have r: "?P x < length d" "?N 0 < length d" "?N x < length d" "?P x \<noteq> 0" "x < length d" "0 < length d"
    using ds by auto
  define d' where "d' = setLnk 0 t x (setLnk (?N 0) f x (setLnk x t (?N 0) (setLnk x f 0
      (setLnk (?P x) t (?N x) (setLnk (?N x) f (?P x) d)))))"
  have ft': "(t = iP) \<noteq> (f = iP)" using ft by blast
  have "ajust x f t d = Inr d'"
    using r by (simp add: ajust_def d'_def Let_def)
  moreover have "length d' = length d" by (simp add: d'_def)
  moreover have "linked (lnk d' f) (lnk d' t) (0 # x # as @ bs @ [0])"
  proof (rule linked_move [OF ring ds(1,2) False])
    note upd = lnk_setLnk_same lnk_setLnk_other [OF ft] lnk_setLnk_other [OF ft'] length_setLnk r
    show "lnk d' f = ?P(?N x := ?P x, x := 0, ?N 0 := x)"
      unfolding d'_def by (simp only: upd)
    show "lnk d' t = ?N(?P x := ?N x, x := ?N 0, 0 := x)"
      unfolding d'_def by (simp only: upd)
  qed
  ultimately show thesis by (rule that)
qed

section \<open>The invariant and the order of use\<close>

declare One_nat_def [simp del]

definition cache_ok :: "'a cache \<Rightarrow> nat list \<Rightarrow> bool" where
  "cache_ok c xs \<longleftrightarrow>
     length (dlnk c) = Suc (length (mem c)) \<and> length (mem c) < 65536 \<and>
     linked (lnk (dlnk c) iP) (lnk (dlnk c) iN) (0 # xs @ [0]) \<and>
     distinct xs \<and> set xs = {1..lastIdx c} \<and> lastIdx c \<le> length (mem c) \<and> gm_ok (hmap c) \<and>
     (\<forall>k x. gm_get (hmap c) k = Some x \<longleftrightarrow> x \<in> set xs \<and> nk (mem c ! (x - 1)) = k)"

text \<open>The entries in the order of use, most recent first.\<close>

definition entries :: "'a cache \<Rightarrow> nat list \<Rightarrow> 'a node list" where
  "entries c xs = map (\<lambda>x. mem c ! (x - 1)) xs"

lemma cache_ok_facts:
  assumes "cache_ok c xs"
  shows "length (dlnk c) = Suc (length (mem c))" "length (mem c) < 65536"
    "linked (lnk (dlnk c) iP) (lnk (dlnk c) iN) (0 # xs @ [0])"
    "distinct xs" "set xs = {1..lastIdx c}" "lastIdx c \<le> length (mem c)" "gm_ok (hmap c)"
    "gm_get (hmap c) k = Some x \<longleftrightarrow> x \<in> set xs \<and> nk (mem c ! (x - 1)) = k"
    "0 \<notin> set xs" "length xs = lastIdx c"
    "set (0 # xs) \<subseteq> {..<length (dlnk c)}"
proof -
  show "length xs = lastIdx c"
    using assms distinct_card [of xs] by (simp add: cache_ok_def)
qed (use assms in \<open>auto simp: cache_ok_def\<close>)

lemma in_range: "cache_ok c xs \<Longrightarrow> x \<in> set xs \<Longrightarrow> \<not> memOut c x \<and> x - 1 < length (mem c) \<and> 0 < x"
  using cache_ok_facts(5,6) [of c xs] by (auto simp: memOut_def)

lemma mem_inj:
  "cache_ok c xs \<Longrightarrow> x \<in> set xs \<Longrightarrow> y \<in> set xs \<Longrightarrow> nk (mem c ! (x - 1)) = nk (mem c ! (y - 1)) \<Longrightarrow> x = y"
  using cache_ok_facts(8) [of c xs "nk (mem c ! (x - 1))"] by (metis option.inject)

lemma cache_ok_create: "cap < 65536 \<Longrightarrow> cache_ok (create cap) []"
  by (simp add: cache_ok_def create_def lnk_def gm_ok_empty gm_get_empty)

lemma distinct_keys_entries: "cache_ok c xs \<Longrightarrow> distinct (map nk (entries c xs))"
  using cache_ok_facts(4) [of c xs]
  by (auto simp: entries_def distinct_map intro!: inj_onI dest: mem_inj)

text \<open>The order after an entry was moved to the head or to the tail.\<close>

lemma ajust_head:
  assumes "cache_ok c xs" "xs = as @ x # bs"
  obtains d where "ajust x iP iN (dlnk c) = Inr d" "cache_ok (c\<lparr>dlnk := d\<rparr>) (x # as @ bs)"
proof -
  note F = cache_ok_facts [OF assms(1)]
  obtain d where d: "ajust x iP iN (dlnk c) = Inr d" "length d = length (dlnk c)"
      "linked (lnk d iP) (lnk d iN) (0 # x # as @ bs @ [0])"
    using F(3,4,9,11) assms(2) by (rule_tac ajust_ring [of iP iN "dlnk c" as x bs]) auto
  have "cache_ok (c\<lparr>dlnk := d\<rparr>) (x # as @ bs)"
    using d F assms(2) by (auto simp: cache_ok_def)
  with d that show thesis by blast
qed

lemma ajust_tail:
  assumes "cache_ok c xs" "xs = as @ x # bs"
  obtains d where "ajust x iN iP (dlnk c) = Inr d" "cache_ok (c\<lparr>dlnk := d\<rparr>) (as @ bs @ [x])"
proof -
  note F = cache_ok_facts [OF assms(1)]
  have "linked (lnk (dlnk c) iN) (lnk (dlnk c) iP) (0 # rev bs @ x # rev as @ [0])"
    using linked_rev [OF F(3)] assms(2) by simp
  then obtain d where d: "ajust x iN iP (dlnk c) = Inr d" "length d = length (dlnk c)"
      "linked (lnk d iN) (lnk d iP) (0 # x # rev bs @ rev as @ [0])"
    using F(4,9,11) assms(2) by (rule_tac ajust_ring [of iN iP "dlnk c" "rev bs" x "rev as"]) auto
  have "linked (lnk d iP) (lnk d iN) (0 # as @ bs @ [x] @ [0])"
    using linked_rev [OF d(3)] by simp
  then have "cache_ok (c\<lparr>dlnk := d\<rparr>) (as @ bs @ [x])"
    using d F assms(2) by (auto simp: cache_ok_def)
  with d that show thesis by blast
qed

section \<open>The specification: an LRU list\<close>

text \<open>The behaviour of the methods on a list of entries, most recently used first.\<close>

definition lru_put ::
    "nat \<Rightarrow> 'a node \<Rightarrow> 'a node list \<Rightarrow> 'a node list \<times> int \<times> 'a event list" where
  "lru_put cap nd ns =
     (if nk nd \<in> nk ` set ns then (nd # filter (\<lambda>m. nk m \<noteq> nk nd) ns, 0, [])
      else if length ns = cap
      then (nd # butlast ns, 1,
            if expireAt (last ns) > 0
            then [Event PUT (nk (last ns)) (vi (last ns)) (vb (last ns)) (-1)] else [])
      else (nd # ns, 1, []))"

definition lru_get :: "string \<Rightarrow> 'a node list \<Rightarrow> 'a node list \<times> 'a node option" where
  "lru_get k ns =
     (case find (\<lambda>m. nk m = k) ns of
        None \<Rightarrow> (ns, None)
      | Some m \<Rightarrow> (m # filter (\<lambda>m. nk m \<noteq> k) ns, Some m))"

definition lru_del :: "string \<Rightarrow> 'a node list \<Rightarrow> 'a node list \<times> 'a node option \<times> int" where
  "lru_del k ns =
     (case find (\<lambda>m. nk m = k) ns of
        None \<Rightarrow> (ns, None, 0)
      | Some m \<Rightarrow>
          if expireAt m > 0
          then (filter (\<lambda>m. nk m \<noteq> k) ns @ [m\<lparr>expireAt := 0\<rparr>], Some (m\<lparr>expireAt := 0\<rparr>), expireAt m)
          else (ns, None, 0))"

section \<open>Refinement\<close>

lemma entries_Cons: "entries c (x # xs) = mem c ! (x - 1) # entries c xs"
  by (simp add: entries_def)

lemma entries_append: "entries c (xs @ ys) = entries c xs @ entries c ys"
  by (simp add: entries_def)

lemma length_entries: "length (entries c xs) = length xs"
  by (simp add: entries_def)

lemma entries_dlnk [simp]: "entries (c\<lparr>dlnk := d\<rparr>) xs = entries c xs"
  by (simp add: entries_def)

lemma entries_mem_upd:
  assumes "x \<notin> set ys" "0 \<notin> set ys" "0 < x" "mem c' = (mem c)[x - 1 := v]"
  shows "entries c' ys = entries c ys"
proof -
  have "y - 1 \<noteq> x - 1" if "y \<in> set ys" for y
  proof -
    have "y \<noteq> x" "y \<noteq> 0" using assms(1,2) that by metis+
    then show ?thesis using assms(3) by linarith
  qed
  then have "(mem c)[x - 1 := v] ! (y - 1) = mem c ! (y - 1)" if "y \<in> set ys" for y
    using that by (intro nth_list_update_neq) metis
  then show ?thesis by (simp add: entries_def assms(4))
qed

lemmas entries_simps = entries_Cons entries_append length_entries

lemma keys_entries: "cache_ok c xs \<Longrightarrow> k \<in> nk ` set (entries c xs) \<longleftrightarrow> gm_get (hmap c) k \<noteq> None"
proof -
  assume ok: "cache_ok c xs"
  have "k \<in> nk ` set (entries c xs) \<longleftrightarrow> (\<exists>x. x \<in> set xs \<and> nk (mem c ! (x - 1)) = k)"
    by (auto simp: entries_def)
  also have "\<dots> \<longleftrightarrow> gm_get (hmap c) k \<noteq> None"
    using cache_ok_facts(8) [OF ok, of k] by auto
  finally show ?thesis .
qed

lemma found_split:
  assumes ok: "cache_ok c xs" and h: "gm_get (hmap c) k = Some x"
  obtains as bs where "xs = as @ x # bs" "nk (mem c ! (x - 1)) = k"
    "filter (\<lambda>m. nk m \<noteq> k) (entries c xs) = entries c (as @ bs)"
    "find (\<lambda>m. nk m = k) (entries c xs) = Some (mem c ! (x - 1))"
proof -
  have x: "x \<in> set xs" "nk (mem c ! (x - 1)) = k" using cache_ok_facts(8) [OF ok] h by auto
  then obtain as bs where xs: "xs = as @ x # bs" by (meson split_list)
  have other: "nk m \<noteq> k" if "m \<in> set (entries c (as @ bs))" for m
  proof
    assume "nk m = k"
    with that obtain y where y: "y \<in> set (as @ bs)" "nk (mem c ! (y - 1)) = k"
      by (auto simp: entries_def)
    then have "y = x" using mem_inj [OF ok _ x(1)] x(2) xs by auto
    with y cache_ok_facts(4) [OF ok] xs show False by auto
  qed
  have "filter (\<lambda>m. nk m \<noteq> k) (entries c xs) = entries c (as @ bs)"
    using other x by (auto simp: xs entries_simps filter_id_conv)
  moreover have "find (\<lambda>m. nk m = k) (entries c xs) = Some (mem c ! (x - 1))"
  proof -
    have "find (\<lambda>m. nk m = k) (entries c as) = None"
      using other by (auto simp: find_None_iff entries_simps)
    then show ?thesis using x by (simp add: xs entries_simps find_append_None)
  qed
  ultimately show thesis using that xs x by blast
qed

lemma absent_find: "cache_ok c xs \<Longrightarrow> gm_get (hmap c) k = None \<Longrightarrow> find (\<lambda>m. nk m = k) (entries c xs) = None"
  using keys_entries [of c xs k] by (auto simp: find_None_iff)

text \<open>Overwriting an entry without its key keeps the invariant.\<close>

lemma cache_ok_overwrite:
  assumes ok: "cache_ok c xs" and x: "x \<in> set xs" and v: "nk v = nk (mem c ! (x - 1))"
  shows "cache_ok (c\<lparr>mem := (mem c)[x - 1 := v]\<rparr>) xs"
proof -
  have "nk ((mem c)[x - 1 := v] ! j) = nk (mem c ! j)" for j
    using v in_range [OF ok x] by (simp add: nth_list_update)
  then show ?thesis using ok by (simp add: cache_ok_def)
qed

text \<open>Reusing the entry of another key for a new key.\<close>

lemma cache_ok_replace:
  assumes ok: "cache_ok c xs" and x: "x \<in> set xs" and k: "gm_get (hmap c) k = None" and v: "nk v = k"
  shows "cache_ok (c\<lparr>hmap := gm_set k x (gm_del (nk (mem c ! (x - 1))) (hmap c)),
    mem := (mem c)[x - 1 := v]\<rparr>) xs"
proof -
  note F = cache_ok_facts [OF ok]
  let ?old = "nk (mem c ! (x - 1))"
  have key: "nk ((mem c)[x - 1 := v] ! (y - 1)) = (if y = x then k else nk (mem c ! (y - 1)))"
    if "y \<in> set xs" for y
  proof -
    have "y - 1 = x - 1 \<longleftrightarrow> y = x" using in_range [OF ok that] in_range [OF ok x] by auto
    then show ?thesis using v in_range [OF ok x] by (metis nth_list_update nth_list_update_neq)
  qed
  have "gm_get (gm_set k x (gm_del ?old (hmap c))) j = Some y \<longleftrightarrow>
      y \<in> set xs \<and> nk ((mem c)[x - 1 := v] ! (y - 1)) = j" for j y
  proof (cases "y \<in> set xs")
    case True
    have "nk (mem c ! (y - 1)) \<noteq> k" using F(8) [of k y] k True by auto
    moreover have "nk (mem c ! (y - 1)) = ?old \<longleftrightarrow> y = x"
      using mem_inj [OF ok True x] by auto
    ultimately show ?thesis
      using True x F(8) [of j y] by (auto simp: key [OF True] gm_get_set gm_get_del)
  next
    case False
    then show ?thesis using x F(8) [of j y] by (auto simp: gm_get_set gm_get_del)
  qed
  then show ?thesis
    using F by (simp add: cache_ok_def gm_ok_set gm_ok_del)
qed

text \<open>Linking a new entry in at the head.\<close>

lemma lnk_list_update:
  "l < length d \<Longrightarrow> lnk (d[l := (a, b)]) f = (lnk d f)(l := (if f = iP then a else b))"
  by (auto simp: lnk_def fun_eq_iff nth_list_update)

lemma cache_ok_insert:
  assumes ok: "cache_ok c xs" and k: "gm_get (hmap c) k = None" and v: "nk v = k"
    and room: "lastIdx c < length (mem c)" and l: "l = Suc (lastIdx c)"
    and h: "h = lnk (dlnk c) iN 0"
  shows "cache_ok (c\<lparr>lastIdx := l, mem := (mem c)[l - 1 := v],
    dlnk := setLnk 0 iN l ((setLnk h iP l (dlnk c))[l := (0, h)]), hmap := gm_set k l (hmap c)\<rparr>) (l # xs)"
proof -
  note F = cache_ok_facts [OF ok]
  let ?P = "lnk (dlnk c) iP" and ?N = "lnk (dlnk c) iN" and ?cs = "xs @ [0]"
  define d where "d = setLnk 0 iN l ((setLnk h iP l (dlnk c))[l := (0, h)])"
  have hd: "h = hd ?cs" "linked ?P ?N ?cs" using F(3) h by (simp_all add: linked_Cons)
  have hin: "h \<in> set ?cs" unfolding hd(1) by (rule hd_in_set) simp
  have ls: "l \<notin> set ?cs" "l \<noteq> 0" "l < length (dlnk c)" "h < length (dlnk c)"
    using F(1,5,6) l room hin by auto
  have P': "lnk d iP = ?P(h := l, l := 0)" and N': "lnk d iN = ?N(l := h, 0 := l)"
    using ls F(1) by (auto simp: d_def lnk_setLnk_same lnk_setLnk_other lnk_list_update)
  have "linked (lnk d iP) (lnk d iN) ?cs"
  proof (subst linked_frame [where P = ?P and N = ?N])
    show "lnk d iN z = ?N z" if "z \<in> set (butlast ?cs)" for z
      using that F(9) ls by (auto simp: N')
    show "lnk d iP z = ?P z" if "z \<in> set (tl ?cs)" for z
    proof -
      have "distinct ?cs" using F(4,9) by simp
      then have "z \<noteq> h" using distinct_hd_tl [of ?cs] that hd(1) by auto
      moreover have "z \<in> set ?cs" using that by (rule list.set_sel(2) [rotated]) simp
      ultimately show ?thesis using ls by (auto simp: P')
    qed
  qed (rule hd(2))
  then have ring: "linked (lnk d iP) (lnk d iN) (0 # (l # xs) @ [0])"
    using ls hd(1) hin by (auto simp: linked_Cons P' N')
  have key: "nk ((mem c)[l - 1 := v] ! (y - 1)) = nk (mem c ! (y - 1))" if "y \<in> set xs" for y
    using that F(5) l by (auto simp: nth_list_update)
  have "gm_get (gm_set k l (hmap c)) j = Some y \<longleftrightarrow>
      y \<in> set (l # xs) \<and> nk ((mem c)[l - 1 := v] ! (y - 1)) = j" for j y
  proof (cases "y = l")
    case True
    then show ?thesis using F(5) [THEN eqset_imp_iff, of l] F(8) [of j l] l v room
      by (auto simp: gm_get_set)
  next
    case False
    then show ?thesis using F(8) [of j y] k key [of y] by (auto simp: gm_get_set)
  qed
  then show ?thesis
    using F ring l room ls unfolding d_def [symmetric]
    by (auto simp: cache_ok_def gm_ok_set d_def)
qed

text \<open>The bucket represents the list of entries \<open>ns\<close>.\<close>

definition represents :: "'a cache \<Rightarrow> 'a node list \<Rightarrow> bool" where
  "represents c ns \<longleftrightarrow> (\<exists>xs. cache_ok c xs \<and> ns = entries c xs)"

lemma representsI: "cache_ok c xs \<Longrightarrow> ns = entries c xs \<Longrightarrow> represents c ns"
  by (auto simp: represents_def)

lemma represents_length: "represents c ns \<Longrightarrow> length ns = lastIdx c \<and> length ns \<le> length (mem c)"
  by (auto simp: represents_def length_entries cache_ok_facts)

lemma represents_distinct: "represents c ns \<Longrightarrow> distinct (map nk ns)"
  by (auto simp: represents_def distinct_keys_entries)

lemma cput_hit:
  assumes ok: "cache_ok c xs" and h: "gm_get (hmap c) (nk nd) = Some x"
  shows "\<exists>c'. cput (nk nd) (vi nd) (vb nd) (expireAt nd) c = Inr (c', 0, []) \<and>
    represents c' (nd # filter (\<lambda>m. nk m \<noteq> nk nd) (entries c xs)) \<and> length (mem c') = length (mem c)"
proof -
  obtain as bs where s: "xs = as @ x # bs" "nk (mem c ! (x - 1)) = nk nd"
      "filter (\<lambda>m. nk m \<noteq> nk nd) (entries c xs) = entries c (as @ bs)"
    using found_split [OF ok h] by metis
  have x: "x \<in> set xs" using s by simp
  let ?v = "(mem c ! (x - 1))\<lparr>vi := vi nd, vb := vb nd, expireAt := expireAt nd\<rparr>"
  have v: "?v = nd" using s(2) by (cases nd; cases "mem c ! (x - 1)") simp
  let ?c1 = "c\<lparr>mem := (mem c)[x - 1 := nd]\<rparr>"
  have ok1: "cache_ok ?c1 xs" using cache_ok_overwrite [OF ok x] s(2) by simp
  obtain d where d: "ajust x iP iN (dlnk ?c1) = Inr d" "cache_ok (?c1\<lparr>dlnk := d\<rparr>) (x # as @ bs)"
    using ajust_head [OF ok1 s(1)] by blast
  have "entries ?c1 (as @ bs) = entries c (as @ bs)"
    by (rule entries_mem_upd [of x _ _ _ nd])
      (use cache_ok_facts(4,9) [OF ok] in_range [OF ok x] s(1) in auto)
  then have "entries (?c1\<lparr>dlnk := d\<rparr>) (x # as @ bs) = nd # filter (\<lambda>m. nk m \<noteq> nk nd) (entries c xs)"
    using in_range [OF ok x] s(3) by (simp add: entries_Cons)
  then have "represents (?c1\<lparr>dlnk := d\<rparr>) (nd # filter (\<lambda>m. nk m \<noteq> nk nd) (entries c xs))"
    using d(2) by (metis representsI)
  then show ?thesis
    using h d(1) in_range [OF ok x] by (simp add: cput_def Let_def v)
qed

lemma cput_full:
  assumes ok: "cache_ok c xs" and a: "gm_get (hmap c) (nk nd) = None"
    and full: "length xs = length (mem c)" "xs \<noteq> []"
  shows "\<exists>c'. cput (nk nd) (vi nd) (vb nd) (expireAt nd) c =
      Inr (c', 1, if expireAt (last (entries c xs)) > 0
        then [Event PUT (nk (last (entries c xs))) (vi (last (entries c xs))) (vb (last (entries c xs))) (-1)]
        else []) \<and>
    represents c' (nd # butlast (entries c xs)) \<and> length (mem c') = length (mem c)"
proof -
  note F = cache_ok_facts [OF ok]
  obtain as x where s: "xs = as @ [x]" using full(2) by (cases xs rule: rev_cases) auto
  then have x: "x \<in> set xs" and tl: "lnk (dlnk c) iP 0 = x" "last (entries c xs) = mem c ! (x - 1)"
    using F(3) by (auto simp: linked_Cons linked_append entries_def)
  let ?c1 = "c\<lparr>hmap := gm_set (nk nd) x (gm_del (nk (mem c ! (x - 1))) (hmap c)), mem := (mem c)[x - 1 := nd]\<rparr>"
  have ok1: "cache_ok ?c1 xs" using cache_ok_replace [OF ok x a] by simp
  obtain d where d: "ajust x iP iN (dlnk ?c1) = Inr d" "cache_ok (?c1\<lparr>dlnk := d\<rparr>) (x # as @ [])"
    using ajust_head [OF ok1, of as x "[]"] s by auto
  have nd: "\<lparr>nk = nk nd, vi = vi nd, vb = vb nd, expireAt = expireAt nd\<rparr> = nd" by (cases nd) simp
  have "entries ?c1 as = entries c as"
    by (rule entries_mem_upd [of x _ _ _ nd]) (use F(4,9) in_range [OF ok x] s in auto)
  then have "entries (?c1\<lparr>dlnk := d\<rparr>) (x # as @ []) = nd # butlast (entries c xs)"
    using in_range [OF ok x] by (simp add: entries_simps s) (simp add: entries_def)
  then have "represents (?c1\<lparr>dlnk := d\<rparr>) (nd # butlast (entries c xs))"
    using d(2) by (metis representsI)
  then show ?thesis
    using a d(1) in_range [OF ok x] full F(2,10)
    by (simp add: cput_def Let_def tl nd mod_less)
qed

lemma cput_room:
  assumes ok: "cache_ok c xs" and a: "gm_get (hmap c) (nk nd) = None"
    and room: "length xs < length (mem c)"
  shows "\<exists>c'. cput (nk nd) (vi nd) (vb nd) (expireAt nd) c = Inr (c', 1, []) \<and>
    represents c' (nd # entries c xs) \<and> length (mem c') = length (mem c)"
proof -
  note F = cache_ok_facts [OF ok]
  define h where "h = lnk (dlnk c) iN 0"
  define l where "l = Suc (lastIdx c)"
  have nd: "\<lparr>nk = nk nd, vi = vi nd, vb = vb nd, expireAt = expireAt nd\<rparr> = nd" by (cases nd) simp
  have empty: "h = 0" if "hmap c = []"
  proof -
    have "xs = []" using F(8) that by (cases xs) (auto simp: gm_get_empty)
    then show ?thesis using F(3) by (simp add: h_def)
  qed
  have l: "(lastIdx c + 1) mod 65536 = l" "l \<noteq> 0" "l \<le> length (mem c)" "lastIdx c \<noteq> length (mem c)"
    using F(2,10) room by (auto simp: l_def)
  let ?d1 = "setLnk h iP l (dlnk c)"
  have lk: "lnk ?d1 iN 0 = h" by (simp add: lnk_setLnk_other h_def)
  let ?c1 = "c\<lparr>lastIdx := l, mem := (mem c)[l - 1 := nd], dlnk := setLnk 0 iN l (?d1[l := (0, h)]),
    hmap := gm_set (nk nd) l (hmap c)\<rparr>"
  have ok1: "cache_ok ?c1 (l # xs)"
    by (rule cache_ok_insert [OF ok a]) (use room F(10) in \<open>auto simp: l_def h_def\<close>)
  have "l \<notin> set xs" using F(5) l_def by simp
  then have "entries ?c1 xs = entries c xs"
    by (intro entries_mem_upd [of l _ _ _ nd]) (use F(9) l in auto)
  moreover have "l - 1 < length (mem c)" using l by simp
  ultimately have "entries ?c1 (l # xs) = nd # entries c xs"
    by (simp add: entries_Cons)
  then have "represents ?c1 (nd # entries c xs)"
    using ok1 by (metis representsI)
  then show ?thesis
    using a l F(2) empty lk
    by (cases "hmap c = []") (simp_all add: cput_def nd memOut_def h_def [symmetric] mod_less Let_def)
qed

lemma cput_spec:
  assumes "represents c ns" and "mem c \<noteq> []"
  shows "\<exists>c' ns' st evs. cput (nk nd) (vi nd) (vb nd) (expireAt nd) c = Inr (c', st, evs) \<and>
    represents c' ns' \<and> (ns', st, evs) = lru_put (length (mem c)) nd ns \<and>
    length (mem c') = length (mem c)"
proof -
  obtain xs where ok: "cache_ok c xs" and ns: "ns = entries c xs"
    using assms(1) by (auto simp: represents_def)
  show ?thesis
  proof (cases "gm_get (hmap c) (nk nd)")
    case (Some x)
    with cput_hit [OF ok Some] keys_entries [OF ok, of "nk nd"] show ?thesis
      by (auto simp: lru_put_def ns)
  next
    case None
    have new: "nk nd \<notin> nk ` set ns" using keys_entries [OF ok, of "nk nd"] None ns by simp
    show ?thesis
    proof (cases "length xs = length (mem c)")
      case True
      with assms(2) have "xs \<noteq> []" by auto
      from cput_full [OF ok None True this] show ?thesis
        using new True by (auto simp: lru_put_def ns length_entries)
    next
      case False
      with cache_ok_facts(6,10) [OF ok] have "length xs < length (mem c)" by simp
      from cput_room [OF ok None this] show ?thesis
        using new False by (auto simp: lru_put_def ns length_entries)
    qed
  qed
qed

text \<open>
  C5: \<open>put\<close> refines the LRU list: on a bucket of positive capacity it never panics, an existing key
  is updated and moved to the front, a new key goes to the front, and when the bucket is full the
  least recently used entry alone is dropped and reported to the inspector (unless it was marked
  as deleted). The invariant of the links and the hash map is kept.
\<close>

theorem cput_refines:
  assumes "represents c ns" and "mem c \<noteq> []"
  shows "\<exists>c' ns' st evs. cput (nk nd) (vi nd) (vb nd) (expireAt nd) c = Inr (c', st, evs) \<and>
    represents c' ns' \<and> (ns', st, evs) = lru_put (length (mem c)) nd ns \<and>
    length (mem c') = length (mem c)"
  by (rule cput_spec [OF assms])

lemma create_represents: "cap < 65536 \<Longrightarrow> represents (create cap) []"
  by (rule representsI [OF cache_ok_create]) (simp_all add: entries_def)

lemma create_mem: "length (mem (create cap)) = cap"
  by (simp add: create_def)

definition demoNode :: "string \<Rightarrow> nat node" where
  "demoNode k = \<lparr>nk = k, vi = Some 1, vb = [], expireAt = 5\<rparr>"

theorem cput_refines_witness:
  "\<exists>c' ns' st evs. cput (nk (demoNode ''a'')) (vi (demoNode ''a'')) (vb (demoNode ''a''))
      (expireAt (demoNode ''a'')) (create 2) = Inr (c', st, evs) \<and>
    represents c' ns' \<and> (ns', st, evs) = lru_put (length (mem (create 2 :: nat cache))) (demoNode ''a'') [] \<and>
    length (mem c') = length (mem (create 2 :: nat cache))"
  by (rule cput_refines [OF create_represents]) (simp_all add: create_def)

lemma cget_spec:
  assumes "represents c ns"
  shows "\<exists>c'. cget k c = Inr (c', snd (lru_get k ns)) \<and> represents c' (fst (lru_get k ns)) \<and>
    length (mem c') = length (mem c)"
proof -
  obtain xs where ok: "cache_ok c xs" and ns: "ns = entries c xs"
    using assms by (auto simp: represents_def)
  show ?thesis
  proof (cases "gm_get (hmap c) k")
    case None
    with absent_find [OF ok] assms show ?thesis by (simp add: cget_def lru_get_def ns)
  next
    case (Some x)
    obtain as bs where s: "xs = as @ x # bs" "nk (mem c ! (x - 1)) = k"
        "filter (\<lambda>m. nk m \<noteq> k) (entries c xs) = entries c (as @ bs)"
        "find (\<lambda>m. nk m = k) (entries c xs) = Some (mem c ! (x - 1))"
      using found_split [OF ok Some] by metis
    obtain d where d: "ajust x iP iN (dlnk c) = Inr d" "cache_ok (c\<lparr>dlnk := d\<rparr>) (x # as @ bs)"
      using ajust_head [OF ok s(1)] by blast
    then have "represents (c\<lparr>dlnk := d\<rparr>) (mem c ! (x - 1) # filter (\<lambda>m. nk m \<noteq> k) (entries c xs))"
      by (intro representsI [OF d(2)]) (simp add: entries_Cons s(3))
    then show ?thesis
      using Some d(1) in_range [OF ok, of x] s by (simp add: cget_def lru_get_def ns)
  qed
qed

lemma cdel_spec:
  assumes "represents c ns"
  shows "\<exists>c'. cdel k c = Inr (c', snd (lru_del k ns)) \<and> represents c' (fst (lru_del k ns)) \<and>
    length (mem c') = length (mem c)"
proof -
  obtain xs where ok: "cache_ok c xs" and ns: "ns = entries c xs"
    using assms by (auto simp: represents_def)
  show ?thesis
  proof (cases "gm_get (hmap c) k")
    case None
    with absent_find [OF ok] assms show ?thesis by (simp add: cdel_def lru_del_def ns)
  next
    case (Some x)
    obtain as bs where s: "xs = as @ x # bs" "nk (mem c ! (x - 1)) = k"
        "filter (\<lambda>m. nk m \<noteq> k) (entries c xs) = entries c (as @ bs)"
        "find (\<lambda>m. nk m = k) (entries c xs) = Some (mem c ! (x - 1))"
      using found_split [OF ok Some] by metis
    have x: "x \<in> set xs" using s by simp
    show ?thesis
    proof (cases "expireAt (mem c ! (x - 1)) > 0")
      case False
      then show ?thesis
        using Some s assms in_range [OF ok x] by (simp add: cdel_def lru_del_def ns)
    next
      case True
      define v where "v = (mem c ! (x - 1))\<lparr>expireAt := 0\<rparr>"
      let ?c1 = "c\<lparr>mem := (mem c)[x - 1 := v]\<rparr>"
      have ok1: "cache_ok ?c1 xs" by (rule cache_ok_overwrite [OF ok x]) (simp add: v_def)
      obtain d where d: "ajust x iN iP (dlnk ?c1) = Inr d" "cache_ok (?c1\<lparr>dlnk := d\<rparr>) (as @ bs @ [x])"
        using ajust_tail [OF ok1 s(1)] by blast
      have "entries ?c1 (as @ bs) = entries c (as @ bs)"
        by (rule entries_mem_upd [of x _ _ _ v])
          (use cache_ok_facts(4,9) [OF ok] in_range [OF ok x] s(1) in auto)
      then have "represents (?c1\<lparr>dlnk := d\<rparr>) (filter (\<lambda>m. nk m \<noteq> k) (entries c xs) @ [v])"
        using in_range [OF ok x]
        by (intro representsI [OF d(2)]) (simp add: s(3) entries_append entries_Cons, simp add: entries_def)
      then show ?thesis
        using Some True d(1) in_range [OF ok x] s by (simp add: cdel_def lru_del_def ns Let_def v_def)
    qed
  qed
qed

text \<open>
  C34: \<open>get\<close> and \<open>del\<close> refine the LRU list: they never panic on a well-formed bucket, \<open>get\<close> returns
  the entry of the key and moves it to the front, \<open>del\<close> marks a live entry as deleted, returns it
  with its old expiry time and moves it to the back, where it is the next to be reused.
\<close>

theorem cget_cdel_refine:
  assumes "represents c ns"
  shows "(\<exists>c' r. cget k c = Inr (c', r) \<and> represents c' (fst (lru_get k ns)) \<and> r = snd (lru_get k ns)) \<and>
    (\<exists>c' r e. cdel k c = Inr (c', r, e) \<and> represents c' (fst (lru_del k ns)) \<and> (r, e) = snd (lru_del k ns))"
  using cget_spec [OF assms, of k] cdel_spec [OF assms, of k] by (metis prod.collapse)

theorem cget_cdel_refine_witness:
  "(\<exists>c' r. cget ''a'' (create 2 :: nat cache) = Inr (c', r) \<and> represents c' (fst (lru_get ''a'' [])) \<and>
      r = snd (lru_get ''a'' [])) \<and>
    (\<exists>c' r e. cdel ''a'' (create 2 :: nat cache) = Inr (c', r, e) \<and>
      represents c' (fst (lru_del ''a'' [])) \<and> (r, e) = snd (lru_del ''a'' []))"
  by (rule cget_cdel_refine [OF create_represents]) simp

text \<open>The entries a walk visits: the live ones in order of use, up to the first the walker refuses.\<close>

fun walk_spec :: "('a node \<Rightarrow> bool) \<Rightarrow> 'a node list \<Rightarrow> 'a node list" where
  "walk_spec w [] = []"
| "walk_spec w (m # ms) =
     (if expireAt m > 0 then if \<not> w m then [m] else m # walk_spec w ms else walk_spec w ms)"

lemma walkFrom_spec:
  assumes "linked P (lnk (dlnk c) iN) (xs @ [0])" and "0 \<notin> set xs" and "length xs < fuel"
  shows "walkFrom fuel w c (hd (xs @ [0])) = Some (walk_spec w (entries c xs))"
  using assms
proof (induction xs arbitrary: fuel)
  case Nil
  then show ?case by (cases fuel) (simp_all add: walkFrom.simps entries_def)
next
  case (Cons x xs)
  obtain fu where fu: "fuel = Suc fu" "length xs < fu" using Cons.prems(3) by (cases fuel) auto
  have "lnk (dlnk c) iN x = hd (xs @ [0])" and "linked P (lnk (dlnk c) iN) (xs @ [0])"
    using Cons.prems(1) by (simp_all add: linked_Cons)
  moreover have "walkFrom fu w c (hd (xs @ [0])) = Some (walk_spec w (entries c xs))"
    by (rule Cons.IH) (use Cons.prems calculation fu in auto)
  ultimately show ?case
    using Cons.prems(2) by (subst walkFrom.simps) (simp add: fu entries_Cons Let_def)
qed

text \<open>
  \<open>walk\<close> always reaches its end on a well-formed bucket and passes to the walker exactly the
  entries that are not marked as deleted, most recently used first, stopping after the first one
  for which the walker returns false.
\<close>

theorem cwalk_correct:
  assumes "represents c ns"
  shows "cwalk w c = Some (walk_spec w ns)"
proof -
  obtain xs where ok: "cache_ok c xs" and ns: "ns = entries c xs"
    using assms by (auto simp: represents_def)
  note F = cache_ok_facts [OF ok]
  have "lnk (dlnk c) iN 0 = hd (xs @ [0])" "linked (lnk (dlnk c) iP) (lnk (dlnk c) iN) (xs @ [0])"
    using F(3) by (simp_all add: linked_Cons)
  then show ?thesis
    unfolding cwalk_def ns using walkFrom_spec F(1,6,9,10) by fastforce
qed

theorem cwalk_correct_witness: "cwalk (\<lambda>_. True) (create 3 :: nat cache) = Some (walk_spec (\<lambda>_. True) [])"
  by (rule cwalk_correct [OF create_represents]) simp

section \<open>How long an entry stays\<close>

text \<open>A sequence of \<open>put\<close> calls; the entries carry the arguments.\<close>

fun cputs :: "'a node list \<Rightarrow> 'a cache \<Rightarrow> 'a cache res" where
  "cputs [] c = Inr c"
| "cputs (nd # nds) c =
     (case cput (nk nd) (vi nd) (vb nd) (expireAt nd) c of
        Inl er \<Rightarrow> Inl er
      | Inr (c1, _, _) \<Rightarrow> cputs nds c1)"

lemma lru_put_position:
  assumes "nk m \<noteq> nk nd" "m \<in> set (take j ns)" "j < cap" "length ns \<le> cap"
  shows "m \<in> set (take (Suc j) (fst (lru_put cap nd ns)))"
proof -
  obtain i where i: "i < length (take j ns)" "ns ! i = m" "i < j"
    using assms(2) by (auto simp: in_set_conv_nth)
  have pre: "m \<in> set (take j (filter (\<lambda>x. nk x \<noteq> nk nd) ns))"
    using assms(1,2) by (intro filter_take_subset) auto
  have "m \<in> set (take j (butlast ns))" if "length ns = cap"
    using i assms(3) that by (auto simp: in_set_conv_nth nth_butlast intro!: exI [of _ i])
  then show ?thesis
    using pre assms(2) by (auto simp: lru_put_def)
qed

lemma cputs_keep:
  assumes "represents c ns" "m \<in> set (take j ns)" "\<forall>nd \<in> set nds. nk nd \<noteq> nk m"
    "j + length nds \<le> length (mem c)" "mem c \<noteq> []"
  shows "\<exists>c' ns'. cputs nds c = Inr c' \<and> represents c' ns' \<and> m \<in> set ns'"
  using assms
proof (induction nds arbitrary: c ns j)
  case Nil
  then show ?case by (auto dest: in_set_takeD)
next
  case (Cons nd nds)
  obtain c1 ns1 st evs where s: "cput (nk nd) (vi nd) (vb nd) (expireAt nd) c = Inr (c1, st, evs)"
      "represents c1 ns1" "(ns1, st, evs) = lru_put (length (mem c)) nd ns" "length (mem c1) = length (mem c)"
    using cput_spec [OF Cons.prems(1,5), of nd] by blast
  have "m \<in> set (take (Suc j) (fst (lru_put (length (mem c)) nd ns)))"
    by (rule lru_put_position)
      (use Cons.prems represents_length [OF Cons.prems(1)] in auto)
  then have "m \<in> set (take (Suc j) ns1)" using s(3) by (metis fst_conv)
  moreover have "mem c1 \<noteq> []" using s(4) Cons.prems(5) by auto
  ultimately show ?case
    using Cons.IH [OF s(2), of "Suc j"] Cons.prems s(1,4) by auto
qed

text \<open>
  An entry is not evicted early: after \<open>put\<close> of a key, the key is still found after any further
  \<open>put\<close> calls of other keys, as long as there are fewer of them than the capacity of the bucket.
\<close>

theorem cput_retained:
  assumes "represents c ns" and "\<forall>m \<in> set nds. nk m \<noteq> nk nd" and "length nds < length (mem c)"
  shows "\<exists>c'. cputs (nd # nds) c = Inr c' \<and> gm_get (hmap c') (nk nd) \<noteq> None"
proof -
  have ne: "mem c \<noteq> []" using assms(3) by auto
  obtain c1 ns1 st evs where s: "cput (nk nd) (vi nd) (vb nd) (expireAt nd) c = Inr (c1, st, evs)"
      "represents c1 ns1" "(ns1, st, evs) = lru_put (length (mem c)) nd ns" "length (mem c1) = length (mem c)"
    using cput_spec [OF assms(1) ne, of nd] by blast
  have "nd \<in> set (take (Suc 0) ns1)" using s(3) by (auto simp: lru_put_def split: if_splits)
  then obtain c' ns' where e: "cputs nds c1 = Inr c'" "represents c' ns'" "nd \<in> set ns'"
    using cputs_keep [OF s(2), of nd "Suc 0" nds] assms(2,3) s(4) by fastforce
  then have "gm_get (hmap c') (nk nd) \<noteq> None"
    using keys_entries imageI [of nd "set ns'" nk] by (metis represents_def)
  with e s(1) show ?thesis by simp
qed

theorem cput_retained_witness:
  "\<exists>c'. cputs (demoNode ''a'' # [demoNode ''b'']) (create 2) = Inr c' \<and>
     gm_get (hmap c') (nk (demoNode ''a'')) \<noteq> None"
  by (rule cput_retained [OF create_represents]) (simp_all add: demoNode_def create_def)

text \<open>
  A bucket of capacity zero, which the constructors accept, panics with an index out of range
  as soon as an entry is put into it.
\<close>

theorem zero_capacity_panics: "cput k i b e (create 0) = Inl IndexOutOfRange"
  by (simp add: cput_def create_def gm_get_empty lnk_def memOut_def)

end
