(* ===== verification/ECache.thy ===== *)
theory ECache
  imports LruBucket
begin

text \<open>
  The cache of \<open>src/util/ecache/ecache.go\<close> over the buckets of theory LruBucket: the hash that picks
  a bucket, the constructors, and the methods \<open>Put\<close>, \<open>PutInt64\<close>, \<open>PutBytes\<close>, \<open>Get\<close>, \<open>GetBytes\<close>,
  \<open>GetInt64\<close>, \<open>Del\<close>, \<open>Walk\<close> and \<open>Inspect\<close>, in the plain LRU mode and in the LRU-2 mode. The lock
  of a bucket makes each method one step on the bucket. The internal clock is the argument \<open>now\<close>;
  each method returns the list of calls of the inspector it makes.
\<close>

unbundle bit_operations_syntax

section \<open>Hash and bucket mask\<close>

definition hashBKRD :: "string \<Rightarrow> int" where
  "hashBKRD s = foldl (\<lambda>hash c. i32 (i32 (hash * 131) + of_char c)) 0 s"

definition maskOfNextPowOf2 :: "16 word \<Rightarrow> 16 word" where
  "maskOfNextPowOf2 cap =
     (if cap > 0 \<and> cap AND (cap - 1) = 0 then cap - 1
      else let c1 = cap OR drop_bit 1 cap;
               c2 = c1 OR drop_bit 2 c1;
               c3 = c2 OR drop_bit 4 c2
           in c3 OR drop_bit 8 c3)"

section \<open>The cache\<close>

record 'a Cache =
  insts :: "('a cache \<times> 'a cache option) list"
  expiration :: int
  cmask :: int

definition NewLRUCache :: "16 word \<Rightarrow> 16 word \<Rightarrow> int list \<Rightarrow> 'a Cache" where
  "NewLRUCache bucketCnt capPerBkt exps =
     (let m = maskOfNextPowOf2 bucketCnt
      in \<lparr>insts = replicate (unat (m + 1)) (create (unat capPerBkt), None),
          expiration = (case exps of [] \<Rightarrow> 0 | e # _ \<Rightarrow> e), cmask = uint m\<rparr>)"

definition LRU2 :: "16 word \<Rightarrow> 'a Cache \<Rightarrow> 'a Cache" where
  "LRU2 capPerBkt C = C\<lparr>insts := map (\<lambda>(c0, c1). (c0, Some (create (unat capPerBkt)))) (insts C)\<rparr>"

definition bucketOf :: "'a Cache \<Rightarrow> string \<Rightarrow> nat" where
  "bucketOf C key = nat (hashBKRD key AND cmask C)"

definition cachePut ::
    "int \<Rightarrow> string \<Rightarrow> 'a option \<Rightarrow> 8 word list \<Rightarrow> 'a Cache \<Rightarrow> ('a Cache \<times> 'a event list) res" where
  "cachePut now key i b C =
     (let idx = bucketOf C key
      in if length (insts C) \<le> idx then Inl IndexOutOfRange
         else case cput key i b (i64 (now + expiration C)) (fst (insts C ! idx)) of
                Inl er \<Rightarrow> Inl er
              | Inr (c0, status, evs) \<Rightarrow>
                  Inr (C\<lparr>insts := (insts C)[idx := (c0, snd (insts C ! idx))]\<rparr>,
                       evs @ [Event PUT key i b status]))"

definition Put :: "int \<Rightarrow> string \<Rightarrow> 'a \<Rightarrow> 'a Cache \<Rightarrow> ('a Cache \<times> 'a event list) res" where
  "Put now key val C = cachePut now key (Some val) [] C"

text \<open>Little-endian encoding of a \<open>uint64\<close> as eight bytes.\<close>

fun putLE :: "nat \<Rightarrow> int \<Rightarrow> 8 word list" where
  "putLE 0 u = []"
| "putLE (Suc k) u = word_of_int (u mod 256) # putLE k (u div 256)"

fun getLE :: "8 word list \<Rightarrow> int" where
  "getLE [] = 0"
| "getLE (b # bs) = uint b + 256 * getLE bs"

definition ToInt64 :: "8 word list \<Rightarrow> int \<times> bool" where
  "ToInt64 b = (if 8 \<le> length b then (i64 (getLE (take 8 b)), True) else (0, False))"

definition PutInt64 :: "int \<Rightarrow> string \<Rightarrow> int \<Rightarrow> 'a Cache \<Rightarrow> ('a Cache \<times> 'a event list) res" where
  "PutInt64 now key d C = cachePut now key None (putLE 8 (d mod 2 ^ 64)) C"

definition PutBytes :: "int \<Rightarrow> string \<Rightarrow> 8 word list \<Rightarrow> 'a Cache \<Rightarrow> ('a Cache \<times> 'a event list) res" where
  "PutBytes now key b C = cachePut now key None b C"

text \<open>The test of \<open>_get\<close> on the entry a bucket returned.\<close>

definition usable :: "int \<Rightarrow> int \<Rightarrow> 'a node \<Rightarrow> bool" where
  "usable now ex nd \<longleftrightarrow> expireAt nd > 0 \<and> (ex \<le> 0 \<or> now < expireAt nd)"

definition getLevel :: "int \<Rightarrow> int \<Rightarrow> string \<Rightarrow> 'a cache \<Rightarrow> ('a cache \<times> 'a node option) res" where
  "getLevel now ex key c =
     (case cget key c of
        Inl er \<Rightarrow> Inl er
      | Inr (c', Some nd) \<Rightarrow> Inr (c', if usable now ex nd then Some nd else None)
      | Inr (c', None) \<Rightarrow> Inr (c', None))"

text \<open>
  One bucket of \<open>get\<close>: with one level the entry is looked up there; in the LRU-2 mode an entry
  found in the first level is deleted there and put into the second, otherwise the second level is
  asked. Returns the levels, the entry and the inspector calls of the second level.
\<close>

definition getBucket ::
    "int \<Rightarrow> int \<Rightarrow> string \<Rightarrow> 'a cache \<times> 'a cache option \<Rightarrow>
      (('a cache \<times> 'a cache option) \<times> 'a node option \<times> 'a event list) res" where
  "getBucket now ex key lv =
     (case lv of
        (c0, None) \<Rightarrow>
          (case getLevel now ex key c0 of
             Inl er \<Rightarrow> Inl er
           | Inr (c0', r) \<Rightarrow> Inr ((c0', None), r, []))
      | (c0, Some c1) \<Rightarrow>
          (case cdel key c0 of
             Inl er \<Rightarrow> Inl er
           | Inr (c0', None, e) \<Rightarrow>
               (case getLevel now ex key c1 of
                  Inl er \<Rightarrow> Inl er
                | Inr (c1', r) \<Rightarrow> Inr ((c0', Some c1'), r, []))
           | Inr (c0', Some nd, e) \<Rightarrow>
               (case cput key (vi nd) (vb nd) e c1 of
                  Inl er \<Rightarrow> Inl er
                | Inr (c1', st, evs) \<Rightarrow> Inr ((c0', Some c1'), Some nd, evs))))"

definition cacheGet ::
    "int \<Rightarrow> string \<Rightarrow> 'a Cache \<Rightarrow> ('a Cache \<times> ('a option \<times> 8 word list) option \<times> 'a event list) res" where
  "cacheGet now key C =
     (let idx = bucketOf C key
      in if length (insts C) \<le> idx then Inl IndexOutOfRange
         else case getBucket now (expiration C) key (insts C ! idx) of
                Inl er \<Rightarrow> Inl er
              | Inr (lv, None, evs) \<Rightarrow>
                  Inr (C\<lparr>insts := (insts C)[idx := lv]\<rparr>, None, evs @ [Event GET key None [] 0])
              | Inr (lv, Some nd, evs) \<Rightarrow>
                  Inr (C\<lparr>insts := (insts C)[idx := lv]\<rparr>, Some (vi nd, vb nd),
                       evs @ [Event GET key (vi nd) (vb nd) 1]))"

definition Get :: "int \<Rightarrow> string \<Rightarrow> 'a Cache \<Rightarrow> ('a Cache \<times> 'a option) res" where
  "Get now key C =
     (case cacheGet now key C of
        Inl er \<Rightarrow> Inl er
      | Inr (C', Some (Some v, b), evs) \<Rightarrow> Inr (C', Some v)
      | Inr (C', _, evs) \<Rightarrow> Inr (C', None))"

definition GetBytes :: "int \<Rightarrow> string \<Rightarrow> 'a Cache \<Rightarrow> ('a Cache \<times> 8 word list option) res" where
  "GetBytes now key C =
     (case cacheGet now key C of
        Inl er \<Rightarrow> Inl er
      | Inr (C', Some (i, b), evs) \<Rightarrow> Inr (C', Some b)
      | Inr (C', None, evs) \<Rightarrow> Inr (C', None))"

definition GetInt64 :: "int \<Rightarrow> string \<Rightarrow> 'a Cache \<Rightarrow> ('a Cache \<times> int option) res" where
  "GetInt64 now key C =
     (case cacheGet now key C of
        Inl er \<Rightarrow> Inl er
      | Inr (C', Some (i, b), evs) \<Rightarrow>
          Inr (C', if 8 \<le> length b then Some (i64 (getLE (take 8 b))) else None)
      | Inr (C', None, evs) \<Rightarrow> Inr (C', None))"

text \<open>\<open>n.v.i, n.v.b = nil, nil\<close> for the entry \<open>del\<close> returned: the slot of the key.\<close>

definition release :: "string \<Rightarrow> 'a cache \<Rightarrow> 'a cache" where
  "release key c =
     (case gm_get (hmap c) key of
        None \<Rightarrow> c
      | Some x \<Rightarrow> c\<lparr>mem := (mem c)[x - 1 := (mem c ! (x - 1))\<lparr>vi := None, vb := []\<rparr>]\<rparr>)"

definition delBucket ::
    "string \<Rightarrow> 'a cache \<times> 'a cache option \<Rightarrow> (('a cache \<times> 'a cache option) \<times> 'a event) res" where
  "delBucket key lv =
     (case cdel key (fst lv) of
        Inl er \<Rightarrow> Inl er
      | Inr (c0, r0, e) \<Rightarrow>
          (case snd lv of
             None \<Rightarrow>
               (case r0 of
                  Some nd \<Rightarrow> Inr ((release key c0, None), Event DEL key (vi nd) (vb nd) 1)
                | None \<Rightarrow> Inr ((c0, None), Event DEL key None [] 0))
           | Some l1 \<Rightarrow>
               (case cdel key l1 of
                  Inl er \<Rightarrow> Inl er
                | Inr (c1, r1, e2) \<Rightarrow>
                    (case r1 of
                       Some nd \<Rightarrow>
                         if r0 = None \<or> e < e2
                         then Inr ((c0, Some (release key c1)), Event DEL key (vi nd) (vb nd) 1)
                         else Inr ((release key c0, Some c1),
                                Event DEL key (vi (the r0)) (vb (the r0)) 1)
                     | None \<Rightarrow>
                         (case r0 of
                            Some nd \<Rightarrow> Inr ((release key c0, Some c1), Event DEL key (vi nd) (vb nd) 1)
                          | None \<Rightarrow> Inr ((c0, Some c1), Event DEL key None [] 0))))))"

definition Del :: "string \<Rightarrow> 'a Cache \<Rightarrow> ('a Cache \<times> 'a event list) res" where
  "Del key C =
     (let idx = bucketOf C key
      in if length (insts C) \<le> idx then Inl IndexOutOfRange
         else case delBucket key (insts C ! idx) of
                Inl er \<Rightarrow> Inl er
              | Inr (lv, ev) \<Rightarrow> Inr (C\<lparr>insts := (insts C)[idx := lv]\<rparr>, [ev]))"

definition walkBucket :: "('a node \<Rightarrow> bool) \<Rightarrow> 'a cache \<times> 'a cache option \<Rightarrow> 'a node list option" where
  "walkBucket w lv =
     (case cwalk w (fst lv) of
        None \<Rightarrow> None
      | Some xs \<Rightarrow>
          (case snd lv of
             None \<Rightarrow> Some xs
           | Some c1 \<Rightarrow> map_option (\<lambda>ys. xs @ ys) (cwalk w c1)))"

fun walkAll :: "('a node \<Rightarrow> bool) \<Rightarrow> ('a cache \<times> 'a cache option) list \<Rightarrow> 'a node list option" where
  "walkAll w [] = Some []"
| "walkAll w (lv # lvs) =
     (case walkBucket w lv of
        None \<Rightarrow> None
      | Some xs \<Rightarrow> map_option (\<lambda>ys. xs @ ys) (walkAll w lvs))"

definition Walk :: "('a node \<Rightarrow> bool) \<Rightarrow> 'a Cache \<Rightarrow> 'a node list option" where
  "Walk w C = walkAll w (insts C)"

text \<open>
  An inspector is a function on the state \<open>'s\<close> it keeps; \<open>Inspect\<close> composes the old one with the
  new one.
\<close>

definition Inspect ::
    "('a event \<Rightarrow> 's \<Rightarrow> 's) \<Rightarrow> ('a event \<Rightarrow> 's \<Rightarrow> 's) \<Rightarrow> ('a event \<Rightarrow> 's \<Rightarrow> 's)" where
  "Inspect on insptr = (\<lambda>ev s. insptr ev (on ev s))"

section \<open>The bucket mask\<close>

lemma highest_bit:
  fixes w :: "16 word"
  assumes "w \<noteq> 0"
  obtains h where "h < 16" "bit w h" "\<And>j. h < j \<Longrightarrow> \<not> bit w j" "2 ^ h \<le> unat w" "unat w < 2 ^ Suc h"
proof -
  let ?S = "{j. bit w j}"
  have "w = 0" if "?S = {}"
    by (rule bit_eqI) (use that in auto)
  then have S: "finite ?S" "?S \<noteq> {}"
    using assms by (auto intro: finite_subset [of _ "{..<16}"] dest: bit_imp_le_length)
  define h where "h = Max ?S"
  have bh: "bit w h" using Max_in [OF S] by (simp add: h_def)
  have above: "\<not> bit w j" if "h < j" for j
  proof
    assume "bit w j"
    then have "j \<le> h" unfolding h_def by (intro Max_ge [OF S(1)]) simp
    then show False using that by simp
  qed
  have len: "h < 16" using bit_imp_le_length [OF bh] by simp
  have "take_bit (Suc h) w = w"
    by (rule bit_eqI) (auto simp: bit_take_bit_iff less_Suc_eq_le intro: leI dest: above)
  then have "unat w < 2 ^ Suc h"
    by (metis take_bit_nat_less_exp unsigned_take_bit_eq)
  moreover have "bit (unat w) h" using bh len by (simp add: bit_unsigned_iff)
  then have "2 ^ h \<le> unat w"
    by (metis bit_take_bit_iff less_irrefl not_le take_bit_nat_eq_self)
  ultimately show thesis using that bh above len by blast
qed

lemma bit_smear_step:
  fixes w v :: "16 word"
  assumes "\<And>j. bit v j \<longleftrightarrow> (\<exists>i < s. bit w (j + i))"
  shows "bit (v OR drop_bit s v) j \<longleftrightarrow> (\<exists>i < s + s. bit w (j + i))"
proof -
  have "bit (v OR drop_bit s v) j \<longleftrightarrow> (\<exists>i < s. bit w (j + i)) \<or> (\<exists>i < s. bit w (s + j + i))"
    using assms by (simp add: bit_or_iff bit_drop_bit_eq)
  also have "\<dots> \<longleftrightarrow> (\<exists>i < s + s. bit w (j + i))"
    (is "?L \<or> ?R \<longleftrightarrow> ?B")
  proof
    assume "?L \<or> ?R" then show ?B
    proof
      assume ?R
      then obtain i where "i < s" "bit w (j + (s + i))" by (auto simp: ac_simps)
      then show ?B by (intro exI [of _ "s + i"]) simp
    qed (auto intro: trans_less_add1)
  next
    assume ?B
    then obtain i where i: "i < s + s" "bit w (j + i)" by blast
    show "?L \<or> ?R"
    proof (cases "i < s")
      case False
      then have "bit w (s + j + (i - s))" "i - s < s" using i by (simp_all add: ac_simps)
      then show ?thesis by blast
    qed (use i in blast)
  qed
  finally show ?thesis .
qed

definition smear :: "16 word \<Rightarrow> 16 word" where
  "smear cap =
     (let c1 = cap OR drop_bit 1 cap;
          c2 = c1 OR drop_bit 2 c1;
          c3 = c2 OR drop_bit 4 c2
      in c3 OR drop_bit 8 c3)"

lemma bit_smear: "bit (smear w) j \<longleftrightarrow> (\<exists>i < 16. bit w (j + i))"
proof -
  let ?c1 = "w OR drop_bit 1 w"
  have 0: "bit w j \<longleftrightarrow> (\<exists>i < 1. bit w (j + i))" for j by simp
  have 1: "bit ?c1 j \<longleftrightarrow> (\<exists>i < 2. bit w (j + i))" for j
    using bit_smear_step [OF 0, of j] by simp
  have 2: "bit (?c1 OR drop_bit 2 ?c1) j \<longleftrightarrow> (\<exists>i < 4. bit w (j + i))" for j
    using bit_smear_step [OF 1, of j] by simp
  have 3: "bit ((?c1 OR drop_bit 2 ?c1) OR drop_bit 4 (?c1 OR drop_bit 2 ?c1)) j \<longleftrightarrow> (\<exists>i < 8. bit w (j + i))" for j
    using bit_smear_step [OF 2, of j] by simp
  show ?thesis using bit_smear_step [OF 3, of j] by (simp add: smear_def Let_def)
qed

lemma smear_mask:
  assumes "h < 16" "bit w h" "\<And>j. h < j \<Longrightarrow> \<not> bit w j"
  shows "smear w = mask (Suc h)"
proof (rule bit_eqI)
  fix j
  have "(\<exists>i < 16. bit w (j + i)) \<longleftrightarrow> j \<le> h"
    using assms by (metis add_diff_inverse_nat diff_le_self le_add1 le_less_trans not_le)
  then show "bit (smear w) j \<longleftrightarrow> bit (mask (Suc h) :: 16 word) j"
    using assms(1) by (auto simp: bit_smear bit_mask_iff less_Suc_eq_le)
qed

lemma top_bit_nat: "(2::nat) ^ h \<le> m \<Longrightarrow> m < 2 ^ Suc h \<Longrightarrow> bit m h"
proof -
  assume "2 ^ h \<le> m" "m < 2 ^ Suc h"
  then have "m div 2 ^ h = 1" by (intro div_nat_eqI) simp_all
  then show "bit m h" by (simp add: bit_iff_odd)
qed

lemma bit_unat16: "bit w j \<longleftrightarrow> bit (unat w) j" for w :: "16 word"
  by (auto simp: bit_unsigned_iff possible_bit_def dest: bit_imp_le_length)

lemma not_power_of_two:
  fixes w :: "16 word"
  assumes "h < 16" "2 ^ h < unat w" "unat w < 2 ^ Suc h"
  shows "w AND (w - 1) \<noteq> 0"
proof -
  have "w \<noteq> 0" using assms(2) by auto
  then have u: "unat (w - 1) = unat w - 1" by (simp add: unat_minus_one)
  have "bit (unat w) h" "bit (unat w - 1) h"
    using assms(2,3) by (intro top_bit_nat; simp)+
  then have "bit w h" "bit (w - 1) h" using u by (simp_all add: bit_unat16)
  then have "bit (w AND (w - 1)) h" by (simp only: bit_and_iff)
  then show ?thesis by auto
qed

lemma power_of_two:
  fixes w :: "16 word"
  assumes "unat w = 2 ^ h"
  shows "w AND (w - 1) = 0"
proof (rule bit_eqI)
  fix j
  have "w \<noteq> 0" using assms by auto
  then have "unat (w - 1) = mask h" using assms by (simp add: unat_minus_one mask_eq_exp_minus_1)
  then have "\<not> (bit w j \<and> bit (w - 1) j)"
    using assms by (simp add: bit_unat16 bit_mask_iff bit_exp_iff)
  then show "bit (w AND (w - 1)) j \<longleftrightarrow> bit (0 :: 16 word) j"
    by (simp only: bit_and_iff) simp
qed

lemma unat_mask16: "k \<le> 16 \<Longrightarrow> unat (mask k :: 16 word) = 2 ^ k - 1"
  using uint_mask_eq [where 'a = 16, of k] 
  by (simp add: min_def mask_eq_exp_minus_1 unat_eq_nat_uint nat_diff_distrib nat_power_eq)

lemma mask_spec:
  assumes "0 < unat cap"
  shows "\<exists>k \<le> 16. unat (maskOfNextPowOf2 cap) + 1 = 2 ^ k \<and> unat cap \<le> 2 ^ k \<and>
    (0 < k \<longrightarrow> 2 ^ (k - 1) < unat cap)"
proof -
  have nz: "cap \<noteq> 0" using assms by auto
  obtain h where h: "h < 16" "bit cap h" "\<And>j. h < j \<Longrightarrow> \<not> bit cap j" "2 ^ h \<le> unat cap" "unat cap < 2 ^ Suc h"
    using highest_bit [OF nz] by blast
  show ?thesis
  proof (cases "cap > 0 \<and> cap AND (cap - 1) = 0")
    case True
    then have "unat cap = 2 ^ h" using not_power_of_two [OF h(1) _ h(5)] h(4) by fastforce
    moreover have "unat (maskOfNextPowOf2 cap) = unat cap - 1"
      using True nz by (simp add: maskOfNextPowOf2_def unat_minus_one)
    ultimately show ?thesis
      using h(1) by (intro exI [of _ h]) (auto simp: power_strict_increasing_iff)
  next
    case False
    have m: "maskOfNextPowOf2 cap = mask (Suc h)"
      using smear_mask [OF h(1-3)] False by (auto simp: maskOfNextPowOf2_def smear_def)
    have "unat (mask (Suc h) :: 16 word) = 2 ^ Suc h - 1"
      using h(1) by (intro unat_mask16) simp
    moreover have "unat cap \<noteq> 2 ^ h"
      using power_of_two [of cap h] False nz by (auto simp: word_greater_zero_iff)
    ultimately show ?thesis
      using h by (intro exI [of _ "Suc h"]) (auto simp: m)
  qed
qed

text \<open>
  The mask is right: for a positive bucket count \<open>cap\<close>, \<open>maskOfNextPowOf2 cap + 1\<close> is the least
  power of two that is not below \<open>cap\<close>.
\<close>

theorem maskOfNextPowOf2_correct:
  assumes "0 < unat cap"
  shows "\<exists>k \<le> 16. unat (maskOfNextPowOf2 cap) + 1 = 2 ^ k \<and> unat cap \<le> 2 ^ k \<and>
    (0 < k \<longrightarrow> 2 ^ (k - 1) < unat cap)"
  by (rule mask_spec [OF assms])

theorem maskOfNextPowOf2_correct_witness:
  "\<exists>k \<le> 16. unat (maskOfNextPowOf2 300) + 1 = 2 ^ k \<and> unat (300 :: 16 word) \<le> 2 ^ k \<and>
    (0 < k \<longrightarrow> 2 ^ (k - 1) < unat (300 :: 16 word))"
  by (rule maskOfNextPowOf2_correct) simp

section \<open>Well-formed caches\<close>

definition level_ok :: "'a cache \<Rightarrow> bool" where
  "level_ok c \<longleftrightarrow> (\<exists>ns. represents c ns) \<and> mem c \<noteq> []"

definition levels_ok :: "'a cache \<times> 'a cache option \<Rightarrow> bool" where
  "levels_ok lv \<longleftrightarrow> level_ok (fst lv) \<and> pred_option level_ok (snd lv)"

definition Cache_ok :: "'a Cache \<Rightarrow> bool" where
  "Cache_ok C \<longleftrightarrow> (\<exists>k \<le> 16. length (insts C) = 2 ^ k \<and> cmask C = 2 ^ k - 1) \<and> list_all levels_ok (insts C)"

lemma bucketOf_less: "Cache_ok C \<Longrightarrow> bucketOf C key < length (insts C)"
proof -
  assume "Cache_ok C"
  then obtain k where k: "length (insts C) = 2 ^ k" "cmask C = mask k"
    by (auto simp: Cache_ok_def mask_eq_exp_minus_1)
  have "hashBKRD key AND cmask C = take_bit k (hashBKRD key)"
    by (simp add: k take_bit_eq_mask)
  then have "bucketOf C key < nat (2 ^ k)"
    unfolding bucketOf_def by (metis nat_mono_iff take_bit_int_less_exp zero_less_numeral zero_less_power)
  then show ?thesis by (simp add: k nat_power_eq)
qed

lemma Cache_ok_bucket: "Cache_ok C \<Longrightarrow> levels_ok (insts C ! bucketOf C key)"
  using bucketOf_less [of C key] by (auto simp: Cache_ok_def list_all_length)

lemma Cache_ok_update: "Cache_ok C \<Longrightarrow> levels_ok lv \<Longrightarrow> Cache_ok (C\<lparr>insts := (insts C)[i := lv]\<rparr>)"
  by (auto simp: Cache_ok_def list_all_iff dest: set_update_subset_insert [THEN subsetD])

lemma bucketOf_update [simp]: "bucketOf (C\<lparr>insts := X\<rparr>) key = bucketOf C key"
  by (simp add: bucketOf_def)

lemma mask_plus_one:
  "0 < unat cnt \<Longrightarrow> \<exists>k \<le> 16. uint (maskOfNextPowOf2 cnt) = 2 ^ k - 1 \<and>
     unat (maskOfNextPowOf2 cnt + 1) = (if k = 16 then 0 else 2 ^ k) \<and> (k = 16 \<longleftrightarrow> 32768 < unat cnt)"
proof -
  assume "0 < unat cnt"
  then obtain k where k: "k \<le> 16" "unat (maskOfNextPowOf2 cnt) + 1 = 2 ^ k" "unat cnt \<le> 2 ^ k"
      "0 < k \<longrightarrow> 2 ^ (k - 1) < unat cnt"
    using mask_spec by blast
  have u: "uint (maskOfNextPowOf2 cnt) = 2 ^ k - 1"
    using arg_cong [OF k(2), of int] by simp
  have "unat (maskOfNextPowOf2 cnt + 1) = 2 ^ k mod 65536"
    using k(2) by (simp add: unat_word_ariths)
  moreover have "(2::nat) ^ k < 2 ^ 16" if "k \<noteq> 16" using k(1) that by (intro power_strict_increasing) auto
  moreover have "k = 16 \<longleftrightarrow> 32768 < unat cnt"
  proof
    assume "k = 16" then show "32768 < unat cnt" using k(4) by simp
  next
    assume a: "32768 < unat cnt"
    have "(2::nat) ^ k \<le> 2 ^ 15" if "k \<noteq> 16" using k(1) that by (intro power_increasing) auto
    then show "k = 16" using a k(3) by (cases "k = 16") auto
  qed
  ultimately show ?thesis using k(1) u by (intro exI [of _ k]) auto
qed

lemma level_ok_create: "0 < cap \<Longrightarrow> cap < 65536 \<Longrightarrow> level_ok (create cap)"
  unfolding level_ok_def using create_represents [of cap] create_mem [of cap] by (metis length_0_conv not_less0)

lemma unat16_less: "unat (x :: 16 word) < 65536"
  using unsigned_less [of x, where 'a = nat] by simp

lemma NewLRUCache_spec:
  assumes "0 < unat cnt" "unat cnt \<le> 32768" "0 < unat cap"
  shows "Cache_ok (NewLRUCache cnt cap exps) \<and> unat cnt \<le> length (insts (NewLRUCache cnt cap exps))"
proof -
  obtain k where k: "k \<le> 16" "uint (maskOfNextPowOf2 cnt) = 2 ^ k - 1"
      "unat (maskOfNextPowOf2 cnt + 1) = 2 ^ k"
    using mask_plus_one [OF assms(1)] assms(2) by auto
  have "levels_ok (create (unat cap), None)"
    using level_ok_create [OF assms(3)] unat16_less [of cap] by (simp add: levels_ok_def)
  moreover have "unat cnt \<le> 2 ^ k"
  proof -
    obtain j where "unat (maskOfNextPowOf2 cnt) + 1 = 2 ^ j" "unat cnt \<le> 2 ^ j"
      using mask_spec [OF assms(1)] by blast
    moreover have "int (unat (maskOfNextPowOf2 cnt) + 1) = 2 ^ k" using k(2) by simp
    ultimately show ?thesis by (metis of_nat_eq_iff of_nat_numeral of_nat_power)
  qed
  ultimately show ?thesis
    using k by (auto simp: NewLRUCache_def Let_def Cache_ok_def list_all_iff)
qed

lemma LRU2_ok: "Cache_ok C \<Longrightarrow> 0 < unat cap \<Longrightarrow> Cache_ok (LRU2 cap C)"
  using level_ok_create [of "unat cap"] unat16_less [of cap]
  by (auto simp: Cache_ok_def LRU2_def list_all_iff levels_ok_def)

text \<open>
  A bucket count between 1 and 32768 and positive capacities give a well-formed cache with at
  least that many buckets, in both modes. A count above 32768 makes the \<open>uint16\<close> expression
  \<open>mask+1\<close> wrap around to 0, so the cache has no bucket and every access panics.
\<close>

theorem NewLRUCache_bucket_count:
  assumes "0 < unat cnt" and "0 < unat cap" and C: "C = NewLRUCache cnt cap exps"
  shows "if unat cnt \<le> 32768
    then Cache_ok C \<and> Cache_ok (LRU2 cap C) \<and> unat cnt \<le> length (insts C)
    else insts C = [] \<and> Put now key v C = Inl IndexOutOfRange \<and> Get now key C = Inl IndexOutOfRange \<and>
      Del key C = Inl IndexOutOfRange"
proof (cases "unat cnt \<le> 32768")
  case True
  then have "Cache_ok C" "unat cnt \<le> length (insts C)" using NewLRUCache_spec assms by auto
  then show ?thesis using True LRU2_ok assms(2) by auto
next
  case False
  then have "unat (maskOfNextPowOf2 cnt + 1) = 0" using mask_plus_one [OF assms(1)] by auto
  then have "insts C = []" by (simp add: C NewLRUCache_def Let_def)
  then show ?thesis
    using False by (simp add: Put_def cachePut_def Get_def cacheGet_def Del_def Let_def)
qed

theorem NewLRUCache_bucket_count_witness:
  "insts (NewLRUCache 40000 8 [] :: nat Cache) = [] \<and> Put 1 ''k'' (0 :: nat) (NewLRUCache 40000 8 []) = Inl IndexOutOfRange"
proof -
  have "\<not> unat (40000 :: 16 word) \<le> 32768" by (simp add: take_bit_eq_mod)
  then show ?thesis
    using NewLRUCache_bucket_count [of 40000 8 "NewLRUCache 40000 8 []" "[]" 1 "''k''" "0 :: nat"] by simp
qed

section \<open>Operations on one bucket\<close>

lemma level_put:
  assumes "level_ok c"
  shows "\<exists>c' st evs ns. cput k i b e c = Inr (c', st, evs) \<and> level_ok c' \<and>
    represents c' (\<lparr>nk = k, vi = i, vb = b, expireAt = e\<rparr> # ns)"
proof -
  obtain ns where ns: "represents c ns" and ne: "mem c \<noteq> []" using assms by (auto simp: level_ok_def)
  let ?nd = "\<lparr>nk = k, vi = i, vb = b, expireAt = e\<rparr>"
  obtain c' ns' st evs where c: "cput k i b e c = Inr (c', st, evs)" "represents c' ns'"
      "(ns', st, evs) = lru_put (length (mem c)) ?nd ns" "length (mem c') = length (mem c)"
    using cput_spec [OF ns ne, of ?nd] by auto
  have "\<exists>ms. ns' = ?nd # ms" using c(3) by (auto simp: lru_put_def split: if_splits)
  then show ?thesis
    using c(1,2,4) ne by (fastforce simp: level_ok_def)
qed

lemma level_get:
  assumes "represents c ns" "mem c \<noteq> []"
  shows "\<exists>c'. getLevel now ex k c =
      Inr (c', case find (\<lambda>m. nk m = k) ns of
                 Some nd \<Rightarrow> if usable now ex nd then Some nd else None | None \<Rightarrow> None) \<and>
    level_ok c'"
proof -
  obtain c' where "cget k c = Inr (c', snd (lru_get k ns))" "represents c' (fst (lru_get k ns))"
      "length (mem c') = length (mem c)"
    using cget_spec [OF assms(1), of k] by blast
  moreover from this have "level_ok c'" using assms(2) by (auto simp: level_ok_def)
  ultimately show ?thesis
    by (auto simp: getLevel_def lru_get_def split: option.splits)
qed

lemma level_del:
  assumes "represents c ns" "mem c \<noteq> []"
  shows "\<exists>c'. cdel k c = Inr (c', snd (lru_del k ns)) \<and> represents c' (fst (lru_del k ns)) \<and> level_ok c' \<and>
    mem c' \<noteq> []"
  using cdel_spec [OF assms(1), of k] assms(2) by (fastforce simp: level_ok_def)

text \<open>A level where the key is absent or marked as deleted: no lookup finds it.\<close>

definition dead :: "string \<Rightarrow> 'a cache \<Rightarrow> bool" where
  "dead k c \<longleftrightarrow> (\<exists>ns. represents c ns \<and> (\<forall>m. find (\<lambda>m. nk m = k) ns = Some m \<longrightarrow> expireAt m \<le> 0)) \<and> mem c \<noteq> []"


lemma dead_level: "dead k c \<Longrightarrow> level_ok c"
  by (auto simp: dead_def level_ok_def)

lemma find_filter_other: "find (\<lambda>m. nk m = k) (filter (\<lambda>m. nk m \<noteq> k) ns @ xs) = find (\<lambda>m. nk m = k) xs"
  by (induction ns) auto

lemma level_del_dead:
  assumes "level_ok c"
  shows "\<exists>c' r e. cdel k c = Inr (c', r, e) \<and> dead k c'"
proof -
  obtain ns where ns: "represents c ns" "mem c \<noteq> []" using assms by (auto simp: level_ok_def)
  obtain c' where c: "cdel k c = Inr (c', snd (lru_del k ns))" "represents c' (fst (lru_del k ns))" "mem c' \<noteq> []"
    using level_del [OF ns, of k] by blast
  have "expireAt m \<le> 0" if "find (\<lambda>m. nk m = k) (fst (lru_del k ns)) = Some m" for m
  proof (cases "find (\<lambda>m. nk m = k) ns")
    case (Some m')
    then have "nk m' = k" by (auto simp: find_Some_iff)
    then show ?thesis
      using that Some by (auto simp: lru_del_def find_filter_other split: if_splits)
  qed (use that in \<open>simp add: lru_del_def\<close>)
  then have "dead k c'" using c(2,3) by (auto simp: dead_def)
  then show ?thesis using c(1) by (metis prod.collapse)
qed

lemma dead_get:
  assumes "dead k c"
  shows "\<exists>c'. getLevel now ex k c = Inr (c', None) \<and> level_ok c'"
proof -
  obtain ns where "represents c ns" "mem c \<noteq> []" and f: "\<And>m. find (\<lambda>m. nk m = k) ns = Some m \<Longrightarrow> expireAt m \<le> 0"
    using assms by (auto simp: dead_def)
  from level_get [OF this(1,2), of now ex k] f show ?thesis
    by (fastforce simp: usable_def split: option.splits)
qed

lemma dead_del: "dead k c \<Longrightarrow> \<exists>c'. cdel k c = Inr (c', None, 0) \<and> level_ok c'"
proof -
  assume "dead k c"
  then obtain ns where "represents c ns" "mem c \<noteq> []" and f: "\<And>m. find (\<lambda>m. nk m = k) ns = Some m \<Longrightarrow> expireAt m \<le> 0"
    by (auto simp: dead_def)
  from level_del [OF this(1,2), of k] f show ?thesis
    by (fastforce simp: lru_del_def split: option.splits)
qed

lemma dead_release:
  assumes "dead k c"
  shows "dead k (release k c)"
proof (cases "gm_get (hmap c) k")
  case None
  then show ?thesis using assms by (simp add: release_def)
next
  case (Some x)
  obtain xs where ok: "cache_ok c xs"
      and f: "\<And>m. find (\<lambda>m. nk m = k) (entries c xs) = Some m \<Longrightarrow> expireAt m \<le> 0" and ne: "mem c \<noteq> []"
    using assms by (auto simp: dead_def represents_def)
  define v where "v = (mem c ! (x - 1))\<lparr>vi := None, vb := []\<rparr>"
  obtain as bs where s: "xs = as @ x # bs" "nk (mem c ! (x - 1)) = k"
      "find (\<lambda>m. nk m = k) (entries c xs) = Some (mem c ! (x - 1))"
    using found_split [OF ok Some] by metis
  have x: "x \<in> set xs" using s by simp
  let ?c1 = "c\<lparr>mem := (mem c)[x - 1 := v]\<rparr>"
  have ok1: "cache_ok ?c1 xs" by (rule cache_ok_overwrite [OF ok x]) (simp add: v_def)
  have "find (\<lambda>m. nk m = k) (entries ?c1 xs) = Some v"
    using found_split [OF ok1, of k x] Some in_range [OF ok x] by auto
  moreover have "expireAt v \<le> 0" using f [OF s(3)] by (simp add: v_def)
  ultimately have "dead k ?c1"
    using ok1 ne by (auto simp: dead_def represents_def intro!: exI [of _ "entries ?c1 xs"])
  then show ?thesis using Some by (simp add: release_def v_def)
qed

definition deadBucket :: "string \<Rightarrow> 'a cache \<times> 'a cache option \<Rightarrow> bool" where
  "deadBucket k lv \<longleftrightarrow> dead k (fst lv) \<and> pred_option (dead k) (snd lv)"

lemma delBucket_dead:
  assumes "levels_ok lv"
  shows "\<exists>lv' ev. delBucket k lv = Inr (lv', ev) \<and> deadBucket k lv'"
proof -
  obtain c0 r0 e where d0: "cdel k (fst lv) = Inr (c0, r0, e)" "dead k c0"
    using level_del_dead assms by (metis levels_ok_def)
  show ?thesis
  proof (cases "snd lv")
    case None
    then show ?thesis using d0 dead_release [OF d0(2)]
      by (cases r0) (auto simp: delBucket_def deadBucket_def)
  next
    case (Some l1)
    obtain c1 r1 e2 where d1: "cdel k l1 = Inr (c1, r1, e2)" "dead k c1"
      using level_del_dead [of l1 k] assms Some by (auto simp: levels_ok_def)
    show ?thesis
      using d0 d1 Some dead_release [OF d0(2)] dead_release [OF d1(2)]
      by (cases r0; cases r1) (auto simp: delBucket_def deadBucket_def)
  qed
qed

lemma getBucket_dead:
  assumes "deadBucket k lv"
  shows "\<exists>lv'. getBucket now ex k lv = Inr (lv', None, []) \<and> levels_ok lv'"
proof (cases "snd lv")
  case None
  then show ?thesis
    using dead_get [of k "fst lv" now ex] assms
    by (cases lv) (auto simp: deadBucket_def getBucket_def levels_ok_def)
next
  case (Some c1)
  then show ?thesis
    using dead_del [of k "fst lv"] dead_get [of k c1 now ex] assms
    by (cases lv) (auto simp: deadBucket_def getBucket_def levels_ok_def)
qed

lemma deadBucket_ok: "deadBucket k lv \<Longrightarrow> levels_ok lv"
  by (cases "snd lv") (auto simp: deadBucket_def levels_ok_def dead_level)

text \<open>
  Deleting works in both modes: on a well-formed cache \<open>Del\<close> does not panic, the invariant is
  kept, and afterwards no lookup at any time finds the key.
\<close>

theorem Del_Get:
  assumes "Cache_ok C"
  shows "\<exists>C1 evs C2. Del key C = Inr (C1, evs) \<and> Cache_ok C1 \<and> Get now key C1 = Inr (C2, None) \<and> Cache_ok C2"
proof -
  let ?i = "bucketOf C key"
  obtain lv ev where d: "delBucket key (insts C ! ?i) = Inr (lv, ev)" "deadBucket key lv"
    using delBucket_dead Cache_ok_bucket [OF assms] by blast
  obtain lv2 where g: "getBucket now (expiration C) key lv = Inr (lv2, None, [])" "levels_ok lv2"
    using getBucket_dead [OF d(2)] by blast
  have ok: "Cache_ok (C\<lparr>insts := (insts C)[?i := lv]\<rparr>)" "Cache_ok (C\<lparr>insts := (insts C)[?i := lv2]\<rparr>)"
    by (rule Cache_ok_update [OF assms], use d g deadBucket_ok in blast)+
  show ?thesis
    using d g ok bucketOf_less [OF assms, of key]
    by (auto simp: Del_def Get_def cacheGet_def Let_def not_le)
qed

theorem Del_Get_witness:
  "\<exists>C1 evs C2. Del ''k'' (NewLRUCache 4 8 [] :: nat Cache) = Inr (C1, evs) \<and> Cache_ok C1 \<and>
     Get 7 ''k'' C1 = Inr (C2, None) \<and> Cache_ok C2"
  by (rule Del_Get [OF NewLRUCache_spec [THEN conjunct1]]) simp_all

section \<open>What is put is found\<close>

lemma cachePut_spec:
  assumes "Cache_ok C"
  shows "\<exists>c0 evs ns. cachePut now key i b C =
      Inr (C\<lparr>insts := (insts C)[bucketOf C key := (c0, snd (insts C ! bucketOf C key))]\<rparr>, evs) \<and>
    represents c0 (\<lparr>nk = key, vi = i, vb = b, expireAt = i64 (now + expiration C)\<rparr> # ns) \<and> level_ok c0"
proof -
  have "level_ok (fst (insts C ! bucketOf C key))" using Cache_ok_bucket [OF assms] by (simp add: levels_ok_def)
  from level_put [OF this, of key i b "i64 (now + expiration C)"] show ?thesis
    using bucketOf_less [OF assms, of key] by (auto simp: cachePut_def Let_def not_le)
qed

text \<open>A level whose first entry has the key, in either mode.\<close>

lemma getBucket_front:
  assumes "represents c0 (nd # ns)" "level_ok c0" "nk nd = key" "0 < expireAt nd" "pred_option level_ok l1"
  shows "\<exists>lv r evs. getBucket now ex key (c0, l1) = Inr (lv, r, evs) \<and> levels_ok lv \<and>
    map_option (\<lambda>m. (vi m, vb m)) r =
      (if l1 \<noteq> None \<or> ex \<le> 0 \<or> now < expireAt nd then Some (vi nd, vb nd) else None)"
proof (cases l1)
  case None
  from level_get [OF assms(1), of now ex key] assms(2,3,4) None show ?thesis
    by (fastforce simp: level_ok_def getBucket_def levels_ok_def usable_def)
next
  case (Some c1)
  have "mem c0 \<noteq> []" using assms(2) by (simp add: level_ok_def)
  then obtain c0' where d: "cdel key c0 = Inr (c0', Some (nd\<lparr>expireAt := 0\<rparr>), expireAt nd)" "level_ok c0'"
    using level_del [OF assms(1), of key] assms(3,4) by (auto simp: lru_del_def)
  obtain c1' st evs where "cput key (vi nd) (vb nd) (expireAt nd) c1 = Inr (c1', st, evs)" "level_ok c1'"
    using level_put [of c1 key "vi nd" "vb nd" "expireAt nd"] assms(5) Some by auto
  then show ?thesis using d Some by (auto simp: getBucket_def levels_ok_def)
qed

lemma cachePut_cacheGet:
  assumes ok: "Cache_ok C" and pos: "0 < i64 (now + expiration C)"
  shows "\<exists>C1 evs C2 evs2. cachePut now key i b C = Inr (C1, evs) \<and> Cache_ok C1 \<and> Cache_ok C2 \<and>
    cacheGet now' key C1 =
      Inr (C2, if snd (insts C ! bucketOf C key) \<noteq> None \<or> expiration C \<le> 0 \<or> now' < i64 (now + expiration C)
               then Some (i, b) else None, evs2)"
proof -
  let ?i = "bucketOf C key" and ?e = "i64 (now + expiration C)"
  obtain c0 evs ns where p: "cachePut now key i b C = Inr (C\<lparr>insts := (insts C)[?i := (c0, snd (insts C ! ?i))]\<rparr>, evs)"
      "represents c0 (\<lparr>nk = key, vi = i, vb = b, expireAt = ?e\<rparr> # ns)" "level_ok c0"
    using cachePut_spec [OF ok] by blast
  have l1: "pred_option level_ok (snd (insts C ! ?i))" using Cache_ok_bucket [OF ok] by (simp add: levels_ok_def)
  obtain lv r evs2 where g: "getBucket now' (expiration C) key (c0, snd (insts C ! ?i)) = Inr (lv, r, evs2)"
      "levels_ok lv" "map_option (\<lambda>m. (vi m, vb m)) r =
        (if snd (insts C ! ?i) \<noteq> None \<or> expiration C \<le> 0 \<or> now' < ?e then Some (i, b) else None)"
    using getBucket_front [OF p(2,3) _ _ l1, of key now' "expiration C"] pos by auto
  have "levels_ok (c0, snd (insts C ! ?i))" using p(3) l1 by (simp add: levels_ok_def)
  then have ok1: "Cache_ok (C\<lparr>insts := (insts C)[?i := (c0, snd (insts C ! ?i))]\<rparr>)"
    by (rule Cache_ok_update [OF ok])
  have ok2: "Cache_ok (C\<lparr>insts := (insts C)[?i := lv]\<rparr>)" by (rule Cache_ok_update [OF ok g(2)])
  show ?thesis
    using p(1) ok1 ok2 g(1,3) bucketOf_less [OF ok, of key]
    by (cases r) (auto simp: cacheGet_def Let_def not_le split: if_splits)
qed

text \<open>
  C18: A value that was put is found, in both modes, with no panic and with the invariant kept. In
  the plain mode it is found until its time to live has passed and not afterwards; in the LRU-2
  mode it is returned by the first \<open>Get\<close> no matter how long ago it expired, because the lookup in
  the first level does not look at the expiry time.
\<close>

theorem Put_Get:
  assumes "Cache_ok C" and "0 < i64 (now + expiration C)"
  shows "\<exists>C1 evs C2. Put now key v C = Inr (C1, evs) \<and> Cache_ok C1 \<and> Cache_ok C2 \<and>
    Get now' key C1 =
      Inr (C2, if snd (insts C ! bucketOf C key) \<noteq> None \<or> expiration C \<le> 0 \<or> now' < i64 (now + expiration C)
               then Some v else None)"
proof -
  from cachePut_cacheGet [OF assms, of key "Some v" "[]" now'] show ?thesis
    by (fastforce simp: Put_def Get_def)
qed

theorem Put_Get_witness:
  "\<exists>C1 evs C2. Put 100 ''k'' (7 :: nat) (NewLRUCache 4 8 [50]) = Inr (C1, evs) \<and> Cache_ok C1 \<and> Cache_ok C2 \<and>
     Get 149 ''k'' C1 = Inr (C2, Some 7)"
  using Put_Get [OF NewLRUCache_spec [THEN conjunct1], of 4 8 100 "[50]" "''k''" "7 :: nat" 149]
  by (simp add: NewLRUCache_def Let_def i64_def)

lemma getLE_putLE: "0 \<le> u \<Longrightarrow> getLE (putLE k u) = u mod 256 ^ k"
proof (induction k arbitrary: u)
  case (Suc k)
  have "uint (word_of_int (u mod 256) :: 8 word) = u mod 256" by (simp add: uint_word_of_int)
  moreover have "getLE (putLE k (u div 256)) = u div 256 mod 256 ^ k" using Suc by simp
  ultimately show ?case by (simp add: mod_mult2_eq' zmod_zmult2_eq)
qed simp

lemma length_putLE [simp]: "length (putLE k u) = k"
  by (induction k arbitrary: u) auto

text \<open>
  Integers survive the byte encoding: \<open>GetInt64\<close> after \<open>PutInt64\<close> of any \<open>int64\<close> returns it,
  negative values included, while the entry has not expired.
\<close>

theorem PutInt64_GetInt64:
  assumes "Cache_ok C" and "0 < i64 (now + expiration C)" and "expiration C \<le> 0 \<or> now' < i64 (now + expiration C)"
    and "in_i64 d"
  shows "\<exists>C1 evs C2. PutInt64 now key d C = Inr (C1, evs) \<and> GetInt64 now' key C1 = Inr (C2, Some d) \<and> Cache_ok C2"
proof -
  have "getLE (putLE 8 (d mod 2 ^ 64)) = d mod 2 ^ 64" using getLE_putLE [of "d mod 2 ^ 64" 8] by simp
  then have "i64 (getLE (putLE 8 (d mod 2 ^ 64))) = d" using assms(4) by (simp add: i64_def in_i64_def mod_simps)
  then show ?thesis
    using cachePut_cacheGet [OF assms(1,2), of key None "putLE 8 (d mod 2 ^ 64)" now'] assms(3)
    by (fastforce simp: PutInt64_def GetInt64_def)
qed

theorem PutInt64_GetInt64_witness:
  "\<exists>C1 evs C2. PutInt64 5 ''k'' (-3) (NewLRUCache 4 8 [] :: nat Cache) = Inr (C1, evs) \<and>
     GetInt64 9 ''k'' C1 = Inr (C2, Some (-3)) \<and> Cache_ok C2"
  by (rule PutInt64_GetInt64 [OF NewLRUCache_spec [THEN conjunct1]])
    (simp_all add: NewLRUCache_def Let_def i64_def in_i64_def)

section \<open>No operation panics on a well-formed cache\<close>

lemma getLevel_ok: "level_ok c \<Longrightarrow> \<exists>c' r. getLevel now ex k c = Inr (c', r) \<and> level_ok c'"
  using level_get by (fastforce simp: level_ok_def)

lemma getBucket_ok:
  assumes "levels_ok lv"
  shows "\<exists>lv' r evs. getBucket now ex k lv = Inr (lv', r, evs) \<and> levels_ok lv' \<and> (snd lv' = None \<longleftrightarrow> snd lv = None)"
proof (cases "snd lv")
  case None
  then show ?thesis
    using getLevel_ok [of "fst lv" now ex k] assms by (cases lv) (auto simp: getBucket_def levels_ok_def)
next
  case (Some c1)
  have l: "level_ok (fst lv)" "level_ok c1" using assms Some by (simp_all add: levels_ok_def)
  then obtain ns where ns: "represents (fst lv) ns" "mem (fst lv) \<noteq> []" by (auto simp: level_ok_def)
  obtain c0' r e where d: "cdel k (fst lv) = Inr (c0', r, e)" "level_ok c0'"
    using level_del [OF ns, of k] by (metis prod.collapse)
  show ?thesis
  proof (cases r)
    case None
    then show ?thesis
      using d Some getLevel_ok [OF l(2), of now ex k] by (cases lv) (auto simp: getBucket_def levels_ok_def)
  next
    case (Some nd)
    then show ?thesis
      using d \<open>snd lv = Some c1\<close> level_put [OF l(2), of k "vi nd" "vb nd" e]
      by (cases lv) (auto simp: getBucket_def levels_ok_def)
  qed
qed

definition plain :: "'a Cache \<Rightarrow> bool" where
  "plain C \<longleftrightarrow> list_all (\<lambda>lv. snd lv = None) (insts C)"

lemma plain_update: "plain C \<Longrightarrow> snd lv = None \<Longrightarrow> plain (C\<lparr>insts := (insts C)[i := lv]\<rparr>)"
  by (auto simp: plain_def list_all_iff dest: set_update_subset_insert [THEN subsetD])

lemma plain_bucket: "Cache_ok C \<Longrightarrow> plain C \<Longrightarrow> snd (insts C ! bucketOf C key) = None"
  using bucketOf_less [of C key] by (simp add: plain_def list_all_length)

lemma Get_ok:
  assumes "Cache_ok C"
  shows "\<exists>C' r. Get now key C = Inr (C', r) \<and> Cache_ok C' \<and> expiration C' = expiration C \<and> (plain C \<longrightarrow> plain C')"
proof -
  let ?i = "bucketOf C key"
  obtain lv r evs where g: "getBucket now (expiration C) key (insts C ! ?i) = Inr (lv, r, evs)" "levels_ok lv"
      "snd lv = None \<longleftrightarrow> snd (insts C ! ?i) = None"
    using getBucket_ok [OF Cache_ok_bucket [OF assms, of key], of now "expiration C" key] by auto
  have "Cache_ok (C\<lparr>insts := (insts C)[?i := lv]\<rparr>)" by (rule Cache_ok_update [OF assms g(2)])
  moreover have "plain C \<longrightarrow> plain (C\<lparr>insts := (insts C)[?i := lv]\<rparr>)"
    using g(3) plain_bucket [OF assms, of key] plain_update [of C lv ?i] by simp
  moreover have "\<exists>x. Get now key C = Inr (C\<lparr>insts := (insts C)[?i := lv]\<rparr>, x)"
    using g(1) bucketOf_less [OF assms, of key]
    by (cases r; cases "vi (the r)") (auto simp: Get_def cacheGet_def Let_def not_le)
  ultimately show ?thesis by auto
qed

lemma Put_ok:
  assumes "Cache_ok C"
  shows "\<exists>C' evs. Put now key v C = Inr (C', evs) \<and> Cache_ok C' \<and> expiration C' = expiration C \<and> (plain C \<longrightarrow> plain C')"
proof -
  let ?i = "bucketOf C key"
  obtain c0 evs where p: "cachePut now key (Some v) [] C = Inr (C\<lparr>insts := (insts C)[?i := (c0, snd (insts C ! ?i))]\<rparr>, evs)"
      "level_ok c0"
    using cachePut_spec [OF assms] by blast
  have "levels_ok (c0, snd (insts C ! ?i))" using p(2) Cache_ok_bucket [OF assms, of key] by (simp add: levels_ok_def)
  then have "Cache_ok (C\<lparr>insts := (insts C)[?i := (c0, snd (insts C ! ?i))]\<rparr>)" by (rule Cache_ok_update [OF assms])
  moreover have "plain C \<longrightarrow> plain (C\<lparr>insts := (insts C)[?i := (c0, snd (insts C ! ?i))]\<rparr>)"
    using plain_bucket [OF assms, of key] plain_update [of C "(c0, snd (insts C ! ?i))" ?i] by simp
  ultimately show ?thesis using p(1) by (auto simp: Put_def)
qed

lemma plain_New: "plain (NewLRUCache cnt cap exps)"
  by (simp add: plain_def NewLRUCache_def Let_def list_all_iff)

section \<open>The clock\<close>

text \<open>
  The goroutine that keeps the internal clock: it copies the time of the system and then adds 100
  milliseconds after each of nine sleeps, before a tenth sleep ends the round. \<open>sleeps\<close> are the
  durations the sleeps really take; a round gives the pairs of the system's time and the clock at its
  updates, and ends at the time after the last sleep.
\<close>

fun clockTicks :: "int \<Rightarrow> int \<Rightarrow> int list \<Rightarrow> (int \<times> int) list" where
  "clockTicks real clk [] = []"
| "clockTicks real clk (d # ds) =
     (real + d, i64 (clk + 100000000)) # clockTicks (real + d) (i64 (clk + 100000000)) ds"

definition clockRound :: "int \<Rightarrow> int list \<Rightarrow> (int \<times> int) list \<times> int" where
  "clockRound real sleeps = ((real, real) # clockTicks real real (take 9 sleeps), real + sum_list (take 10 sleeps))"

text \<open>
  The clock is never ahead of the system, and behind it at an update by no more than the sleeps of
  this round took too long; so an entry never expires early.
\<close>

lemma clockTicks_lag:
  assumes "(t, c) \<in> set (clockTicks real clk ds)" "\<forall>d \<in> set ds. 100000000 \<le> d"
    and "clk \<le> real" "0 \<le> clk" "clk + 100000000 * int (length ds) < 2 ^ 63"
  shows "clk \<le> c \<and> c \<le> t \<and> t - c \<le> real - clk + sum_list (map (\<lambda>d. d - 100000000) ds)"
  using assms
proof (induction ds arbitrary: real clk)
  case (Cons d ds)
  have w: "i64 (clk + 100000000) = clk + 100000000" using Cons.prems(4,5) by (intro i64_id) (simp add: in_i64_def)
  have nn: "0 \<le> sum_list (map (\<lambda>d. d - 100000000) ds)" using Cons.prems(2) by (intro sum_list_nonneg) auto
  show ?case
  proof (cases "(t, c) \<in> set (clockTicks (real + d) (clk + 100000000) ds)")
    case True
    from Cons.IH [OF this] Cons.prems(2-5) show ?thesis by (simp add: algebra_simps)
  next
    case False
    then have "t = real + d" "c = clk + 100000000" using Cons.prems(1) w by simp_all
    then show ?thesis using Cons.prems(2,3) nn by simp
  qed
qed simp

lemma clock_not_ahead:
  assumes "(t, c) \<in> set (fst (clockRound real sleeps))" "\<forall>d \<in> set sleeps. 100000000 \<le> d" "0 \<le> real" "real < 2 ^ 62"
  shows "c \<le> t \<and> t - c \<le> sum_list (map (\<lambda>d. d - 100000000) (take 9 sleeps))"
proof -
  have s: "\<forall>d \<in> set (take 9 sleeps). 100000000 \<le> d" using assms(2) by (auto dest: in_set_takeD)
  then have "0 \<le> sum_list (map (\<lambda>d. d - 100000000) (take 9 sleeps))" by (intro sum_list_nonneg) auto
  moreover have "real + 100000000 * int (length (take 9 sleeps)) < 2 ^ 63" using assms(4) by simp
  ultimately show ?thesis
    using clockTicks_lag [OF _ s, of t c real real] assms(1,3) by (auto simp: clockRound_def)
qed

end
