(* ===== verification/Client.thy ===== *)
theory Client
  imports Prelude
begin

text \<open>
  The clients of \<open>src/client/client.go\<close>. Clients are objects that the code shares by pointer and
  recycles through a \<open>sync.Pool\<close>, so the model has a heap of client objects, the free list of the
  pool and the log of what happened on the network connections. What a websocket write or the
  closing of a connection returns is decided by the argument \<open>env\<close>, which stands for the library
  \<open>gobwas/ws\<close> and the network: it may depend on everything that happened before.

  The theorems say what \<open>SendMessage\<close> does on every branch, that the polling queue is bounded,
  keeps its order and never blocks the sender, when a client expires, and that the order of the
  two steps of \<open>Close\<close> lets the closing of one client close the connection of another.
\<close>

section \<open>Clients and their heap\<close>

definition POLLING_QUEUE_SIZE :: nat where
  "POLLING_QUEUE_SIZE = 30"

definition WS_EXPIRE_LIMIT :: int where
  "WS_EXPIRE_LIMIT = 11 * 60"

definition POLLING_EXPIRE_LIMIT :: int where
  "POLLING_EXPIRE_LIMIT = 3 * 60"

type_synonym conn = nat
type_synonym cref = nat

record client =
  Conn :: "conn option"
  PeerId :: string
  Timestamp :: int
  IsPolling :: bool
  MsgQueue :: "bytes chan option"

definition zeroClient :: client where
  "zeroClient = \<lparr>Conn = None, PeerId = [], Timestamp = 0, IsPolling = False, MsgQueue = None\<rparr>"

datatype netev = Written conn bytes | WriteFailed conn bytes | ConnClosed conn | RawWrite conn bytes

record cworld =
  heap :: "client list"
  pool :: "cref list"
  net :: "netev list"

record ws_env =
  wsWrite :: "netev list \<Rightarrow> conn \<Rightarrow> bytes \<Rightarrow> string option"
  wsClose :: "netev list \<Rightarrow> conn \<Rightarrow> string option"

definition obj :: "cworld \<Rightarrow> cref \<Rightarrow> client" where
  "obj w r = heap w ! r"

definition setObj :: "cref \<Rightarrow> client \<Rightarrow> cworld \<Rightarrow> cworld" where
  "setObj r c w = w\<lparr>heap := (heap w)[r := c]\<rparr>"

text \<open>
  \<open>clientPool.Get\<close>: the pool may hand out any object it holds or make a new one; \<open>pick\<close> is that
  choice.
\<close>

definition poolGet :: "nat \<Rightarrow> cworld \<Rightarrow> cref \<times> cworld" where
  "poolGet pick w =
     (if pick < length (pool w)
      then (pool w ! pick, w\<lparr>pool := take pick (pool w) @ drop (Suc pick) (pool w)\<rparr>)
      else (length (heap w), w\<lparr>heap := heap w @ [zeroClient]\<rparr>))"

definition poolPut :: "cref \<Rightarrow> cworld \<Rightarrow> cworld" where
  "poolPut r w = w\<lparr>pool := r # pool w\<rparr>"

section \<open>Operations\<close>

definition NewWebsocketPeerClient :: "nat \<Rightarrow> int \<Rightarrow> string \<Rightarrow> conn \<Rightarrow> cworld \<Rightarrow> cref \<times> cworld" where
  "NewWebsocketPeerClient pick now peerId conn w =
     (let (r, w1) = poolGet pick w
      in (r, setObj r \<lparr>Conn = Some conn, PeerId = peerId, Timestamp = now, IsPolling = False, MsgQueue = None\<rparr> w1))"

definition NewPollingPeerClient :: "nat \<Rightarrow> int \<Rightarrow> string \<Rightarrow> cworld \<Rightarrow> cref \<times> cworld" where
  "NewPollingPeerClient pick now peerId w =
     (let (r, w1) = poolGet pick w
      in (r, setObj r \<lparr>Conn = None, PeerId = peerId, Timestamp = now, IsPolling = True,
                       MsgQueue = Some (make_chan POLLING_QUEUE_SIZE)\<rparr> w1))"

definition UpdateTs :: "int \<Rightarrow> cref \<Rightarrow> cworld \<Rightarrow> cworld" where
  "UpdateTs now r w = setObj r ((obj w r)\<lparr>Timestamp := now\<rparr>) w"

definition IsExpired :: "int \<Rightarrow> client \<Rightarrow> bool" where
  "IsExpired now c =
     (if IsPolling c then i64 (now - Timestamp c) > POLLING_EXPIRE_LIMIT
      else i64 (now - Timestamp c) > WS_EXPIRE_LIMIT)"

text \<open>The results of the send methods: the error, if any, and whether it is fatal.\<close>

definition SendDataPolling :: "cref \<Rightarrow> bytes \<Rightarrow> cworld \<Rightarrow> (cworld \<times> string option \<times> bool) outcome" where
  "SendDataPolling r data w =
     (case MsgQueue (obj w r) of
        None \<Rightarrow> Blocks
      | Some q \<Rightarrow>
          if POLLING_QUEUE_SIZE \<le> chan_len q then Ret (w, Some ''msg queue exceed 30'', False)
          else case chan_send data q of
                 Sent q' \<Rightarrow> Ret (setObj r ((obj w r)\<lparr>MsgQueue := Some q'\<rparr>) w, None, False)
               | SendBlocks \<Rightarrow> Blocks
               | SendPanics \<Rightarrow> Panics SendOnClosed)"

definition SendDataWs :: "ws_env \<Rightarrow> cref \<Rightarrow> bytes \<Rightarrow> cworld \<Rightarrow> (cworld \<times> string option \<times> bool) outcome" where
  "SendDataWs env r data w =
     (case Conn (obj w r) of
        None \<Rightarrow> Panics NilDereference
      | Some c \<Rightarrow>
          (case wsWrite env (net w) c data of
             Some err \<Rightarrow> Ret (w\<lparr>net := net w @ [WriteFailed c data]\<rparr>, Some err, True)
           | None \<Rightarrow> Ret (w\<lparr>net := net w @ [Written c data]\<rparr>, None, False)))"

definition SendMessage :: "ws_env \<Rightarrow> cref \<Rightarrow> bytes \<Rightarrow> cworld \<Rightarrow> (cworld \<times> string option \<times> bool) outcome" where
  "SendMessage env r msg w =
     (if IsPolling (obj w r) then SendDataPolling r msg w else SendDataWs env r msg w)"

record SignalCloseResp =
  scAction :: string
  scFromPeerId :: string
  scReason :: string

record SignalVerResp =
  svAction :: string
  svVer :: int

text \<open>\<open>marshal\<close> stands for \<open>sonic.Marshal\<close> on the type of the response.\<close>

definition SendMsgClose ::
    "ws_env \<Rightarrow> (SignalCloseResp \<Rightarrow> string + bytes) \<Rightarrow> string \<Rightarrow> cref \<Rightarrow> cworld \<Rightarrow> (cworld \<times> string option) outcome" where
  "SendMsgClose env marshal reason r w =
     (case marshal \<lparr>scAction = ''close'', scFromPeerId = [], scReason = reason\<rparr> of
        Inl err \<Rightarrow> Ret (w, Some err)
      | Inr b \<Rightarrow> obind (SendMessage env r b w) (\<lambda>(w', err, _). Ret (w', err)))"

definition SendMsgVersion ::
    "ws_env \<Rightarrow> (SignalVerResp \<Rightarrow> string + bytes) \<Rightarrow> int \<Rightarrow> cref \<Rightarrow> cworld \<Rightarrow> (cworld \<times> string option) outcome" where
  "SendMsgVersion env marshal version r w =
     (case marshal \<lparr>svAction = ''ver'', svVer = version\<rparr> of
        Inl err \<Rightarrow> Ret (w, Some err)
      | Inr b \<Rightarrow> obind (SendMessage env r b w) (\<lambda>(w', err, _). Ret (w', err)))"

text \<open>
  \<open>Close\<close> first gives the object back to the pool and then reads it again to close the connection.
  Other goroutines can run between the two, so the second part is a definition of its own.
\<close>

definition closeConn :: "ws_env \<Rightarrow> cref \<Rightarrow> cworld \<Rightarrow> (cworld \<times> string option) outcome" where
  "closeConn env r w =
     (if IsPolling (obj w r) then Ret (w, None)
      else case Conn (obj w r) of
             None \<Rightarrow> Panics NilDereference
           | Some c \<Rightarrow> Ret (w\<lparr>net := net w @ [ConnClosed c]\<rparr>, wsClose env (net w) c))"

definition Close :: "ws_env \<Rightarrow> cref \<Rightarrow> cworld \<Rightarrow> (cworld \<times> string option) outcome" where
  "Close env r w = closeConn env r (poolPut r w)"

section \<open>The invariant\<close>

text \<open>
  A polling client has an open queue of the fixed capacity, a websocket client has a connection;
  the pool holds each of its objects once.
\<close>

definition queue_ok :: "bytes chan \<Rightarrow> bool" where
  "queue_ok q \<longleftrightarrow> chcap q = POLLING_QUEUE_SIZE \<and> chan_ok q \<and> \<not> chclosed q"

definition client_ok :: "client \<Rightarrow> bool" where
  "client_ok c \<longleftrightarrow>
     (if IsPolling c then (case MsgQueue c of None \<Rightarrow> False | Some q \<Rightarrow> queue_ok q) else Conn c \<noteq> None)"

definition cworld_ok :: "cworld \<Rightarrow> bool" where
  "cworld_ok w \<longleftrightarrow> list_all client_ok (heap w) \<and> distinct (pool w) \<and> list_all (\<lambda>r. r < length (heap w)) (pool w)"

definition queue :: "cworld \<Rightarrow> cref \<Rightarrow> bytes list" where
  "queue w r = (case MsgQueue (obj w r) of None \<Rightarrow> [] | Some q \<Rightarrow> chbuf q)"

lemma setObj_simps [simp]:
  "pool (setObj r c w) = pool w" "net (setObj r c w) = net w" "length (heap (setObj r c w)) = length (heap w)"
  by (simp_all add: setObj_def)

lemma obj_setObj: "r < length (heap w) \<Longrightarrow> obj (setObj r c w) s = (if s = r then c else obj w s)"
  by (simp add: obj_def setObj_def)

lemma obj_net [simp]: "obj (w\<lparr>net := N\<rparr>) r = obj w r"
  by (simp add: obj_def)

lemma obj_pool [simp]: "obj (w\<lparr>pool := P\<rparr>) r = obj w r"
  by (simp add: obj_def)

lemma obj_poolPut [simp]: "obj (poolPut r w) s = obj w s"
  by (simp add: poolPut_def)

lemma cworld_ok_obj: "cworld_ok w \<Longrightarrow> r < length (heap w) \<Longrightarrow> client_ok (obj w r)"
  by (simp add: cworld_ok_def obj_def list_all_length)

lemma cworld_ok_setObj: "cworld_ok w \<Longrightarrow> client_ok c \<Longrightarrow> cworld_ok (setObj r c w)"
  by (auto simp: cworld_ok_def setObj_def list_all_iff dest: set_update_subset_insert [THEN subsetD])

lemma cworld_ok_net [simp]: "cworld_ok (w\<lparr>net := N\<rparr>) \<longleftrightarrow> cworld_ok w"
  by (simp add: cworld_ok_def)

lemma queue_ok_make: "queue_ok (make_chan POLLING_QUEUE_SIZE)"
  by (simp add: queue_ok_def chan_ok_make) (simp add: make_chan_def)

text \<open>A new client is an object that is in use nowhere else, given that the pool holds free objects only.\<close>

lemma poolGet_fresh:
  assumes "distinct (pool w)" "list_all (\<lambda>r. r < length (heap w)) (pool w)" "poolGet pick w = (r, w1)"
  shows "r \<notin> set (pool w1)" "r < length (heap w1)" "set (pool w1) \<subseteq> set (pool w)"
    "distinct (pool w1)" "length (heap w) \<le> length (heap w1)"
    "r \<in> set (pool w) \<or> r = length (heap w)" "net w1 = net w"
    "\<And>s. s \<noteq> r \<Longrightarrow> s < length (heap w) \<Longrightarrow> obj w1 s = obj w s"
    "list_all client_ok (heap w) \<Longrightarrow> client_ok c \<Longrightarrow> list_all client_ok ((heap w1)[r := c])"
proof -
  have cases: "pick < length (pool w) \<and> r = pool w ! pick \<and>
      w1 = w\<lparr>pool := take pick (pool w) @ drop (Suc pick) (pool w)\<rparr> \<or>
      r = length (heap w) \<and> w1 = w\<lparr>heap := heap w @ [zeroClient]\<rparr>"
    using assms(3) by (auto simp: poolGet_def split: if_splits)
  have "distinct (take pick (pool w) @ pool w ! pick # drop (Suc pick) (pool w))" if "pick < length (pool w)"
    using assms(1) id_take_nth_drop [OF that] by metis
  then show "r \<notin> set (pool w1)" "distinct (pool w1)"
    using cases assms(1,2) by (auto simp: list_all_iff)
  show "r < length (heap w1)" "set (pool w1) \<subseteq> set (pool w)" "length (heap w) \<le> length (heap w1)"
    "r \<in> set (pool w) \<or> r = length (heap w)" "net w1 = net w"
    using cases assms(2) by (auto simp: list_all_iff dest: in_set_takeD in_set_dropD)
  show "obj w1 s = obj w s" if "s \<noteq> r" "s < length (heap w)" for s
    using cases that by (auto simp: obj_def nth_append)
  show "list_all client_ok ((heap w1)[r := c])" if "list_all client_ok (heap w)" "client_ok c"
    using cases that by (auto simp: list_all_iff dest: set_update_subset_insert [THEN subsetD])
qed

lemma new_client:
  assumes "cworld_ok w" "poolGet pick w = (r, w1)" "client_ok c"
  shows "cworld_ok (setObj r c w1)" "obj (setObj r c w1) r = c" "r < length (heap (setObj r c w1))"
    "r \<notin> set (pool (setObj r c w1))"
    "\<And>s. s \<noteq> r \<Longrightarrow> s < length (heap w) \<Longrightarrow> obj (setObj r c w1) s = obj w s"
    "set (pool (setObj r c w1)) \<subseteq> set (pool w)" "length (heap w) \<le> length (heap (setObj r c w1))"
    "net (setObj r c w1) = net w" "r \<in> set (pool w) \<or> r = length (heap w)"
proof -
  have w: "distinct (pool w)" "list_all (\<lambda>r. r < length (heap w)) (pool w)" "list_all client_ok (heap w)"
    using assms(1) by (simp_all add: cworld_ok_def)
  note F = poolGet_fresh [OF w(1,2) assms(2)]
  show "cworld_ok (setObj r c w1)"
    using F(3,4,5) F(9) [OF w(3) assms(3)] w(2)
    by (auto simp: cworld_ok_def setObj_def list_all_iff subset_iff intro: less_le_trans)
qed (use poolGet_fresh [OF _ _ assms(2)] assms(1) in \<open>auto simp: cworld_ok_def obj_setObj\<close>)

lemma client_ok_new:
  "client_ok \<lparr>Conn = Some c, PeerId = p, Timestamp = t, IsPolling = False, MsgQueue = Q\<rparr>"
  "client_ok \<lparr>Conn = C, PeerId = p, Timestamp = t, IsPolling = True, MsgQueue = Some (make_chan POLLING_QUEUE_SIZE)\<rparr>"
  by (simp_all add: client_ok_def queue_ok_make)

section \<open>Sending\<close>

lemma send_polling:
  assumes "cworld_ok w" "r < length (heap w)" "IsPolling (obj w r)"
  shows "\<exists>q. MsgQueue (obj w r) = Some q \<and> queue_ok q \<and> queue w r = chbuf q \<and>
    SendMessage env r msg w =
      (if length (queue w r) < POLLING_QUEUE_SIZE
       then Ret (setObj r ((obj w r)\<lparr>MsgQueue := Some (q\<lparr>chbuf := chbuf q @ [msg]\<rparr>)\<rparr>) w, None, False)
       else Ret (w, Some ''msg queue exceed 30'', False))"
proof -
  have "client_ok (obj w r)" by (rule cworld_ok_obj [OF assms(1,2)])
  then obtain q where "MsgQueue (obj w r) = Some q" "queue_ok q"
    using assms(3) by (auto simp: client_ok_def split: option.splits)
  then show ?thesis
    using assms(3) by (auto simp: SendMessage_def SendDataPolling_def queue_def chan_len_def queue_ok_def chan_send_def)
qed

lemma queue_push:
  "r < length (heap w) \<Longrightarrow> queue (setObj r ((obj w r)\<lparr>MsgQueue := Some q\<rparr>) w) r = chbuf q"
  by (simp add: queue_def obj_setObj)

lemma client_ok_push:
  assumes "client_ok c" "IsPolling c" "MsgQueue c = Some q" "length (chbuf q) < POLLING_QUEUE_SIZE"
  shows "client_ok (c\<lparr>MsgQueue := Some (q\<lparr>chbuf := chbuf q @ [msg]\<rparr>)\<rparr>)"
  using assms by (simp add: client_ok_def queue_ok_def chan_ok_def)

text \<open>The shared part of the proofs about \<open>SendMessage\<close>: it returns, keeps the invariant and touches one client.\<close>

lemma SendMessage_spec:
  assumes ok: "cworld_ok w" and r: "r < length (heap w)"
  obtains w' err fatal where "SendMessage env r msg w = Ret (w', err, fatal)" "cworld_ok w'"
    "pool w' = pool w" "length (heap w') = length (heap w)" "\<And>s. s \<noteq> r \<Longrightarrow> obj w' s = obj w s"
    "obj w' r = (obj w r)\<lparr>MsgQueue := MsgQueue (obj w' r)\<rparr>"
    "IsPolling (obj w r) \<Longrightarrow> net w' = net w \<and> \<not> fatal \<and>
      (if length (queue w r) < POLLING_QUEUE_SIZE then err = None \<and> queue w' r = queue w r @ [msg]
       else err \<noteq> None \<and> w' = w)"
    "\<not> IsPolling (obj w r) \<Longrightarrow> heap w' = heap w \<and> (fatal \<longleftrightarrow> err \<noteq> None) \<and>
      net w' = net w @ [(if fatal then WriteFailed else Written) (the (Conn (obj w r))) msg]"
proof (cases "IsPolling (obj w r)")
  case True
  obtain q where q: "MsgQueue (obj w r) = Some q" "queue w r = chbuf q" and send: "SendMessage env r msg w =
      (if length (queue w r) < POLLING_QUEUE_SIZE
       then Ret (setObj r ((obj w r)\<lparr>MsgQueue := Some (q\<lparr>chbuf := chbuf q @ [msg]\<rparr>)\<rparr>) w, None, False)
       else Ret (w, Some ''msg queue exceed 30'', False))"
    using send_polling [OF ok r True] by metis
  show thesis
  proof (cases "length (queue w r) < POLLING_QUEUE_SIZE")
    case small: True
    then have "client_ok ((obj w r)\<lparr>MsgQueue := Some (q\<lparr>chbuf := chbuf q @ [msg]\<rparr>)\<rparr>)"
      using client_ok_push [OF cworld_ok_obj [OF ok r] True q(1)] q(2) by simp
    note k = cworld_ok_setObj [OF ok this, of r]
    show thesis
      by (rule that [of "setObj r ((obj w r)\<lparr>MsgQueue := Some (q\<lparr>chbuf := chbuf q @ [msg]\<rparr>)\<rparr>) w" None False])
        (use send k True small r q queue_push [OF r] in \<open>auto simp: obj_setObj\<close>)
  next
    case False
    show thesis
      by (rule that [of w "Some ''msg queue exceed 30''" False]) (use send True False ok in auto)
  qed
next
  case False
  then obtain c where c: "Conn (obj w r) = Some c"
    using cworld_ok_obj [OF ok r] by (auto simp: client_ok_def split: if_splits)
  let ?e = "wsWrite env (net w) c msg"
  show thesis
    by (rule that [of "w\<lparr>net := net w @ [(if ?e \<noteq> None then WriteFailed else Written) c msg]\<rparr>" ?e "?e \<noteq> None"])
      (use False c ok in \<open>auto simp: SendMessage_def SendDataWs_def split: option.splits\<close>)
qed

text \<open>
  \<open>SendMessage\<close> on a well-formed heap never blocks and never panics, keeps the invariant and
  changes no other client. For a polling client with room the message goes to the end of the queue;
  with a full queue the error is not fatal and nothing changes. For a websocket client one frame
  goes to its own connection, and an error is always reported as fatal.
\<close>

theorem SendMessage_correct:
  assumes "cworld_ok w" and "r < length (heap w)"
  shows "\<exists>w' err fatal. SendMessage env r msg w = Ret (w', err, fatal) \<and> cworld_ok w' \<and>
    (\<forall>s. s \<noteq> r \<longrightarrow> obj w' s = obj w s) \<and>
    (if IsPolling (obj w r)
     then net w' = net w \<and> \<not> fatal \<and>
       (if length (queue w r) < POLLING_QUEUE_SIZE then err = None \<and> queue w' r = queue w r @ [msg]
        else err \<noteq> None \<and> w' = w)
     else heap w' = heap w \<and> (fatal \<longleftrightarrow> err \<noteq> None) \<and>
       net w' = net w @ [(if fatal then WriteFailed else Written) (the (Conn (obj w r))) msg])"
  by (rule SendMessage_spec [OF assms, of env msg]) auto

definition quietEnv :: ws_env where
  "quietEnv = \<lparr>wsWrite = \<lambda>_ _ _. None, wsClose = \<lambda>_ _. None\<rparr>"

definition demoWorld :: cworld where
  "demoWorld = snd (NewWebsocketPeerClient 0 100 ''peer-b'' 7 (snd (NewPollingPeerClient 0 100 ''peer-a''
     \<lparr>heap = [], pool = [], net = []\<rparr>)))"

lemma demoWorld_eq:
  "demoWorld = \<lparr>heap =
     [\<lparr>Conn = None, PeerId = ''peer-a'', Timestamp = 100, IsPolling = True, MsgQueue = Some (make_chan 30)\<rparr>,
      \<lparr>Conn = Some 7, PeerId = ''peer-b'', Timestamp = 100, IsPolling = False, MsgQueue = None\<rparr>],
     pool = [], net = []\<rparr>"
  by (simp add: demoWorld_def NewWebsocketPeerClient_def NewPollingPeerClient_def poolGet_def setObj_def
    POLLING_QUEUE_SIZE_def)

lemma demoWorld_ok: "cworld_ok demoWorld"
  using client_ok_new(2) [unfolded POLLING_QUEUE_SIZE_def]
  by (simp add: demoWorld_eq cworld_ok_def client_ok_new)

theorem SendMessage_correct_witness:
  "\<exists>w' err fatal. SendMessage quietEnv 0 ''hi'' demoWorld = Ret (w', err, fatal) \<and> err = None \<and>
     queue w' 0 = [''hi'']"
  using SendMessage_correct [OF demoWorld_ok, of 0 quietEnv "''hi''"]
  by (auto simp: demoWorld_eq obj_def queue_def make_chan_def POLLING_QUEUE_SIZE_def)

text \<open>A burst of messages to one client, with the error of each.\<close>

fun sendAll :: "ws_env \<Rightarrow> cref \<Rightarrow> bytes list \<Rightarrow> cworld \<Rightarrow> (cworld \<times> bool list) outcome" where
  "sendAll env r [] w = Ret (w, [])"
| "sendAll env r (m # ms) w =
     obind (SendMessage env r m w) (\<lambda>(w1, err, _).
     obind (sendAll env r ms w1) (\<lambda>(w2, errs). Ret (w2, (err = None) # errs)))"

text \<open>
  The polling queue is bounded and keeps its order: whatever is sent to a polling client that
  nobody polls, the queue holds the earliest messages in the order they were sent, at most 30; the
  later ones are refused, and each sender learns whether its message was taken.
\<close>

theorem polling_queue_keeps_first:
  assumes "cworld_ok w" and "r < length (heap w)" and "IsPolling (obj w r)"
  shows "\<exists>w' acc. sendAll env r ms w = Ret (w', acc) \<and>
    queue w' r = take POLLING_QUEUE_SIZE (queue w r @ ms) \<and>
    acc = map (\<lambda>i. length (queue w r) + i < POLLING_QUEUE_SIZE) [0..<length ms]"
  using assms
proof (induction ms arbitrary: w)
  case Nil
  then have "length (queue w r) \<le> POLLING_QUEUE_SIZE"
    using cworld_ok_obj [of w r]
    by (auto simp: queue_def client_ok_def queue_ok_def chan_ok_def split: option.splits)
  then show ?case by simp
next
  case (Cons m ms)
  from SendMessage_spec [OF Cons.prems(1,2), of env m]
  obtain w1 err fatal where s: "SendMessage env r m w = Ret (w1, err, fatal)" "cworld_ok w1"
      "length (heap w1) = length (heap w)" "obj w1 r = (obj w r)\<lparr>MsgQueue := MsgQueue (obj w1 r)\<rparr>"
      "if length (queue w r) < POLLING_QUEUE_SIZE then err = None \<and> queue w1 r = queue w r @ [m]
       else err \<noteq> None \<and> w1 = w"
    using Cons.prems(3) by metis
  have p: "r < length (heap w1)" "IsPolling (obj w1 r)"
    using s(3) s(4) Cons.prems(2,3) by (simp, metis client.select_convs(4) client.surjective client.update_convs(5))
  obtain w' acc where i: "sendAll env r ms w1 = Ret (w', acc)"
      "queue w' r = take POLLING_QUEUE_SIZE (queue w1 r @ ms)"
      "acc = map (\<lambda>i. length (queue w1 r) + i < POLLING_QUEUE_SIZE) [0..<length ms]"
    using Cons.IH [OF s(2) p] by blast
  have u: "[0..<length (m # ms)] = 0 # map Suc [0..<length ms]"
    by (simp add: upt_conv_Cons map_Suc_upt del: upt_Suc)
  show ?case
  proof (cases "length (queue w r) < POLLING_QUEUE_SIZE")
    case True
    then show ?thesis using s(1,5) i u by (simp add: comp_def)
  next
    case False
    then show ?thesis using s(1,5) i u by (simp add: comp_def)
  qed
qed

theorem polling_queue_keeps_first_witness:
  "\<exists>w' acc. sendAll quietEnv 0 (replicate 31 ''m'') demoWorld = Ret (w', acc) \<and>
     length (queue w' 0) = 30 \<and> acc ! 30 = False"
proof -
  have "\<exists>w' acc. sendAll quietEnv 0 (replicate 31 ''m'') demoWorld = Ret (w', acc) \<and>
    queue w' 0 = take POLLING_QUEUE_SIZE (queue demoWorld 0 @ replicate 31 ''m'') \<and>
    acc = map (\<lambda>i. length (queue demoWorld 0) + i < POLLING_QUEUE_SIZE) [0..<length (replicate 31 ''m'')]"
    by (rule polling_queue_keeps_first [OF demoWorld_ok]) (simp_all add: demoWorld_eq obj_def)
  then obtain w' acc where "sendAll quietEnv 0 (replicate 31 ''m'') demoWorld = Ret (w', acc)"
      "length (queue w' 0) = 30" "acc ! 30 = False"
    by (auto simp: queue_def obj_def demoWorld_eq make_chan_def POLLING_QUEUE_SIZE_def)
  then show ?thesis by blast
qed

section \<open>Expiry\<close>

text \<open>
  A client lives exactly as long as its kind allows after its last activity: with a clock that
  fits \<open>int64\<close>, a client whose time stamp was updated at \<open>t\<close> counts as expired at \<open>now\<close> when more than
  180 seconds (polling) or 660 seconds (websocket) have passed, and not before.
\<close>

theorem IsExpired_exact:
  assumes "r < length (heap w)" and "0 \<le> t" and "t \<le> now" and "in_i64 now"
  shows "IsExpired now (obj (UpdateTs t r w) r) \<longleftrightarrow>
    t + (if IsPolling (obj w r) then 180 else 660) < now"
proof -
  have "in_i64 (now - t)" using assms by (simp add: in_i64_def)
  then show ?thesis
    using assms(1)
    by (auto simp: IsExpired_def UpdateTs_def obj_setObj i64_id POLLING_EXPIRE_LIMIT_def WS_EXPIRE_LIMIT_def)
qed

theorem IsExpired_exact_witness:
  "IsExpired 281 (obj (UpdateTs 100 0 demoWorld) 0) \<and> \<not> IsExpired 760 (obj (UpdateTs 100 1 demoWorld) 1)"
  using IsExpired_exact [of 0 demoWorld 100 281] IsExpired_exact [of 1 demoWorld 100 760]
  by (simp add: demoWorld_eq obj_def in_i64_def)

section \<open>Closing\<close>

lemma Close_spec:
  assumes ok: "cworld_ok w" and r: "r < length (heap w)" and free: "r \<notin> set (pool w)"
  shows "\<exists>w' err. Close env r w = Ret (w', err) \<and> cworld_ok w' \<and> heap w' = heap w \<and> pool w' = r # pool w \<and>
    net w' = (if IsPolling (obj w r) then net w else net w @ [ConnClosed (the (Conn (obj w r)))])"
proof -
  have "cworld_ok (poolPut r w)"
    using ok r free by (simp add: cworld_ok_def poolPut_def)
  moreover have "IsPolling (obj w r) \<or> Conn (obj w r) \<noteq> None"
    using cworld_ok_obj [OF ok r] by (auto simp: client_ok_def split: if_splits)
  ultimately show ?thesis
    by (auto simp: Close_def closeConn_def poolPut_def split: option.splits)
qed

text \<open>
  \<open>Close\<close> releases the object before it reads the connection from it. If another goroutine
  creates a websocket client in between and the pool hands it that object, the closing goroutine
  closes the connection of the new client and leaves its own open.
\<close>

theorem Close_closes_new_client:
  assumes "r < length (heap w)" and "Conn (obj w r) = Some old" and "\<not> IsPolling (obj w r)"
  shows "\<exists>w1 w2 err. NewWebsocketPeerClient 0 now peer new (poolPut r w) = (r, w1) \<and>
    closeConn env r w1 = Ret (w2, err) \<and> net w2 = net w @ [ConnClosed new] \<and>
    PeerId (obj w2 r) = peer \<and> Conn (obj w2 r) = Some new"
  using assms
  by (simp add: NewWebsocketPeerClient_def poolGet_def poolPut_def closeConn_def obj_setObj)

theorem Close_closes_new_client_witness:
  "\<exists>w1 w2 err. NewWebsocketPeerClient 0 105 ''peer-c'' 8 (poolPut 1 demoWorld) = (1, w1) \<and>
     closeConn quietEnv 1 w1 = Ret (w2, err) \<and> net w2 = net demoWorld @ [ConnClosed 8] \<and>
     PeerId (obj w2 1) = ''peer-c'' \<and> Conn (obj w2 1) = Some 8"
  by (rule Close_closes_new_client [of 1 demoWorld 7]) (simp_all add: demoWorld_eq obj_def)

lemma double_close_aliases:
  assumes "r < length (heap w)"
  shows "\<exists>w1 w2. NewPollingPeerClient 0 t1 p1 (poolPut r (poolPut r w)) = (r, w1) \<and>
    NewPollingPeerClient 0 t2 p2 w1 = (r, w2)"
  using assms by (simp add: NewPollingPeerClient_def poolGet_def poolPut_def setObj_def)

end
