(* ===== verification/GoStrings.thy ===== *)
theory GoStrings
  imports Prelude
begin

text \<open>
  The functions of Go's packages \<open>strconv\<close> and \<open>strings\<close> that the program uses: parsing and
  printing of decimal integers, splitting on a one-byte separator, trimming and splitting at white
  space. The lemmas give the round trips between printing and parsing and between joining and
  splitting.
\<close>

section \<open>Decimal integers\<close>

datatype num_err = ErrSyntax | ErrRange

definition is_digit :: "char \<Rightarrow> bool" where
  "is_digit c \<longleftrightarrow> 48 \<le> (of_char c :: nat) \<and> (of_char c :: nat) \<le> 57"

definition digit_val :: "char \<Rightarrow> nat" where
  "digit_val c = of_char c - 48"

definition digit_char :: "nat \<Rightarrow> char" where
  "digit_char d = char_of (48 + d)"

text \<open>The loop of \<open>strconv.ParseUint\<close> with base 10: the first bad digit or the first overflow decides.\<close>

fun parseDigits :: "nat \<Rightarrow> nat \<Rightarrow> string \<Rightarrow> num_err + nat" where
  "parseDigits maxVal acc [] = Inr acc"
| "parseDigits maxVal acc (c # cs) =
     (if \<not> is_digit c then Inl ErrSyntax
      else if maxVal < acc * 10 + digit_val c then Inl ErrRange
      else parseDigits maxVal (acc * 10 + digit_val c) cs)"

definition ParseUint64 :: "string \<Rightarrow> num_err + nat" where
  "ParseUint64 s = (if s = [] then Inl ErrSyntax else parseDigits (2 ^ 64 - 1) 0 s)"

text \<open>\<open>strconv.ParseInt(s, 10, 64)\<close>: the value it returns and the error; out of range the value is the nearest one.\<close>

definition ParseInt64 :: "string \<Rightarrow> int \<times> num_err option" where
  "ParseInt64 s =
     (let neg = (s \<noteq> [] \<and> hd s = CHR ''-'');
          body = (if s \<noteq> [] \<and> (hd s = CHR ''-'' \<or> hd s = CHR ''+'') then tl s else s)
      in case (if s = [] then Inl ErrSyntax else ParseUint64 body) of
           Inl ErrSyntax \<Rightarrow> (0, Some ErrSyntax)
         | Inl ErrRange \<Rightarrow> (if neg then - (2 ^ 63) else 2 ^ 63 - 1, Some ErrRange)
         | Inr un \<Rightarrow>
             if \<not> neg \<and> 2 ^ 63 \<le> un then (2 ^ 63 - 1, Some ErrRange)
             else if neg \<and> 2 ^ 63 < un then (- (2 ^ 63), Some ErrRange)
             else (if neg then - int un else int un, None))"

definition Atoi :: "string \<Rightarrow> int \<times> num_err option" where
  "Atoi s = ParseInt64 s"

fun showNat :: "nat \<Rightarrow> string" where
  "showNat k = (if k < 10 then [digit_char k] else showNat (k div 10) @ [digit_char (k mod 10)])"

declare showNat.simps [simp del]

definition FormatInt :: "int \<Rightarrow> string" where
  "FormatInt i = (if i < 0 then ''-'' @ showNat (nat (- i)) else showNat (nat i))"

lemma digit_char_val: "d < 10 \<Longrightarrow> is_digit (digit_char d) \<and> digit_val (digit_char d) = d"
  by (simp add: is_digit_def digit_val_def digit_char_def)

lemma parseDigits_append:
  "parseDigits m a (xs @ ys) = (case parseDigits m a xs of Inl e \<Rightarrow> Inl e | Inr b \<Rightarrow> parseDigits m b ys)"
  by (induction m a xs rule: parseDigits.induct) auto

lemma parse_showNat: "k \<le> m \<Longrightarrow> parseDigits m 0 (showNat k) = Inr k"
proof (induction k rule: showNat.induct)
  case (1 k)
  show ?case
  proof (cases "k < 10")
    case True
    then show ?thesis using 1(2) digit_char_val [of k] by (simp add: showNat.simps)
  next
    case False
    then have "parseDigits m 0 (showNat (k div 10)) = Inr (k div 10)"
      using 1 by (meson div_le_dividend le_trans)
    then show ?thesis
      using False 1(2) digit_char_val [of "k mod 10"]
      by (subst showNat.simps) (simp add: parseDigits_append)
  qed
qed

lemma showNat_digits: "c \<in> set (showNat k) \<Longrightarrow> is_digit c"
proof (induction k rule: showNat.induct)
  case (1 k)
  then show ?case
    using digit_char_val [of k] digit_char_val [of "k mod 10"]
    by (subst (asm) (2) showNat.simps) (auto split: if_splits)
qed

lemma showNat_ne [simp]: "showNat k \<noteq> []"
  by (subst showNat.simps) simp

lemma sign_not_digit: "\<not> is_digit CHR ''-''" "\<not> is_digit CHR ''+''"
  by (simp_all add: is_digit_def)

lemma ParseInt64_FormatInt: "in_i64 i \<Longrightarrow> ParseInt64 (FormatInt i) = (i, None)"
proof -
  assume i: "in_i64 i"
  have hd: "hd (showNat k) \<noteq> CHR ''-''" "hd (showNat k) \<noteq> CHR ''+''" for k
    using showNat_digits [of "hd (showNat k)" k] sign_not_digit by (auto simp: hd_in_set)
  have p: "ParseUint64 (showNat k) = Inr k" if "k \<le> 2 ^ 64 - 1" for k
    using parse_showNat [OF that] by (simp add: ParseUint64_def)
  show ?thesis
  proof (cases "i < 0")
    case True
    then show ?thesis
      using i p [of "nat (- i)"] by (simp add: ParseInt64_def FormatInt_def in_i64_def Let_def)
  next
    case False
    then show ?thesis
      using i hd p [of "nat i"] by (simp add: ParseInt64_def FormatInt_def in_i64_def Let_def)
  qed
qed

section \<open>Splitting and trimming\<close>

text \<open>\<open>strings.Split\<close> with a separator of one byte.\<close>

fun Split :: "char \<Rightarrow> string \<Rightarrow> string list" where
  "Split sep [] = [[]]"
| "Split sep (c # cs) =
     (if c = sep then [] # Split sep cs else case Split sep cs of [] \<Rightarrow> [[c]] | x # xs \<Rightarrow> (c # x) # xs)"

fun joinWith :: "char \<Rightarrow> string list \<Rightarrow> string" where
  "joinWith sep [] = []"
| "joinWith sep [x] = x"
| "joinWith sep (x # y # ys) = x @ sep # joinWith sep (y # ys)"

lemma Split_ne [simp]: "Split sep s \<noteq> []"
  by (cases s) (auto split: list.splits)

lemma Split_no_sep: "x \<in> set (Split sep s) \<Longrightarrow> sep \<notin> set x"
proof (induction s arbitrary: x)
  case (Cons c s)
  then show ?case by (cases "Split sep s") (auto split: if_splits list.splits)
qed simp

lemma join_Split: "joinWith sep (Split sep s) = s"
proof (induction s)
  case (Cons c s)
  then show ?case by (cases "Split sep s" rule: remdups_adj.cases) auto
qed simp

lemma Split_single: "sep \<notin> set x \<Longrightarrow> Split sep x = [x]"
  by (induction x) auto

lemma Split_Cons: "sep \<notin> set x \<Longrightarrow> Split sep (x @ sep # ys) = x # Split sep ys"
  by (induction x) auto

lemma Split_join: "xs \<noteq> [] \<Longrightarrow> \<forall>x \<in> set xs. sep \<notin> set x \<Longrightarrow> Split sep (joinWith sep xs) = xs"
  by (induction xs rule: joinWith.induct) (auto simp: Split_single Split_Cons)

text \<open>
  White space is what \<open>unicode.IsSpace\<close> accepts: six ASCII characters and nineteen code points that take two
  or three bytes in UTF-8. No byte of another character and no invalid byte can begin such a
  sequence, so it is found by comparing bytes. \<open>spaceLen\<close> is the number of bytes of the white space at
  the start of a string; the same function on reversed sequences serves the end of a string.
\<close>

definition is_space :: "char \<Rightarrow> bool" where
  "is_space c \<longleftrightarrow> (of_char c :: nat) \<in> {9, 10, 11, 12, 13, 32}"

definition wideSpaces :: "string list" where
  "wideSpaces =
     [[CHR 0xC2, CHR 0x85], [CHR 0xC2, CHR 0xA0], [CHR 0xE1, CHR 0x9A, CHR 0x80]] @
     map (\<lambda>n. [CHR 0xE2, CHR 0x80, char_of n]) ([0x80..<0x8B] @ [0xA8, 0xA9, 0xAF :: nat]) @
     [[CHR 0xE2, CHR 0x81, CHR 0x9F], [CHR 0xE3, CHR 0x80, CHR 0x80]]"

definition spaceLen :: "string list \<Rightarrow> string \<Rightarrow> nat" where
  "spaceLen wide s =
     (if s = [] then 0
      else if is_space (hd s) then 1
      else if of_char (hd s) < (128 :: nat) then 0
      else case find (\<lambda>u. take (length u) s = u) wide of None \<Rightarrow> 0 | Some u \<Rightarrow> length u)"

lemma spaceLen_Nil [simp]: "spaceLen wide [] = 0"
  by (simp add: spaceLen_def)

lemma spaceLen_drop: "0 < spaceLen wide s \<Longrightarrow> length (drop (spaceLen wide s) s) < length s"
  by (cases s) auto

function trimLeft :: "string list \<Rightarrow> string \<Rightarrow> string" where
  "trimLeft wide s = (if spaceLen wide s = 0 then s else trimLeft wide (drop (spaceLen wide s) s))"
  by pat_completeness auto
termination by (relation "measure (\<lambda>(w, s). length s)") (use spaceLen_drop in auto)

declare trimLeft.simps [simp del]

definition TrimSpace :: "string \<Rightarrow> string" where
  "TrimSpace s = rev (trimLeft (map rev wideSpaces) (rev (trimLeft wideSpaces s)))"

function fieldsFrom :: "string \<Rightarrow> string \<Rightarrow> string list" where
  "fieldsFrom cur s =
     (if s = [] then (if cur = [] then [] else [rev cur])
      else if spaceLen wideSpaces s = 0 then fieldsFrom (hd s # cur) (tl s)
      else (if cur = [] then [] else [rev cur]) @ fieldsFrom [] (drop (spaceLen wideSpaces s) s))"
  by pat_completeness auto
termination by (relation "measure (\<lambda>(c, s). length s)") auto

declare fieldsFrom.simps [simp del]

definition Fields :: "string \<Rightarrow> string list" where
  "Fields s = fieldsFrom [] s"

lemma spaceLen_ascii:
  "is_space c \<Longrightarrow> spaceLen wide (c # s) = 1"
  "\<not> is_space c \<Longrightarrow> of_char c < (128 :: nat) \<Longrightarrow> spaceLen wide (c # s) = 0"
  by (simp_all add: spaceLen_def)

lemma trimLeft_ascii:
  "trimLeft wide [] = []" "is_space c \<Longrightarrow> trimLeft wide (c # s) = trimLeft wide s"
  "\<not> is_space c \<Longrightarrow> of_char c < (128 :: nat) \<Longrightarrow> trimLeft wide (c # s) = c # s"
  by (subst trimLeft.simps, simp add: spaceLen_ascii)+

lemma fieldsFrom_ascii:
  "fieldsFrom cur [] = (if cur = [] then [] else [rev cur])"
  "is_space c \<Longrightarrow> fieldsFrom cur (c # s) = (if cur = [] then [] else [rev cur]) @ fieldsFrom [] s"
  "\<not> is_space c \<Longrightarrow> of_char c < (128 :: nat) \<Longrightarrow> fieldsFrom cur (c # s) = fieldsFrom (c # cur) s"
  by (subst fieldsFrom.simps, simp add: spaceLen_ascii)+

lemmas space_eval = TrimSpace_def Fields_def trimLeft_ascii fieldsFrom_ascii is_space_def

text \<open>A trimmed string neither begins nor ends with white space, and trimming it again changes nothing.\<close>

lemma trimLeft_done: "spaceLen wide (trimLeft wide s) = 0"
  by (induction wide s rule: trimLeft.induct) (subst trimLeft.simps, simp)

lemma trimLeft_id: "spaceLen wide s = 0 \<Longrightarrow> trimLeft wide s = s"
  by (simp add: trimLeft.simps)

lemma Fields_ne: "x \<in> set (Fields s) \<Longrightarrow> x \<noteq> []"
proof -
  have "x \<in> set (fieldsFrom cur s) \<Longrightarrow> x \<noteq> []" for cur
    by (induction cur s rule: fieldsFrom.induct) (subst (asm) (2) fieldsFrom.simps, auto split: if_splits)
  then show "x \<in> set (Fields s) \<Longrightarrow> x \<noteq> []" by (simp add: Fields_def)
qed

text \<open>\<open>strings.SplitN(s, sep, 2)\<close>: at most one split, at the first separator.\<close>

fun SplitN2 :: "char \<Rightarrow> string \<Rightarrow> string list" where
  "SplitN2 sep [] = [[]]"
| "SplitN2 sep (c # cs) =
     (if c = sep then [[], cs] else case SplitN2 sep cs of [] \<Rightarrow> [[c]] | x # xs \<Rightarrow> (c # x) # xs)"

lemma SplitN2_ne [simp]: "SplitN2 sep s \<noteq> []"
  by (cases s) (auto split: list.splits)

lemma SplitN2_Cons: "sep \<notin> set x \<Longrightarrow> SplitN2 sep (x @ sep # ys) = [x, ys]"
  by (induction x) auto

text \<open>
  Reading a text line by line with \<open>bufio.Reader.ReadString('\\n')\<close>: the lines that are ended by a
  newline, without it. What follows the last newline is returned together with the error \<open>io.EOF\<close>,
  and the program never uses it.
\<close>

definition fullLines :: "bytes \<Rightarrow> string list" where
  "fullLines s = butlast (Split CHR 0x0A s)"

lemma fullLines_unlines:
  assumes "\<forall>l \<in> set ls. CHR 0x0A \<notin> set l" "CHR 0x0A \<notin> set rest"
  shows "fullLines (concat (map (\<lambda>l. l @ [CHR 0x0A]) ls) @ rest) = ls"
proof -
  have "Split CHR 0x0A (concat (map (\<lambda>l. l @ [CHR 0x0A]) ls) @ rest) = ls @ [rest]"
    using assms by (induction ls) (auto simp: Split_single Split_Cons)
  then show ?thesis by (simp add: fullLines_def)
qed

text \<open>Printing and parsing without a bound: the parser reports a number that is too large.\<close>

lemma parse_showNat_all: "parseDigits m 0 (showNat k) = (if k \<le> m then Inr k else Inl ErrRange)"
proof (induction k rule: showNat.induct)
  case (1 k)
  show ?case
  proof (cases "k \<le> m")
    case False
    show ?thesis
    proof (cases "k < 10")
      case True
      then show ?thesis using False digit_char_val [of k] by (simp add: showNat.simps)
    next
      case big: False
      then show ?thesis
        using 1 [OF big] False digit_char_val [of "k mod 10"]
        by (subst showNat.simps) (auto simp: parseDigits_append)
    qed
  qed (simp add: parse_showNat)
qed

lemma showNat_hd: "hd (showNat k) \<noteq> CHR ''-''" "hd (showNat k) \<noteq> CHR ''+''"
  using showNat_digits [of "hd (showNat k)" k] sign_not_digit by (auto simp: hd_in_set)

lemma showNat_no_char: "\<not> is_digit c \<Longrightarrow> c \<notin> set (showNat k)"
  using showNat_digits by blast

lemma Atoi_showNat: "k < 2 ^ 63 \<Longrightarrow> Atoi (showNat k) = (int k, None)"
  using ParseInt64_FormatInt [of "int k"] by (simp add: Atoi_def FormatInt_def in_i64_def)

section \<open>Paths\<close>

text \<open>
  \<open>path.Clean\<close> and \<open>path.Join\<close>: empty and \<open>.\<close> components go away, \<open>..\<close> removes the component before it.
\<close>

fun cleanStep :: "bool \<Rightarrow> string list \<Rightarrow> string \<Rightarrow> string list" where
  "cleanStep rooted stack c =
     (if c = [] \<or> c = ''.'' then stack
      else if c \<noteq> ''..'' then c # stack
      else case stack of
             [] \<Rightarrow> if rooted then [] else [c]
           | t # ts \<Rightarrow> if t = ''..'' then c # stack else ts)"

definition pathClean :: "string \<Rightarrow> string" where
  "pathClean p =
     (let rooted = (p \<noteq> [] \<and> hd p = CHR ''/'');
          s = joinWith CHR ''/'' (rev (foldl (cleanStep rooted) [] (Split CHR ''/'' p)))
      in if rooted then CHR ''/'' # s else if s = [] then ''.'' else s)"

definition pathJoin :: "string list \<Rightarrow> string" where
  "pathJoin elems =
     (let es = filter (\<lambda>e. e \<noteq> []) elems in if es = [] then [] else pathClean (joinWith CHR ''/'' es))"

lemma Split_append: "Split sep (x @ sep # ys) = Split sep x @ Split sep ys"
proof (induction x)
  case (Cons c x)
  then show ?case by (cases "Split sep x") auto
qed simp

lemma pathClean_trailing: "p \<noteq> [] \<Longrightarrow> pathClean (p @ ''/'') = pathClean p" "p \<noteq> [] \<Longrightarrow> pathClean (p @ ''//'') = pathClean p"
  using Split_append [of "CHR ''/''" p "[]"] Split_append [of "CHR ''/''" p "''/''"]
  by (simp_all add: pathClean_def Let_def)


lemma digit_char_eval:
  "digit_char 0 = CHR ''0''" "digit_char (Suc 0) = CHR ''1''" "digit_char 2 = CHR ''2''" "digit_char 3 = CHR ''3''"
  "digit_char 4 = CHR ''4''" "digit_char 5 = CHR ''5''" "digit_char 6 = CHR ''6''" "digit_char 7 = CHR ''7''"
  "digit_char 8 = CHR ''8''" "digit_char 9 = CHR ''9''"
  by code_simp+

end
