(* ===== verification/RedisClient.thy ===== *)
theory RedisClient
  imports GoStrings
begin

text \<open>
  The wrapper \<open>src/redis/redis.go\<close>. The Redis server, the driver \<open>go-redis\<close> and the cache
  \<open>bigcache\<close> are not part of the program: they are the argument \<open>api\<close>, a record of the commands the
  wrapper issues, over a state \<open>'x\<close> of which nothing is known. What the documentation of the
  commands promises is the predicate \<open>redis_laws\<close>, relative to the strings and the lists the server
  holds; the properties that need it take it as a hypothesis, and \<open>memRedis\<close> is a store in memory
  that satisfies it.

  The wrapper's own state is the flag \<open>IsAlive\<close> with the sleeping goroutines of \<open>takeABreak\<close>.
\<close>

section \<open>The commands\<close>

datatype rerr = RedisNil | RedisErr string

datatype rcmd = CLRange string int int | CLTrim string int int

datatype rval = VStrings "bytes list" | VStatus

record 'x redis_api =
  apiGet :: "string \<Rightarrow> 'x \<Rightarrow> 'x \<times> (rerr + string)"
  apiSet :: "string \<Rightarrow> string \<Rightarrow> int \<Rightarrow> 'x \<Rightarrow> 'x \<times> rerr option"
  apiDel :: "string \<Rightarrow> 'x \<Rightarrow> 'x \<times> rerr option"
  apiExpire :: "string \<Rightarrow> int \<Rightarrow> 'x \<Rightarrow> 'x \<times> rerr option"
  apiRPush :: "string \<Rightarrow> bytes \<Rightarrow> 'x \<Rightarrow> 'x \<times> (rerr + int)"
  apiLLen :: "string \<Rightarrow> 'x \<Rightarrow> 'x \<times> (rerr + int)"
  apiLTrim :: "string \<Rightarrow> int \<Rightarrow> int \<Rightarrow> 'x \<Rightarrow> 'x \<times> rerr option"
  apiBLPop :: "int \<Rightarrow> string \<Rightarrow> 'x \<Rightarrow> 'x \<times> (rerr + bytes list)"
  apiExec :: "rcmd list \<Rightarrow> 'x \<Rightarrow> 'x \<times> (rerr + rval list)"
  bigGet :: "string \<Rightarrow> 'x \<Rightarrow> 'x \<times> (string + bytes)"
  bigSet :: "string \<Rightarrow> bytes \<Rightarrow> 'x \<Rightarrow> 'x"

text \<open>
  The state of the package: the outside state, the flag \<open>IsAlive\<close>, the number of goroutines that
  sleep in \<open>takeABreak\<close>, and the address of this node.
\<close>

record 'x redis =
  ext :: 'x
  IsAlive :: bool
  breaks :: nat
  SelfAddr :: string

definition PEER_EXPIRE_DUTATION :: int where
  "PEER_EXPIRE_DUTATION = 10 * 60 * 1000000000"

definition CLIENT_ALIVE_EXPIRE_DUTATION :: int where
  "CLIENT_ALIVE_EXPIRE_DUTATION = 20 * 1000000000"

definition keyForPeerId :: "string \<Rightarrow> string" where
  "keyForPeerId peerId = ''signal:peerId:'' @ peerId"

definition keyForMQ :: "string \<Rightarrow> string" where
  "keyForMQ addr = ''signal:mq:'' @ addr"

definition keyForStats :: "string \<Rightarrow> string" where
  "keyForStats addr = ''signal:stats:count:'' @ addr"

definition AddrString :: "string \<Rightarrow> string \<Rightarrow> string" where
  "AddrString host port = host @ '':'' @ port"

section \<open>The start\<close>

text \<open>
  The package variables and the two constructors. A client of the driver is represented by the options
  it was made with, the cache by its configuration; \<open>newBig\<close> is the error of \<open>bigcache.NewBigCache\<close>, if
  any. \<open>sync.Once\<close> counts a call that panics as done. Durations are in nanoseconds.
\<close>

record ClusterOptions =
  coAddrs :: "string list"
  coPassword :: string

record Options =
  oAddr :: string
  oPassword :: string
  oDB :: int
  oPoolSize :: int
  oPoolTimeout :: int
  oReadTimeout :: int

datatype driver = ClusterClient ClusterOptions | SingleClient Options

record bigConfig =
  Shards :: nat
  LifeWindow :: int
  CleanWindow :: int
  MaxEntriesInWindow :: nat
  MaxEntrySize :: nat
  Verbose :: bool
  HardMaxCacheSize :: nat

record redis_pkg =
  RedisCli :: "driver option"
  pkgSelfAddr :: string
  onceDone :: bool
  pkgCache :: "bigConfig option"
  cliClosed :: bool

text \<open>\<open>Close\<close> of the interface \<open>RedisClient\<close>, on the driver.\<close>

definition closeClient :: "redis_pkg \<Rightarrow> redis_pkg" where
  "closeClient pkg = pkg\<lparr>cliClosed := True\<rparr>"

definition cacheConfig :: bigConfig where
  "cacheConfig = \<lparr>Shards = 128, LifeWindow = 10 * 60 * 1000000000, CleanWindow = 5 * 60 * 1000000000,
     MaxEntriesInWindow = 1000 * 10 * 40, MaxEntrySize = 20, Verbose = False, HardMaxCacheSize = 30\<rparr>"

definition initCache :: "(bigConfig \<Rightarrow> string option) \<Rightarrow> redis_pkg \<Rightarrow> redis_pkg res" where
  "initCache newBig pkg =
     (case newBig cacheConfig of
        None \<Rightarrow> Inr (pkg\<lparr>pkgCache := Some cacheConfig\<rparr>)
      | Some err \<Rightarrow> Inl (PanicValue err))"

definition InitRedisCluster ::
    "(bigConfig \<Rightarrow> string option) \<Rightarrow> string \<Rightarrow> (string \<times> string) list \<Rightarrow> string \<Rightarrow> redis_pkg \<Rightarrow> redis_pkg res" where
  "InitRedisCluster newBig self redisAddrs password pkg =
     (let addrs = map (\<lambda>(host, port). AddrString host port) redisAddrs
      in if onceDone pkg then Inr pkg
         else initCache newBig (pkg\<lparr>onceDone := True, pkgSelfAddr := self,
                RedisCli := Some (ClusterClient \<lparr>coAddrs = addrs, coPassword = password\<rparr>)\<rparr>))"

definition InitRedisClient ::
    "(bigConfig \<Rightarrow> string option) \<Rightarrow> string \<Rightarrow> string \<Rightarrow> string \<Rightarrow> int \<Rightarrow> redis_pkg \<Rightarrow> redis_pkg res" where
  "InitRedisClient newBig self redisAddr password db pkg =
     (if onceDone pkg then Inr pkg
      else initCache newBig (pkg\<lparr>onceDone := True, pkgSelfAddr := self,
             RedisCli := Some (SingleClient \<lparr>oAddr = redisAddr, oPassword = password, oDB = db, oPoolSize = 100,
               oPoolTimeout = 500000000, oReadTimeout = 500000000\<rparr>)\<rparr>))"

text \<open>After either constructor has returned, the package is set up, and a second call changes nothing.\<close>

lemma InitRedis_once:
  assumes "InitRedisClient newBig self a pw db pkg = Inr pkg1 \<or> InitRedisCluster newBig self as pw pkg = Inr pkg1"
  shows "onceDone pkg1 \<and> InitRedisClient newBig' self' a' pw' db' pkg1 = Inr pkg1 \<and>
    InitRedisCluster newBig' self' as' pw' pkg1 = Inr pkg1"
  using assms by (auto simp: InitRedisClient_def InitRedisCluster_def initCache_def Let_def split: if_splits option.splits)

lemma InitRedis_new:
  assumes "\<not> onceDone pkg"
  shows "InitRedisClient newBig self a pw db pkg = Inr pkg1 \<Longrightarrow> pkgSelfAddr pkg1 = self \<and> pkgCache pkg1 = Some cacheConfig"
    and "InitRedisCluster newBig self as pw pkg = Inr pkg1 \<Longrightarrow> pkgSelfAddr pkg1 = self \<and> pkgCache pkg1 = Some cacheConfig"
  using assms by (auto simp: InitRedisClient_def InitRedisCluster_def initCache_def Let_def split: option.splits)

section \<open>The wrapper\<close>

definition takeABreak :: "'x redis \<Rightarrow> 'x redis" where
  "takeABreak s = s\<lparr>IsAlive := False, breaks := Suc (breaks s)\<rparr>"

text \<open>A sleeping goroutine wakes up after \<open>BREAK_DURATION\<close>.\<close>

definition wakeUp :: "'x redis \<Rightarrow> 'x redis" where
  "wakeUp s = (if 0 < breaks s then s\<lparr>IsAlive := True, breaks := breaks s - 1\<rparr> else s)"

definition GetRemotePeerAddr :: "'x redis_api \<Rightarrow> string \<Rightarrow> 'x redis \<Rightarrow> 'x redis \<times> (rerr + string)" where
  "GetRemotePeerAddr api peerId s =
     (case bigGet api peerId (ext s) of
        (x, Inl _) \<Rightarrow>
          (case apiGet api (keyForPeerId peerId) x of
             (x1, Inl err) \<Rightarrow> (s\<lparr>ext := x1\<rparr>, Inl err)
           | (x1, Inr addr) \<Rightarrow> (s\<lparr>ext := bigSet api peerId addr x1\<rparr>, Inr addr))
      | (x, Inr v) \<Rightarrow> (s\<lparr>ext := x\<rparr>, Inr v))"

definition SetLocalPeer :: "'x redis_api \<Rightarrow> string \<Rightarrow> 'x redis \<Rightarrow> 'x redis \<times> rerr option" where
  "SetLocalPeer api peerId s =
     (if \<not> IsAlive s then (s, Some (RedisErr ''redis is not alive''))
      else case apiSet api (keyForPeerId peerId) (SelfAddr s) PEER_EXPIRE_DUTATION (ext s) of
             (x, None) \<Rightarrow> (s\<lparr>ext := x\<rparr>, None)
           | (x, Some err) \<Rightarrow> (takeABreak (s\<lparr>ext := x\<rparr>), Some err))"

definition DelLocalPeer :: "'x redis_api \<Rightarrow> string \<Rightarrow> 'x redis \<Rightarrow> 'x redis \<times> rerr option" where
  "DelLocalPeer api peerId s =
     (if \<not> IsAlive s then (s, Some (RedisErr ''redis is not alive''))
      else case apiDel api (keyForPeerId peerId) (ext s) of
             (x, None) \<Rightarrow> (s\<lparr>ext := x\<rparr>, None)
           | (x, Some err) \<Rightarrow> (takeABreak (s\<lparr>ext := x\<rparr>), Some err))"

definition UpdateLocalPeerExpiration :: "'x redis_api \<Rightarrow> string \<Rightarrow> 'x redis \<Rightarrow> 'x redis \<times> rerr option" where
  "UpdateLocalPeerExpiration api peerId s =
     (if \<not> IsAlive s then (s, Some (RedisErr ''redis is not alive''))
      else case apiExpire api (keyForPeerId peerId) PEER_EXPIRE_DUTATION (ext s) of
             (x, err) \<Rightarrow> (s\<lparr>ext := x\<rparr>, err))"

definition PushMsgToMQ :: "'x redis_api \<Rightarrow> string \<Rightarrow> bytes \<Rightarrow> 'x redis \<Rightarrow> 'x redis \<times> (rerr + int)" where
  "PushMsgToMQ api addr msg s =
     (case apiRPush api (keyForMQ addr) msg (ext s) of (x, r) \<Rightarrow> (s\<lparr>ext := x\<rparr>, r))"

definition GetLenMQ :: "'x redis_api \<Rightarrow> string \<Rightarrow> 'x redis \<Rightarrow> 'x redis \<times> (rerr + int)" where
  "GetLenMQ api addr s = (case apiLLen api (keyForMQ addr) (ext s) of (x, r) \<Rightarrow> (s\<lparr>ext := x\<rparr>, r))"

definition ClearMQ :: "'x redis_api \<Rightarrow> string \<Rightarrow> 'x redis \<Rightarrow> 'x redis \<times> rerr option" where
  "ClearMQ api addr s = (case apiLTrim api (keyForMQ addr) 1 0 (ext s) of (x, r) \<Rightarrow> (s\<lparr>ext := x\<rparr>, r))"

definition BlockPopMQ :: "'x redis_api \<Rightarrow> int \<Rightarrow> string \<Rightarrow> 'x redis \<Rightarrow> ('x redis \<times> (rerr + bytes)) outcome" where
  "BlockPopMQ api timeout addr s =
     (case apiBLPop api timeout (keyForMQ addr) (ext s) of
        (x, Inl err) \<Rightarrow> Ret (s\<lparr>ext := x\<rparr>, Inl err)
      | (x, Inr result) \<Rightarrow>
          if length result < 2 then Panics IndexOutOfRange
          else Ret (s\<lparr>ext := x\<rparr>, Inr (result ! 1)))"

definition TrimMQ :: "'x redis_api \<Rightarrow> string \<Rightarrow> int \<Rightarrow> 'x redis \<Rightarrow> 'x redis \<times> rerr option" where
  "TrimMQ api addr len s =
     (case apiLTrim api (keyForMQ addr) (- len) (-1) (ext s) of (x, r) \<Rightarrow> (s\<lparr>ext := x\<rparr>, r))"

definition PopRangeMQ :: "'x redis_api \<Rightarrow> string \<Rightarrow> int \<Rightarrow> 'x redis \<Rightarrow> ('x redis \<times> (rerr + bytes list)) outcome" where
  "PopRangeMQ api addr len s =
     (let key = keyForMQ addr
      in case apiExec api [CLRange key 0 (len - 1), CLTrim key len (-1)] (ext s) of
           (x, Inl err) \<Rightarrow> Ret (s\<lparr>ext := x\<rparr>, Inl err)
         | (x, Inr (VStrings xs # _)) \<Rightarrow> Ret (s\<lparr>ext := x\<rparr>, Inr xs)
         | (x, Inr (VStatus # _)) \<Rightarrow> Panics TypeAssertion
         | (x, Inr []) \<Rightarrow> Panics IndexOutOfRange)"

text \<open>The driver sends an \<open>int64\<close> argument as a decimal string and parses the reply of \<open>Int64()\<close>.\<close>

definition UpdateClientCount :: "'x redis_api \<Rightarrow> int \<Rightarrow> 'x redis \<Rightarrow> 'x redis \<times> rerr option" where
  "UpdateClientCount api cnt s =
     (case apiSet api (keyForStats (SelfAddr s)) (FormatInt cnt) CLIENT_ALIVE_EXPIRE_DUTATION (ext s) of
        (x, r) \<Rightarrow> (s\<lparr>ext := x\<rparr>, r))"

definition GetNodeClientCount :: "'x redis_api \<Rightarrow> string \<Rightarrow> 'x redis \<Rightarrow> 'x redis \<times> (rerr + int)" where
  "GetNodeClientCount api addr s =
     (case apiGet api (keyForStats addr) (ext s) of
        (x, Inl err) \<Rightarrow> (s\<lparr>ext := x\<rparr>, Inl err)
      | (x, Inr v) \<Rightarrow>
          (s\<lparr>ext := x\<rparr>,
           case ParseInt64 v of (i, None) \<Rightarrow> Inr i | (i, Some _) \<Rightarrow> Inl (RedisErr ''strconv.ParseInt'')))"

section \<open>What the documentation of the commands promises\<close>

text \<open>The elements of a list from index \<open>a\<close> to \<open>b\<close>, negative indices counting from the end (LRANGE, LTRIM).\<close>

definition lrange :: "int \<Rightarrow> int \<Rightarrow> 'a list \<Rightarrow> 'a list" where
  "lrange a b l =
     (let n = int (length l);
          s = max 0 (if a < 0 then a + n else a);
          e = min (n - 1) (if b < 0 then b + n else b)
      in if e < s then [] else take (nat (e - s + 1)) (drop (nat s) l))"

text \<open>
  \<open>strs x\<close> and \<open>lsts x\<close> are the string keys and the list keys of the server, \<open>cached x\<close> what the
  cache may answer. A command that fails promises nothing.
\<close>

definition string_laws ::
    "'x redis_api \<Rightarrow> ('x \<Rightarrow> string \<Rightarrow> string option) \<Rightarrow> ('x \<Rightarrow> string \<Rightarrow> bytes list) \<Rightarrow> bool" where
  "string_laws api strs lsts \<longleftrightarrow>
     (\<forall>k x x' r. apiGet api k x = (x', r) \<longrightarrow> strs x' = strs x \<and> lsts x' = lsts x \<and>
        (\<forall>v. r = Inr v \<longrightarrow> strs x k = Some v) \<and> (strs x k = None \<longrightarrow> (\<exists>e. r = Inl e))) \<and>
     (\<forall>k v t x x'. apiSet api k v t x = (x', None) \<longrightarrow>
        strs x' = (strs x)(k \<mapsto> v) \<and> lsts x' = (lsts x)(k := [])) \<and>
     (\<forall>k x x'. apiDel api k x = (x', None) \<longrightarrow>
        strs x' = (strs x)(k := None) \<and> lsts x' = (lsts x)(k := []))"

definition list_laws :: "'x redis_api \<Rightarrow> ('x \<Rightarrow> string \<Rightarrow> bytes list) \<Rightarrow> bool" where
  "list_laws api lsts \<longleftrightarrow>
     (\<forall>k m x x' len. apiRPush api k m x = (x', Inr len) \<longrightarrow>
        lsts x' = (lsts x)(k := lsts x k @ [m]) \<and> len = int (length (lsts x k)) + 1) \<and>
     (\<forall>k x x' len. apiLLen api k x = (x', Inr len) \<longrightarrow> lsts x' = lsts x \<and> len = int (length (lsts x k))) \<and>
     (\<forall>k a b x x'. apiLTrim api k a b x = (x', None) \<longrightarrow> lsts x' = (lsts x)(k := lrange a b (lsts x k))) \<and>
     (\<forall>t k x x' r. apiBLPop api t k x = (x', Inr r) \<longrightarrow>
        (\<exists>v vs. lsts x k = v # vs \<and> r = [k, v] \<and> lsts x' = (lsts x)(k := vs))) \<and>
     (\<forall>k a b c d x x' r. apiExec api [CLRange k a b, CLTrim k c d] x = (x', Inr r) \<longrightarrow>
        r = [VStrings (lrange a b (lsts x k)), VStatus] \<and> lsts x' = (lsts x)(k := lrange c d (lsts x k)))"

text \<open>\<open>cached x\<close>: what the cache answers; a miss never changes the server.\<close>

definition cache_laws ::
    "'x redis_api \<Rightarrow> ('x \<Rightarrow> string \<Rightarrow> string option) \<Rightarrow> ('x \<Rightarrow> string \<Rightarrow> string option) \<Rightarrow> bool" where
  "cache_laws api strs cached \<longleftrightarrow>
     (\<forall>k x x' r. bigGet api k x = (x', r) \<longrightarrow> strs x' = strs x \<and> cached x' = cached x \<and>
        (case cached x k of Some v \<Rightarrow> r = Inr v | None \<Rightarrow> (\<exists>e. r = Inl e))) \<and>
     (\<forall>k v x. strs (bigSet api k v x) = strs x \<and>
        (cached (bigSet api k v x) k = Some v \<or> cached (bigSet api k v x) k = None))"

text \<open>A store in memory for which the laws hold.\<close>

record mem_store =
  mstrs :: "string \<Rightarrow> string option"
  mlists :: "string \<Rightarrow> bytes list"
  mcache :: "string \<Rightarrow> string option"

definition memRedis :: "mem_store redis_api" where
  "memRedis = \<lparr>
     apiGet = \<lambda>k x. (x, case mstrs x k of None \<Rightarrow> Inl RedisNil | Some v \<Rightarrow> Inr v),
     apiSet = \<lambda>k v t x. (x\<lparr>mstrs := (mstrs x)(k \<mapsto> v), mlists := (mlists x)(k := [])\<rparr>, None),
     apiDel = \<lambda>k x. (x\<lparr>mstrs := (mstrs x)(k := None), mlists := (mlists x)(k := [])\<rparr>, None),
     apiExpire = \<lambda>k t x. (x, None),
     apiRPush = \<lambda>k m x. (x\<lparr>mlists := (mlists x)(k := mlists x k @ [m])\<rparr>, Inr (int (length (mlists x k)) + 1)),
     apiLLen = \<lambda>k x. (x, Inr (int (length (mlists x k)))),
     apiLTrim = \<lambda>k a b x. (x\<lparr>mlists := (mlists x)(k := lrange a b (mlists x k))\<rparr>, None),
     apiBLPop = \<lambda>t k x. (case mlists x k of [] \<Rightarrow> (x, Inl RedisNil)
        | v # vs \<Rightarrow> (x\<lparr>mlists := (mlists x)(k := vs)\<rparr>, Inr [k, v])),
     apiExec = \<lambda>cs x. (case cs of
          [CLRange k a b, CLTrim l c d] \<Rightarrow>
            (x\<lparr>mlists := (mlists x)(l := lrange c d (mlists x l))\<rparr>, Inr [VStrings (lrange a b (mlists x k)), VStatus])
        | _ \<Rightarrow> (x, Inl (RedisErr ''unsupported''))),
     bigGet = \<lambda>k x. (x, case mcache x k of None \<Rightarrow> Inl ''Entry not found'' | Some v \<Rightarrow> Inr v),
     bigSet = \<lambda>k v x. x\<lparr>mcache := (mcache x)(k \<mapsto> v)\<rparr>\<rparr>"

lemma memRedis_strings: "string_laws memRedis mstrs mlists"
  by (auto simp: string_laws_def memRedis_def split: option.splits)

lemma memRedis_lists: "list_laws memRedis mlists"
  by (auto simp: list_laws_def memRedis_def split: list.splits)

lemma memRedis_cache: "cache_laws memRedis mstrs mcache"
  by (auto simp: cache_laws_def memRedis_def split: option.splits)

definition emptyStore :: "string \<Rightarrow> mem_store redis" where
  "emptyStore addr = \<lparr>ext = \<lparr>mstrs = \<lambda>_. None, mlists = \<lambda>_. [], mcache = \<lambda>_. None\<rparr>,
     IsAlive = True, breaks = 0, SelfAddr = addr\<rparr>"

section \<open>The message queues\<close>

lemma lrange_last: "0 < n \<Longrightarrow> lrange (- int n) (-1) l = drop (length l - n) l"
  by (cases "n \<le> length l") (auto simp: lrange_def Let_def of_nat_diff nat_diff_distrib max_def)

lemma lrange_none: "lrange 1 0 l = []"
  by (simp add: lrange_def Let_def)

lemma lrange_first: "0 < n \<Longrightarrow> lrange 0 (int n - 1) l = take n l"
  by (auto simp: lrange_def Let_def min_def)

lemma lrange_rest: "lrange (int n) (-1) l = drop n l"
  by (auto simp: lrange_def Let_def)

lemmas mq_defs = PushMsgToMQ_def GetLenMQ_def ClearMQ_def BlockPopMQ_def TrimMQ_def PopRangeMQ_def

lemma keys_distinct:
  "keyForPeerId p \<noteq> keyForMQ a" "keyForPeerId p \<noteq> keyForStats b" "keyForMQ a \<noteq> keyForStats b"
  "keyForPeerId p = keyForPeerId q \<longleftrightarrow> p = q" "keyForMQ a = keyForMQ b \<longleftrightarrow> a = b"
  "keyForStats a = keyForStats b \<longleftrightarrow> a = b"
  by (simp_all add: keyForPeerId_def keyForMQ_def keyForStats_def)

lemma push_spec:
  "list_laws api lsts \<Longrightarrow> PushMsgToMQ api a m s = (s', Inr len) \<Longrightarrow>
     lsts (ext s') = (lsts (ext s))(keyForMQ a := lsts (ext s) (keyForMQ a) @ [m]) \<and>
     len = int (length (lsts (ext s) (keyForMQ a))) + 1"
  by (auto simp: mq_defs list_laws_def split: prod.splits)

lemma trim_spec:
  "list_laws api lsts \<Longrightarrow> TrimMQ api a len s = (s', None) \<Longrightarrow>
     lsts (ext s') = (lsts (ext s))(keyForMQ a := lrange (- len) (-1) (lsts (ext s) (keyForMQ a)))"
  by (auto simp: mq_defs list_laws_def split: prod.splits)

lemma len_spec:
  "list_laws api lsts \<Longrightarrow> GetLenMQ api a s = (s', Inr len) \<Longrightarrow>
     lsts (ext s') = lsts (ext s) \<and> len = int (length (lsts (ext s) (keyForMQ a)))"
  by (auto simp: mq_defs list_laws_def split: prod.splits)

lemma clear_spec:
  "list_laws api lsts \<Longrightarrow> ClearMQ api a s = (s', None) \<Longrightarrow> lsts (ext s') = (lsts (ext s))(keyForMQ a := [])"
  by (auto simp: mq_defs list_laws_def lrange_none split: prod.splits)

lemma pop_spec:
  "list_laws api lsts \<Longrightarrow> BlockPopMQ api t a s = Ret (s', Inr b) \<Longrightarrow>
     \<exists>bs. lsts (ext s) (keyForMQ a) = b # bs \<and> lsts (ext s') = (lsts (ext s))(keyForMQ a := bs)"
  by (fastforce simp: mq_defs list_laws_def split: prod.splits sum.splits if_splits)

lemma pop_no_panic: "list_laws api lsts \<Longrightarrow> \<exists>s' r. BlockPopMQ api t a s = Ret (s', r)"
proof -
  assume L: "list_laws api lsts"
  obtain x r where x: "apiBLPop api t (keyForMQ a) (ext s) = (x, r)" by fastforce
  show ?thesis
  proof (cases r)
    case (Inr res)
    then have "apiBLPop api t (keyForMQ a) (ext s) = (x, Inr res)" using x by simp
    then have "\<exists>v vs. lsts (ext s) (keyForMQ a) = v # vs \<and> res = [keyForMQ a, v] \<and>
        lsts x = (lsts (ext s))(keyForMQ a := vs)"
      using L unfolding list_laws_def by blast
    then have "length res = 2" by auto
    then show ?thesis using x Inr by (simp add: BlockPopMQ_def)
  qed (simp add: BlockPopMQ_def x)
qed

text \<open>
  The queue of a node, under the documented behaviour of the list commands: a message is popped
  in the order of pushing, clearing empties the queue, trimming to a positive length keeps exactly
  the newest messages, popping a positive range takes exactly the oldest ones and leaves the rest,
  and no command touches the queue of another node.
\<close>

theorem mq_commands:
  assumes L: "list_laws api lsts"
  shows "(PushMsgToMQ api a m s = (s1, Inr len) \<longrightarrow>
      lsts (ext s1) (keyForMQ a) = lsts (ext s) (keyForMQ a) @ [m] \<and> len = int (length (lsts (ext s1) (keyForMQ a)))) \<and>
    (BlockPopMQ api t a s = Ret (s2, Inr b) \<longrightarrow> lsts (ext s) (keyForMQ a) = b # lsts (ext s2) (keyForMQ a)) \<and>
    (ClearMQ api a s = (s3, None) \<longrightarrow> lsts (ext s3) (keyForMQ a) = []) \<and>
    (0 < n \<longrightarrow> TrimMQ api a (int n) s = (s4, None) \<longrightarrow>
      lsts (ext s4) (keyForMQ a) = drop (length (lsts (ext s) (keyForMQ a)) - n) (lsts (ext s) (keyForMQ a))) \<and>
    (0 < n \<longrightarrow> PopRangeMQ api a (int n) s = Ret (s5, Inr bs) \<longrightarrow>
      bs = take n (lsts (ext s) (keyForMQ a)) \<and> lsts (ext s5) (keyForMQ a) = drop n (lsts (ext s) (keyForMQ a))) \<and>
    (a' \<noteq> a \<longrightarrow> PushMsgToMQ api a m s = (s1, Inr len) \<longrightarrow>
      lsts (ext s1) (keyForMQ a') = lsts (ext s) (keyForMQ a'))"
proof (intro conjI impI)
  assume "0 < n" "PopRangeMQ api a (int n) s = Ret (s5, Inr bs)"
  then have "apiExec api [CLRange (keyForMQ a) 0 (int n - 1), CLTrim (keyForMQ a) (int n) (-1)] (ext s)
      = (ext s5, Inr [VStrings bs, VStatus])"
    using L by (fastforce simp: PopRangeMQ_def Let_def list_laws_def split: prod.splits sum.splits list.splits rval.splits)
  then have "[VStrings bs, VStatus] = [VStrings (lrange 0 (int n - 1) (lsts (ext s) (keyForMQ a))), VStatus]"
      "lsts (ext s5) = (lsts (ext s))(keyForMQ a := lrange (int n) (-1) (lsts (ext s) (keyForMQ a)))"
    using L unfolding list_laws_def by blast+
  then show "bs = take n (lsts (ext s) (keyForMQ a))" "lsts (ext s5) (keyForMQ a) = drop n (lsts (ext s) (keyForMQ a))"
    using \<open>0 < n\<close> by (simp_all add: lrange_first lrange_rest)
qed (use push_spec [OF L] pop_spec [OF L] clear_spec [OF L] trim_spec [OF L] in
      \<open>fastforce simp: lrange_last keys_distinct\<close>)+

theorem mq_commands_witness:
  "mlists (ext (fst (TrimMQ memRedis ''h'' 2
     (emptyStore ''n''\<lparr>ext := (ext (emptyStore ''n''))\<lparr>mlists := (\<lambda>_. [''a'', ''b'', ''c''])\<rparr>\<rparr>)))) (keyForMQ ''h'')
   = [''b'', ''c'']"
proof -
  define s where "s = emptyStore ''n''\<lparr>ext := (ext (emptyStore ''n''))\<lparr>mlists := (\<lambda>_. [''a'', ''b'', ''c''])\<rparr>\<rparr>"
  define s4 where "s4 = fst (TrimMQ memRedis ''h'' (int 2) s)"
  have "TrimMQ memRedis ''h'' (int 2) s = (s4, None)" by (simp add: s4_def TrimMQ_def memRedis_def)
  then have "mlists (ext s4) (keyForMQ ''h'') =
      drop (length (mlists (ext s) (keyForMQ ''h'')) - 2) (mlists (ext s) (keyForMQ ''h''))"
    using mq_commands [OF memRedis_lists, of "''h''" "[]" s s 0 0 s "[]" s 2 s4 s "[]" "''g''"] by simp
  then show ?thesis by (simp add: s_def s4_def)
qed

section \<open>The directory of peers\<close>

lemma SetLocalPeer_strs:
  "string_laws api strs lsts \<Longrightarrow> SetLocalPeer api p s = (s1, None) \<Longrightarrow>
     strs (ext s1) = (strs (ext s))(keyForPeerId p \<mapsto> SelfAddr s) \<and> IsAlive s"
  by (fastforce simp: SetLocalPeer_def string_laws_def split: prod.splits option.splits if_splits)

lemma DelLocalPeer_strs:
  "string_laws api strs lsts \<Longrightarrow> DelLocalPeer api p s = (s1, None) \<Longrightarrow>
     strs (ext s1) = (strs (ext s))(keyForPeerId p := None) \<and> IsAlive s"
  by (fastforce simp: DelLocalPeer_def string_laws_def split: prod.splits option.splits if_splits)

lemma GetRemotePeerAddr_spec:
  assumes S: "string_laws api strs lsts" and C: "cache_laws api strs cached"
    and g: "GetRemotePeerAddr api p s = (s', r)"
  shows "case cached (ext s) p of
      Some v \<Rightarrow> r = Inr v
    | None \<Rightarrow> (case strs (ext s) (keyForPeerId p) of Some v \<Rightarrow> r = Inr v \<or> (\<exists>e. r = Inl e) | None \<Rightarrow> \<exists>e. r = Inl e)"
    and "strs (ext s') = strs (ext s)"
proof -
  obtain x r1 where b: "bigGet api p (ext s) = (x, r1)" by fastforce
  then have x: "strs x = strs (ext s)"
      and hit: "case cached (ext s) p of Some v \<Rightarrow> r1 = Inr v | None \<Rightarrow> (\<exists>e. r1 = Inl e)"
    using C unfolding cache_laws_def by blast+
  obtain x2 r2 where a: "apiGet api (keyForPeerId p) x = (x2, r2)" by fastforce
  then have x2: "strs x2 = strs x" "\<And>v. r2 = Inr v \<Longrightarrow> strs x (keyForPeerId p) = Some v"
      "strs x (keyForPeerId p) = None \<Longrightarrow> \<exists>e. r2 = Inl e"
    using S unfolding string_laws_def by blast+
  have big: "strs (bigSet api k v y) = strs y" for k v y using C by (simp add: cache_laws_def)
  show "case cached (ext s) p of
      Some v \<Rightarrow> r = Inr v
    | None \<Rightarrow> (case strs (ext s) (keyForPeerId p) of Some v \<Rightarrow> r = Inr v \<or> (\<exists>e. r = Inl e) | None \<Rightarrow> \<exists>e. r = Inl e)"
    using g b a x x2 hit by (cases r2) (auto simp: GetRemotePeerAddr_def split: option.splits sum.splits)
  show "strs (ext s') = strs (ext s)"
    using g b a x x2(1) big by (auto simp: GetRemotePeerAddr_def split: sum.splits)
qed



text \<open>
  The client counts that nodes publish for each other survive the trip through Redis: a node
  that reads the count of another one gets the number last written or an error.
\<close>

theorem client_count_roundtrip:
  assumes S: "string_laws api strs lsts" and "in_i64 cnt"
    and up: "UpdateClientCount api cnt s = (s1, None)" and same: "ext s2 = ext s1"
  shows "snd (GetNodeClientCount api (SelfAddr s) s2) = Inr cnt \<or>
    (\<exists>e. snd (GetNodeClientCount api (SelfAddr s) s2) = Inl e)"
proof -
  have st: "strs (ext s1) (keyForStats (SelfAddr s)) = Some (FormatInt cnt)"
    using S up by (fastforce simp: UpdateClientCount_def string_laws_def split: prod.splits)
  obtain x r where g: "apiGet api (keyForStats (SelfAddr s)) (ext s2) = (x, r)" by fastforce
  then have "r = Inr v \<Longrightarrow> v = FormatInt cnt" for v
    using S st same unfolding string_laws_def by (metis option.inject)
  then show ?thesis
    using g ParseInt64_FormatInt [OF assms(2)] by (cases r) (auto simp: GetNodeClientCount_def)
qed

theorem client_count_roundtrip_witness:
  "\<exists>s1. UpdateClientCount memRedis 1234 (emptyStore ''n1'') = (s1, None) \<and>
     (snd (GetNodeClientCount memRedis (SelfAddr (emptyStore ''n1'')) s1) = Inr 1234 \<or>
      (\<exists>e. snd (GetNodeClientCount memRedis (SelfAddr (emptyStore ''n1'')) s1) = Inl e))"
proof -
  obtain s1 where s1: "UpdateClientCount memRedis 1234 (emptyStore ''n1'') = (s1, None)"
    by (simp add: UpdateClientCount_def memRedis_def)
  have "in_i64 1234" by (simp add: in_i64_def)
  from client_count_roundtrip [OF memRedis_strings this s1 refl] s1 show ?thesis by blast
qed

section \<open>The circuit breaker\<close>

text \<open>The calls of the package that other goroutines can make, in any order.\<close>

datatype redis_op =
    OpSetPeer string | OpDelPeer string | OpExpire string | OpLookup string | OpPush string bytes
  | OpTrim string int | OpClear string | OpLen string | OpCount int | OpNodeCount string | OpWake

fun redis_step :: "'x redis_api \<Rightarrow> redis_op \<Rightarrow> 'x redis \<Rightarrow> 'x redis" where
  "redis_step api (OpSetPeer p) s = fst (SetLocalPeer api p s)"
| "redis_step api (OpDelPeer p) s = fst (DelLocalPeer api p s)"
| "redis_step api (OpExpire p) s = fst (UpdateLocalPeerExpiration api p s)"
| "redis_step api (OpLookup p) s = fst (GetRemotePeerAddr api p s)"
| "redis_step api (OpPush a m) s = fst (PushMsgToMQ api a m s)"
| "redis_step api (OpTrim a l) s = fst (TrimMQ api a l s)"
| "redis_step api (OpClear a) s = fst (ClearMQ api a s)"
| "redis_step api (OpLen a) s = fst (GetLenMQ api a s)"
| "redis_step api (OpCount c) s = fst (UpdateClientCount api c s)"
| "redis_step api (OpNodeCount a) s = fst (GetNodeClientCount api a s)"
| "redis_step api OpWake s = wakeUp s"

definition breaker_ok :: "'x redis \<Rightarrow> bool" where
  "breaker_ok s \<longleftrightarrow> IsAlive s \<or> 0 < breaks s"

lemma breaker_ok_step: "breaker_ok s \<Longrightarrow> breaker_ok (redis_step api op s)"
  by (cases op)
    (auto simp: breaker_ok_def SetLocalPeer_def DelLocalPeer_def UpdateLocalPeerExpiration_def
      GetRemotePeerAddr_def mq_defs UpdateClientCount_def GetNodeClientCount_def takeABreak_def wakeUp_def
      split: prod.splits option.splits sum.splits)

lemma breaker_ok_run: "breaker_ok s \<Longrightarrow> breaker_ok (fold (redis_step api) ops s)"
  by (induction ops arbitrary: s) (simp_all add: breaker_ok_step)

lemma wake_all: "breaker_ok s \<Longrightarrow> IsAlive ((wakeUp ^^ breaks s) s)"
proof -
  have "breaks ((wakeUp ^^ k) s) = breaks s - k \<and> (k \<noteq> 0 \<longrightarrow> k \<le> breaks s \<longrightarrow> IsAlive ((wakeUp ^^ k) s))" for k
    by (induction k) (auto simp: wakeUp_def)
  from this [of "breaks s"] show "breaker_ok s \<Longrightarrow> IsAlive ((wakeUp ^^ breaks s) s)"
    by (cases "breaks s = 0") (auto simp: breaker_ok_def)
qed

text \<open>
  C25: The circuit breaker always recovers: whatever the server answers and whatever calls are made,
  the flag is off only while a goroutine sleeps that will turn it on again; once the sleepers have
  woken up, the package is alive. While the flag is off, registering, removing and refreshing a peer
  fail at once and do not reach the server.
\<close>

theorem breaker_recovers:
  assumes "IsAlive s" and "s' = fold (redis_step api) ops s"
  shows "(IsAlive s' \<or> 0 < breaks s') \<and> IsAlive ((wakeUp ^^ breaks s') s') \<and>
    (\<not> IsAlive s' \<longrightarrow> (\<exists>e. SetLocalPeer api p s' = (s', Some e)) \<and> (\<exists>e. DelLocalPeer api p s' = (s', Some e)) \<and>
      (\<exists>e. UpdateLocalPeerExpiration api p s' = (s', Some e)))"
  using breaker_ok_run [of s api ops] wake_all [of s'] assms
  by (auto simp: breaker_ok_def SetLocalPeer_def DelLocalPeer_def UpdateLocalPeerExpiration_def)

definition failRedis :: "mem_store redis_api" where
  "failRedis = memRedis\<lparr>apiSet := \<lambda>k v t x. (x, Some (RedisErr ''timeout''))\<rparr>"

theorem breaker_recovers_witness:
  "\<not> IsAlive (fold (redis_step failRedis) [OpSetPeer ''p'', OpSetPeer ''q''] (emptyStore ''n'')) \<and>
   IsAlive ((wakeUp ^^ 1) (fold (redis_step failRedis) [OpSetPeer ''p'', OpSetPeer ''q''] (emptyStore ''n'')))"
proof -
  let ?s = "fold (redis_step failRedis) [OpSetPeer ''p'', OpSetPeer ''q''] (emptyStore ''n'')"
  have "IsAlive (emptyStore ''n'')" "breaks ?s = 1" "\<not> IsAlive ?s"
    by (simp_all add: emptyStore_def SetLocalPeer_def failRedis_def takeABreak_def)
  then show ?thesis
    using breaker_recovers [of "emptyStore ''n''" ?s failRedis "[OpSetPeer ''p'', OpSetPeer ''q'']"] by simp
qed

end
