(* ===== verification/Runs.thy ===== *)
theory Runs
  imports Main
begin

text \<open>
  Runs of a transition system, shared by the aggregator, the goroutine pool and the server. A run is
  a sequence of labelled steps. The locale \<open>run_invariant\<close> is the contract of an invariant, \<open>simulation\<close> the
  contract of a refinement: each step of the detailed system is a run of the abstract one with the
  same visible events.
\<close>

inductive trace :: "('s \<Rightarrow> 'l \<Rightarrow> 's \<Rightarrow> bool) \<Rightarrow> 's \<Rightarrow> 'l list \<Rightarrow> 's \<Rightarrow> bool" for step where
  nil: "trace step s [] s"
| snoc: "trace step s ls s1 \<Longrightarrow> step s1 l s2 \<Longrightarrow> trace step s (ls @ [l]) s2"

lemma trace_one: "step s l s1 \<Longrightarrow> trace step s [l] s1"
  using trace.snoc [OF trace.nil, of step s l s1] by simp

lemma trace_append: "trace step s1 ls2 s2 \<Longrightarrow> trace step s ls1 s1 \<Longrightarrow> trace step s (ls1 @ ls2) s2"
proof (induction rule: trace.induct)
  case (snoc s1 ls s2 l s3)
  then show ?case using trace.snoc [of step s "ls1 @ ls" s2 l s3] by simp
qed simp

lemma trace_Cons: "trace step s1 ls s2 \<Longrightarrow> step s l s1 \<Longrightarrow> trace step s (l # ls) s2"
  using trace_append [OF _ trace_one, of step s1 ls s2 s l] by simp

lemma trace_Nil_iff [simp]: "trace step s [] s1 \<longleftrightarrow> s1 = s"
  by (auto intro: trace.nil elim: trace.cases)

lemma trace_Cons_iff: "trace step s (l # ls) s2 \<longleftrightarrow> (\<exists>s1. step s l s1 \<and> trace step s1 ls s2)"
proof
  show "\<exists>s1. step s l s1 \<and> trace step s1 ls s2" if "trace step s (l # ls) s2"
    using that
  proof (induction s "l # ls" s2 arbitrary: ls rule: trace.induct)
    case (snoc s ks s1 k s2)
    then show ?case by (cases ks) (auto intro: trace.intros)
  qed
qed (auto intro: trace_Cons)

locale run_invariant =
  fixes step :: "'s \<Rightarrow> 'l \<Rightarrow> 's \<Rightarrow> bool" and good :: "'s \<Rightarrow> bool"
  assumes good_step: "step s l s1 \<Longrightarrow> good s \<Longrightarrow> good s1"
begin

lemma good_trace: "trace step s ls s1 \<Longrightarrow> good s \<Longrightarrow> good s1"
  by (induction rule: trace.induct) (auto intro: good_step)

end

locale simulation = run_invariant step good
  for step :: "'s \<Rightarrow> 'l \<Rightarrow> 's \<Rightarrow> bool" and good :: "'s \<Rightarrow> bool" +
  fixes abst :: "'s \<Rightarrow> 'a" and emit :: "'l \<Rightarrow> 'e list" and arun :: "'a \<Rightarrow> 'e list \<Rightarrow> 'a \<Rightarrow> bool"
  assumes arun_nil: "arun a [] a"
    and arun_trans: "arun a es b \<Longrightarrow> arun b fs c \<Longrightarrow> arun a (es @ fs) c"
    and sim_step: "step s l s1 \<Longrightarrow> good s \<Longrightarrow> arun (abst s) (emit l) (abst s1)"
begin

lemma sim_trace: "trace step s ls s1 \<Longrightarrow> good s \<Longrightarrow> arun (abst s) (concat (map emit ls)) (abst s1)"
proof (induction rule: trace.induct)
  case (snoc s ls s1 l s2)
  then have "arun (abst s1) (emit l) (abst s2)" using good_trace sim_step by blast
  then show ?case using arun_trans snoc by fastforce
qed (simp add: arun_nil)

end

end
