(* ===== verification/Aggregator.thy ===== *)
theory Aggregator
  imports Prelude Runs "HOL-Library.Multiset"
begin

text \<open>
  The batching aggregator of \<open>src/nodes/aggregator.go\<close>. Producers put items into the buffered
  channel \<open>eventQueue\<close>; workers move them into a batch and hand the batch to the batch processor
  when it is full, when the linger timer has fired, or when the aggregator stops.

  A worker is a state machine: each case of its \<open>select\<close> is one function, and \<open>agg_step\<close> is the
  relation of the whole aggregator, in which the workers, the timers, the producers, the goroutines
  of the error handler and the stopping goroutine interleave freely. The batch of a worker is a
  slice of an array that the worker reuses, so the model keeps the arrays: the error handler reads
  its items from the array at the time it runs. The linger timer has Go's semantics for a timer
  whose channel buffers one value. \<open>bp\<close> stands for the batch processor: given the batches it was
  called with before and the new one, it panics or says whether it returns an error.

  \<open>wg\<close> and the log messages are left out: \<open>Stop\<close> and \<open>SafeStop\<close> return once the workers are done.
\<close>

section \<open>Options and state\<close>

record AggregatorOption =
  BatchSize :: nat
  Workers :: nat
  ChannelBufferSize :: nat
  LingerTime :: int
  hasErrorHandler :: bool

datatype timer_state = TIdle | TArmed | TFired

datatype worker_state = Running | Draining | Done

record worker =
  aid :: nat
  blen :: nat
  timer :: timer_state
  wstate :: worker_state

record 'i agg =
  option :: AggregatorOption
  eventQueue :: "'i chan"
  quitClosed :: bool
  arrs :: "'i list list"
  workers :: "worker list"
  calls :: "'i list list"
  pending :: "(nat \<times> nat) list"
  retries :: "'i list list"

type_synonym 'i processor = "'i list list \<Rightarrow> 'i list \<Rightarrow> go_panic + bool"

definition NewAggregator :: "nat \<Rightarrow> (AggregatorOption \<Rightarrow> AggregatorOption) list \<Rightarrow> 'i agg" where
  "NewAggregator numCPU optionFuncs =
     (let o0 = \<lparr>BatchSize = 8, Workers = numCPU, ChannelBufferSize = 0, LingerTime = 60000000000,
                hasErrorHandler = False\<rparr>;
          o1 = foldl (\<lambda>o' f. f o') o0 optionFuncs;
          o2 = (if ChannelBufferSize o1 \<le> Workers o1 then o1\<lparr>ChannelBufferSize := Workers o1\<rparr> else o1)
      in \<lparr>option = o2, eventQueue = make_chan (ChannelBufferSize o2), quitClosed = False,
          arrs = [], workers = [], calls = [], pending = [], retries = []\<rparr>)"

text \<open>
  \<open>TryEnqueue\<close> tries twice, yielding in between; the state the second attempt sees is the argument
  \<open>yielded\<close>.
\<close>

definition Enqueue :: "'i \<Rightarrow> 'i agg \<Rightarrow> 'i agg outcome" where
  "Enqueue item s =
     (case chan_send item (eventQueue s) of
        Sent q \<Rightarrow> Ret (s\<lparr>eventQueue := q\<rparr>)
      | SendBlocks \<Rightarrow> Blocks
      | SendPanics \<Rightarrow> Panics SendOnClosed)"

definition TryEnqueue :: "('i agg \<Rightarrow> 'i agg) \<Rightarrow> 'i \<Rightarrow> 'i agg \<Rightarrow> ('i agg \<times> bool) outcome" where
  "TryEnqueue yielded item s =
     (case chan_send item (eventQueue s) of
        Sent q \<Rightarrow> Ret (s\<lparr>eventQueue := q\<rparr>, True)
      | SendPanics \<Rightarrow> Panics SendOnClosed
      | SendBlocks \<Rightarrow>
          (let s1 = yielded s
           in case chan_send item (eventQueue s1) of
                Sent q \<Rightarrow> Ret (s1\<lparr>eventQueue := q\<rparr>, True)
              | SendPanics \<Rightarrow> Panics SendOnClosed
              | SendBlocks \<Rightarrow> Ret (s1, False)))"

section \<open>The workers\<close>

definition worker_at :: "'i agg \<Rightarrow> nat \<Rightarrow> worker" where
  "worker_at s i = workers s ! i"

definition setWorker :: "nat \<Rightarrow> worker \<Rightarrow> 'i agg \<Rightarrow> 'i agg" where
  "setWorker i wk s = s\<lparr>workers := (workers s)[i := wk]\<rparr>"

definition batch :: "'i agg \<Rightarrow> nat \<Rightarrow> 'i list" where
  "batch s i = take (blen (worker_at s i)) (arrs s ! aid (worker_at s i))"

text \<open>The start of \<open>work\<close>: an empty slice of a new array and a stopped timer.\<close>

definition newWorker :: "nat \<Rightarrow> worker" where
  "newWorker a = \<lparr>aid = a, blen = 0, timer = TIdle, wstate = Running\<rparr>"

definition Start :: "'i agg \<Rightarrow> 'i agg" where
  "Start s = s\<lparr>arrs := arrs s @ replicate (Workers (option s)) [],
               workers := workers s @ map newWorker [length (arrs s)..<length (arrs s) + Workers (option s)]\<rparr>"

text \<open>The deferred function of \<open>work\<close> after a panic: the worker starts again from scratch.\<close>

definition restart :: "nat \<Rightarrow> 'i agg \<Rightarrow> 'i agg" where
  "restart i s = setWorker i (newWorker (length (arrs s))) (s\<lparr>arrs := arrs s @ [[]]\<rparr>)"

text \<open>\<open>batchProcess\<close> on the batch of worker \<open>i\<close>: the new state and whether the processor panicked.\<close>

definition batchProcess :: "'i processor \<Rightarrow> nat \<Rightarrow> 'i agg \<Rightarrow> 'i agg \<times> bool" where
  "batchProcess bp i s =
     (let items = batch s i;
          s1 = s\<lparr>calls := calls s @ [items]\<rparr>
      in case bp (calls s) items of
           Inl p \<Rightarrow> (s1, True)
         | Inr False \<Rightarrow> (s1, False)
         | Inr True \<Rightarrow>
             (if hasErrorHandler (option s)
              then s1\<lparr>pending := pending s @ [(aid (worker_at s i), blen (worker_at s i))]\<rparr> else s1, False))"

text \<open>\<open>append(batch, req)\<close> writes into the array of the worker.\<close>

definition appendBatch :: "nat \<Rightarrow> 'i \<Rightarrow> 'i agg \<Rightarrow> 'i agg" where
  "appendBatch i req s =
     (let wk = worker_at s i;
          a = arrs s ! aid wk;
          a' = (if blen wk < length a then a[blen wk := req] else a @ [req])
      in setWorker i (wk\<lparr>blen := Suc (blen wk)\<rparr>) (s\<lparr>arrs := (arrs s)[aid wk := a']\<rparr>))"

text \<open>
  After a full batch: \<open>if !lingerTimer.Stop() { <-lingerTimer.C }\<close> and \<open>batch = batch[0:0]\<close>. A timer
  that was not running and has no value in its channel blocks the worker for ever.
\<close>

definition stopTimer :: "nat \<Rightarrow> 'i agg \<Rightarrow> 'i agg" where
  "stopTimer i s =
     (let wk = worker_at s i
      in case timer wk of
           TIdle \<Rightarrow> setWorker i (wk\<lparr>wstate := Draining\<rparr>) s
         | _ \<Rightarrow> setWorker i (wk\<lparr>timer := TIdle, blen := 0\<rparr>) s)"

definition resetTimer :: "nat \<Rightarrow> 'i agg \<Rightarrow> 'i agg" where
  "resetTimer i s =
     (let wk = worker_at s i
      in setWorker i (wk\<lparr>timer := (if timer wk = TFired then TFired else TArmed)\<rparr>) s)"

text \<open>The three cases of the \<open>select\<close>; \<open>None\<close> when the case is not ready.\<close>

definition workRecv :: "'i processor \<Rightarrow> nat \<Rightarrow> 'i agg \<Rightarrow> 'i agg option" where
  "workRecv bp i s =
     (case chan_recv (eventQueue s) of
        Received req q \<Rightarrow>
          (let s1 = appendBatch i req (s\<lparr>eventQueue := q\<rparr>);
               batchSize = blen (worker_at s1 i)
           in if batchSize < BatchSize (option s)
              then Some (if batchSize = 1 then resetTimer i s1 else s1)
              else case batchProcess bp i s1 of
                     (s2, True) \<Rightarrow> Some (restart i s2)
                   | (s2, False) \<Rightarrow> Some (stopTimer i s2))
      | _ \<Rightarrow> None)"

definition workLinger :: "'i processor \<Rightarrow> nat \<Rightarrow> 'i agg \<Rightarrow> 'i agg option" where
  "workLinger bp i s =
     (if timer (worker_at s i) \<noteq> TFired then None
      else (let s1 = setWorker i ((worker_at s i)\<lparr>timer := TIdle\<rparr>) s
            in if blen (worker_at s1 i) = 0 then Some s1
               else case batchProcess bp i s1 of
                      (s2, True) \<Rightarrow> Some (restart i s2)
                    | (s2, False) \<Rightarrow> Some (setWorker i ((worker_at s2 i)\<lparr>blen := 0\<rparr>) s2)))"

definition workQuit :: "'i processor \<Rightarrow> nat \<Rightarrow> 'i agg \<Rightarrow> 'i agg option" where
  "workQuit bp i s =
     (if \<not> quitClosed s then None
      else case (if blen (worker_at s i) \<noteq> 0 then batchProcess bp i s else (s, False)) of
             (s2, True) \<Rightarrow> Some (restart i s2)
           | (s2, False) \<Rightarrow> Some (setWorker i ((worker_at s2 i)\<lparr>wstate := Done\<rparr>) s2))"

text \<open>\<open>close(agt.quit)\<close>, the first half of \<open>Stop\<close>; closing twice panics.\<close>

definition closeQuit :: "'i agg \<Rightarrow> 'i agg res" where
  "closeQuit s = (if quitClosed s then Inl CloseOfClosed else Inr (s\<lparr>quitClosed := True\<rparr>))"

definition Stop :: "'i agg \<Rightarrow> 'i agg res" where
  "Stop s = closeQuit s"

text \<open>
  \<open>SafeStop\<close> looks at the length of the queue, at once or at every tick, until it is 0; then it
  closes \<open>quit\<close>. Other goroutines can run between the look and the closing.
\<close>

definition safeStopLook :: "'i agg \<Rightarrow> bool" where
  "safeStopLook s \<longleftrightarrow> chan_len (eventQueue s) = 0"

text \<open>
  \<open>SafeStop\<close> as one call: \<open>drained\<close> is the state in which the loop first sees an empty queue and
  \<open>finished\<close> the state once the workers are done; both depend on the other goroutines.
\<close>

definition SafeStop :: "('i agg \<Rightarrow> 'i agg) \<Rightarrow> ('i agg \<Rightarrow> 'i agg) \<Rightarrow> 'i agg \<Rightarrow> 'i agg outcome" where
  "SafeStop drained finished s =
     (let s1 = (if safeStopLook s then s else drained s)
      in if \<not> safeStopLook s1 then Blocks
         else case closeQuit s1 of Inl p \<Rightarrow> Panics p | Inr s2 \<Rightarrow> Ret (finished s2))"

text \<open>The goroutine of the error handler: it reads the items from the array and sends them again.\<close>

definition runErrorHandler :: "nat \<Rightarrow> 'i agg \<Rightarrow> 'i agg" where
  "runErrorHandler k s =
     (let (a, len) = pending s ! k
      in s\<lparr>pending := take k (pending s) @ drop (Suc k) (pending s),
           retries := retries s @ [take len (arrs s ! a)]\<rparr>)"

section \<open>The aggregator as a transition system\<close>

datatype 'i label =
    LEnqueue 'i | LRecv nat | LFire nat | LLinger nat | LQuit nat | LLook | LClose | LRetry nat

abbreviation running :: "'i agg \<Rightarrow> nat \<Rightarrow> bool" where
  "running s i \<equiv> i < length (workers s) \<and> wstate (worker_at s i) = Running"

inductive agg_step :: "'i processor \<Rightarrow> 'i agg \<Rightarrow> 'i label \<Rightarrow> 'i agg \<Rightarrow> bool" for bp where
  enqueue: "Enqueue x s = Ret s' \<Longrightarrow> agg_step bp s (LEnqueue x) s'"
| recv: "running s i \<Longrightarrow> workRecv bp i s = Some s' \<Longrightarrow> agg_step bp s (LRecv i) s'"
| fire: "running s i \<Longrightarrow> timer (worker_at s i) = TArmed \<Longrightarrow>
    agg_step bp s (LFire i) (setWorker i ((worker_at s i)\<lparr>timer := TFired\<rparr>) s)"
| linger: "running s i \<Longrightarrow> workLinger bp i s = Some s' \<Longrightarrow> agg_step bp s (LLinger i) s'"
| quit: "running s i \<Longrightarrow> workQuit bp i s = Some s' \<Longrightarrow> agg_step bp s (LQuit i) s'"
| look: "safeStopLook s \<Longrightarrow> agg_step bp s LLook s"
| close: "closeQuit s = Inr s' \<Longrightarrow> agg_step bp s LClose s'"
| retry: "k < length (pending s) \<Longrightarrow> agg_step bp s (LRetry k) (runErrorHandler k s)"

abbreviation agg_run :: "'i processor \<Rightarrow> 'i agg \<Rightarrow> 'i label list \<Rightarrow> 'i agg \<Rightarrow> bool" where
  "agg_run bp \<equiv> trace (agg_step bp)"

fun item_of :: "'i label \<Rightarrow> 'i list" where
  "item_of (LEnqueue x) = [x]"
| "item_of _ = []"

definition enqueued :: "'i label list \<Rightarrow> 'i list" where
  "enqueued ls = concat (map item_of ls)"

inductive_cases agg_step_cases: "agg_step bp s l s'"

section \<open>The specification\<close>

text \<open>
  What the aggregator promises, without arrays, timers and control states: a queue, one open batch
  per worker and the batches delivered so far. A step of the specification accepts an item, moves
  the oldest item of the queue into a batch, or delivers a batch that is not empty and not larger
  than the batch size.
\<close>

type_synonym 'i spec = "'i list \<times> 'i list list \<times> 'i list list"

inductive spec_run :: "nat \<Rightarrow> 'i spec \<Rightarrow> 'i list \<Rightarrow> 'i spec \<Rightarrow> bool" for m where
  s_nil: "spec_run m a [] a"
| s_accept: "spec_run m a xs (q, bs, d) \<Longrightarrow> spec_run m a (xs @ [x]) (q @ [x], bs, d)"
| s_take: "spec_run m a xs (x # q, bs, d) \<Longrightarrow> i < length bs \<Longrightarrow> spec_run m a xs (q, bs[i := bs ! i @ [x]], d)"
| s_deliver: "spec_run m a xs (q, bs, d) \<Longrightarrow> i < length bs \<Longrightarrow> bs ! i \<noteq> [] \<Longrightarrow> length (bs ! i) \<le> m \<Longrightarrow>
    spec_run m a xs (q, bs[i := []], d @ [bs ! i])"

lemma mset_concat_update:
  "i < length bs \<Longrightarrow> mset (concat bs) = mset (bs ! i) + mset (concat (bs[i := []]))"
proof -
  assume i: "i < length bs"
  have "concat bs = concat (take i bs) @ bs ! i @ concat (drop (Suc i) bs)"
    by (metis concat.simps(2) concat_append id_take_nth_drop [OF i])
  moreover have "concat (bs[i := []]) = concat (take i bs) @ concat (drop (Suc i) bs)"
    using i by (simp add: upd_conv_take_nth_drop)
  ultimately show ?thesis by simp
qed

lemma mset_concat_set:
  "i < length bs \<Longrightarrow> mset (concat (bs[i := b])) = mset b + mset (concat (bs[i := []]))"
  using mset_concat_update [of i "bs[i := b]"] by simp

lemma spec_conserves:
  assumes "spec_run m (q0, bs0, d0) xs (q, bs, d)"
  shows "length bs = length bs0 \<and>
    mset (concat d) + mset (concat bs) + mset q = mset (concat d0) + mset (concat bs0) + mset q0 + mset xs"
  using assms
proof (induction a\<equiv>"(q0, bs0, d0)" xs b\<equiv>"(q, bs, d)" arbitrary: q bs d rule: spec_run.induct)
  case (s_take xs x q bs d i)
  then show ?case
    using mset_concat_update [of i bs] mset_concat_set [of i bs "bs ! i @ [x]"] by (simp add: ac_simps)
next
  case (s_deliver xs q bs d i)
  then show ?case using mset_concat_update [of i bs] by (simp add: ac_simps)
qed auto

lemma spec_one_worker:
  assumes "spec_run m (q0, [b0], d0) xs (q, bs, d)"
  shows "\<exists>b. bs = [b] \<and> concat d @ b @ q = concat d0 @ b0 @ q0 @ xs"
  using assms
  by (induction a\<equiv>"(q0, [b0], d0)" xs b\<equiv>"(q, bs, d)" arbitrary: q bs d rule: spec_run.induct) auto

lemma spec_batches:
  assumes "spec_run m (q0, bs0, d0) xs (q, bs, d)" "\<forall>b \<in> set d0. b \<noteq> [] \<and> length b \<le> m"
  shows "\<forall>b \<in> set d. b \<noteq> [] \<and> length b \<le> m"
  using assms
  by (induction a\<equiv>"(q0, bs0, d0)" xs b\<equiv>"(q, bs, d)" arbitrary: q bs d rule: spec_run.induct) auto

lemma spec_trans:
  assumes "spec_run m b ys c" "spec_run m a xs b"
  shows "spec_run m a (xs @ ys) c"
  using assms
  by (induction rule: spec_run.induct) (auto intro: spec_run.intros simp flip: append_assoc)

section \<open>Invariant and simulation\<close>

definition obatch :: "'i list list \<Rightarrow> worker \<Rightarrow> 'i list" where
  "obatch as wk = (if wstate wk = Running then take (blen wk) (as ! aid wk) else [])"

definition abs_agg :: "'i agg \<Rightarrow> 'i spec" where
  "abs_agg s = (chbuf (eventQueue s), map (obatch (arrs s)) (workers s), calls s)"

text \<open>
  A worker that waits has a batch below the batch size, and its timer is stopped exactly when the
  batch is empty; so a batch that waits is always delivered later.
\<close>

definition worker_ok :: "nat \<Rightarrow> 'i list list \<Rightarrow> worker \<Rightarrow> bool" where
  "worker_ok m as wk \<longleftrightarrow> aid wk < length as \<and> blen wk \<le> length (as ! aid wk) \<and> wstate wk \<noteq> Draining \<and>
     (wstate wk = Running \<longrightarrow> blen wk < m \<and> (blen wk = 0 \<longleftrightarrow> timer wk = TIdle))"

definition agg_ok :: "'i agg \<Rightarrow> bool" where
  "agg_ok s \<longleftrightarrow> 2 \<le> BatchSize (option s) \<and> distinct (map aid (workers s)) \<and>
     (\<forall>i < length (workers s). worker_ok (BatchSize (option s)) (arrs s) (workers s ! i)) \<and>
     (\<forall>(a, len) \<in> set (pending s). a < length (arrs s) \<and> len \<le> length (arrs s ! a)) \<and>
     chan_ok (eventQueue s)"

lemma setWorker_simps [simp]:
  "workers (setWorker i wk s) = (workers s)[i := wk]" "arrs (setWorker i wk s) = arrs s"
  "calls (setWorker i wk s) = calls s" "pending (setWorker i wk s) = pending s"
  "option (setWorker i wk s) = option s" "eventQueue (setWorker i wk s) = eventQueue s"
  "quitClosed (setWorker i wk s) = quitClosed s" "retries (setWorker i wk s) = retries s"
  by (simp_all add: setWorker_def)

lemma worker_at_setWorker [simp]: "i < length (workers s) \<Longrightarrow> worker_at (setWorker i wk s) i = wk"
  by (simp add: worker_at_def)

lemma aid_inj: "agg_ok s \<Longrightarrow> i < length (workers s) \<Longrightarrow> j < length (workers s) \<Longrightarrow>
    aid (workers s ! i) = aid (workers s ! j) \<longleftrightarrow> i = j"
  by (auto simp: agg_ok_def distinct_conv_nth)

text \<open>A step of worker \<open>i\<close> that changes at most its own array and grows arrays only.\<close>

lemma local_step:
  assumes ok: "agg_ok s" and i: "i < length (workers s)"
    and ws: "workers s' = (workers s)[i := wk']"
    and op: "option s' = option s" and q: "chan_ok (eventQueue s')"
    and as: "length (arrs s) \<le> length (arrs s')"
      "\<And>a. a < length (arrs s) \<Longrightarrow> a \<noteq> aid (workers s ! i) \<Longrightarrow> arrs s' ! a = arrs s ! a"
      "length (arrs s ! aid (workers s ! i)) \<le> length (arrs s' ! aid (workers s ! i))"
    and wk': "worker_ok (BatchSize (option s)) (arrs s') wk'"
      "aid wk' = aid (workers s ! i) \<or> aid wk' \<ge> length (arrs s)"
    and pend: "\<And>a len. (a, len) \<in> set (pending s') \<Longrightarrow>
      (a, len) \<in> set (pending s) \<or> a < length (arrs s') \<and> len \<le> length (arrs s' ! a)"
  shows "agg_ok s'" and "map (obatch (arrs s')) (workers s') =
    (map (obatch (arrs s)) (workers s))[i := obatch (arrs s') wk']"
proof -
  have w: "worker_ok (BatchSize (option s)) (arrs s) (workers s ! j)" if "j < length (workers s)" for j
    using ok that by (auto simp: agg_ok_def)
  have other: "aid (workers s ! j) < length (arrs s)" "arrs s' ! aid (workers s ! j) = arrs s ! aid (workers s ! j)"
    if "j < length (workers s)" "j \<noteq> i" for j
    using w [OF that(1)] as(2) [of "aid (workers s ! j)"] aid_inj [OF ok that(1) i] that(2)
    by (auto simp: worker_ok_def)
  show "map (obatch (arrs s')) (workers s') = (map (obatch (arrs s)) (workers s))[i := obatch (arrs s') wk']"
    by (rule nth_equalityI) (use i other in \<open>auto simp: ws nth_list_update obatch_def\<close>)
  have "worker_ok (BatchSize (option s')) (arrs s') (workers s' ! j)" if "j < length (workers s')" for j
  proof (cases "j = i")
    case True
    then show ?thesis using wk'(1) i ws op by simp
  next
    case False
    then show ?thesis using w [of j] other [of j] that ws as(1) by (simp add: worker_ok_def op)
  qed
  moreover have "distinct (map aid (workers s'))"
    unfolding distinct_conv_nth
  proof (intro allI impI)
    fix j k assume jk: "j < length (map aid (workers s'))" "k < length (map aid (workers s'))" "j \<noteq> k"
    show "map aid (workers s') ! j \<noteq> map aid (workers s') ! k"
      using jk wk'(2) aid_inj [OF ok] other(1) [of j] other(1) [of k] i
      by (cases "j = i"; cases "k = i") (auto simp: ws)
  qed
  moreover have "a < length (arrs s') \<and> len \<le> length (arrs s' ! a)" if "(a, len) \<in> set (pending s')" for a len
  proof -
    have "a < length (arrs s) \<and> len \<le> length (arrs s ! a)" if "(a, len) \<in> set (pending s)"
      using ok that by (auto simp: agg_ok_def)
    then show ?thesis
      using pend [OF that] as le_trans [OF _ as(3)] by (cases "a = aid (workers s ! i)") fastforce+
  qed
  ultimately show "agg_ok s'"
    using ok q by (auto simp: agg_ok_def op)
qed

lemma batchProcess_spec:
  assumes "batchProcess bp i s = (s2, p)"
  obtains P where "s2 = s\<lparr>calls := calls s @ [batch s i], pending := P\<rparr>"
    "set P \<subseteq> insert (aid (worker_at s i), blen (worker_at s i)) (set (pending s))"
proof -
  have "s2 = s\<lparr>calls := calls s @ [batch s i], pending := pending s2\<rparr> \<and>
      set (pending s2) \<subseteq> insert (aid (worker_at s i), blen (worker_at s i)) (set (pending s))"
    using assms by (auto simp: batchProcess_def Let_def split: sum.splits bool.splits if_splits)
  with that show thesis by blast
qed

lemma batchProcess_workers: "batchProcess bp i s = (s2, p) \<Longrightarrow> workers s2 = workers s"
  by (auto elim: batchProcess_spec)

lemma take_append_batch:
  assumes "b \<le> length a"
  shows "take (Suc b) (if b < length a then a[b := x] else a @ [x]) = take b a @ [x]"
    "Suc b \<le> length (if b < length a then a[b := x] else a @ [x])"
    "length a \<le> length (if b < length a then a[b := x] else a @ [x])"
  using assms by (auto simp: take_Suc_conv_app_nth)

text \<open>The array of worker \<open>i\<close> after \<open>append\<close>.\<close>

definition pushed :: "'i agg \<Rightarrow> nat \<Rightarrow> 'i \<Rightarrow> 'i list" where
  "pushed s i x =
     (let wk = workers s ! i; a = arrs s ! aid wk
      in if blen wk < length a then a[blen wk := x] else a @ [x])"

lemma appendBatch_simps [simp]:
  "workers (appendBatch i x s) = (workers s)[i := (workers s ! i)\<lparr>blen := Suc (blen (workers s ! i))\<rparr>]"
  "arrs (appendBatch i x s) = (arrs s)[aid (workers s ! i) := pushed s i x]"
  "calls (appendBatch i x s) = calls s" "pending (appendBatch i x s) = pending s"
  "option (appendBatch i x s) = option s" "eventQueue (appendBatch i x s) = eventQueue s"
  by (simp_all add: appendBatch_def Let_def pushed_def worker_at_def)

text \<open>A step of worker \<open>i\<close> after which it has no open batch: it goes on, starts again or is done.\<close>

lemma emptied:
  assumes ok: "agg_ok s" and i: "i < length (workers s)"
    and ws: "workers s' = (workers s)[i := wk']" and op: "option s' = option s" and q: "chan_ok (eventQueue s')"
    and as: "arrs s' = (arrs s)[aid (workers s ! i) := a'] @ new"
      "length (arrs s ! aid (workers s ! i)) \<le> length a'"
    and wk': "wk' = newWorker (length (arrs s)) \<and> new = [[]] \<or>
      aid wk' = aid (workers s ! i) \<and> blen wk' \<le> length a' \<and> new = [] \<and>
      (wstate wk' = Running \<and> blen wk' = 0 \<and> timer wk' = TIdle \<or> wstate wk' = Done)"
    and pend: "set (pending s') \<subseteq> insert (aid (workers s ! i), len) (set (pending s))" "len \<le> length a'"
  shows "agg_ok s' \<and> abs_agg s' =
    (chbuf (eventQueue s'), (map (obatch (arrs s)) (workers s))[i := []], calls s')"
proof -
  have a: "aid (workers s ! i) < length (arrs s)" and m: "2 \<le> BatchSize (option s)"
    using ok i by (auto simp: agg_ok_def worker_ok_def)
  have arr: "arrs s' ! aid (workers s ! i) = a'" using a by (simp add: as nth_append)
  have "worker_ok (BatchSize (option s)) (arrs s') wk'"
    using wk' a m by (auto simp: worker_ok_def newWorker_def as nth_append)
  moreover have "aid wk' = aid (workers s ! i) \<or> aid wk' \<ge> length (arrs s)"
    using wk' by (auto simp: newWorker_def)
  ultimately have "agg_ok s'" "map (obatch (arrs s')) (workers s') =
      (map (obatch (arrs s)) (workers s))[i := obatch (arrs s') wk']"
    by (rule local_step [OF ok i ws op q, rotated 3]; use as arr pend a in \<open>auto simp: nth_append\<close>)+
  moreover have "obatch (arrs s') wk' = []" using wk' by (auto simp: obatch_def newWorker_def)
  ultimately show ?thesis by (simp add: abs_agg_def)
qed

text \<open>The control part of the three cases after the batch processor was called.\<close>

lemma recv_waits:
  assumes ok: "agg_ok s" and r: "running s i" and q: "chan_ok q"
    and small: "Suc (blen (workers s ! i)) < BatchSize (option s)"
    and s1: "s1 = appendBatch i x (s\<lparr>eventQueue := q\<rparr>)"
    and s': "s' = (if blen (workers s ! i) = 0 then resetTimer i s1 else s1)"
  shows "agg_ok s' \<and> abs_agg s' = (chbuf q, (map (obatch (arrs s)) (workers s))
    [i := map (obatch (arrs s)) (workers s) ! i @ [x]], calls s) \<and> option s' = option s"
proof -
  let ?wk = "workers s ! i" and ?bs = "map (obatch (arrs s)) (workers s)" and ?a' = "pushed s i x"
  have i: "i < length (workers s)" and run: "wstate ?wk = Running" using r by (auto simp: worker_at_def)
  then have a: "aid ?wk < length (arrs s)" "blen ?wk \<le> length (arrs s ! aid ?wk)" "blen ?wk = 0 \<longleftrightarrow> timer ?wk = TIdle"
    using ok by (auto simp: agg_ok_def worker_ok_def)
  have push: "take (Suc (blen ?wk)) ?a' = take (blen ?wk) (arrs s ! aid ?wk) @ [x]" "Suc (blen ?wk) \<le> length ?a'"
      "length (arrs s ! aid ?wk) \<le> length ?a'" "pushed (s\<lparr>eventQueue := q\<rparr>) i x = ?a'"
    using take_append_batch [OF a(2), of x] by (simp_all add: pushed_def Let_def)
  define wk' where "wk' = ?wk\<lparr>blen := Suc (blen ?wk),
    timer := (if blen ?wk = 0 then (if timer ?wk = TFired then TFired else TArmed) else timer ?wk)\<rparr>"
  have f: "workers s' = (workers s)[i := wk']" "option s' = option s" "eventQueue s' = q" "calls s' = calls s"
      "pending s' = pending s" "arrs s' = (arrs s)[aid ?wk := ?a']"
    using s' s1 i push(4) by (auto simp: resetTimer_def Let_def worker_at_def wk'_def)
  have "worker_ok (BatchSize (option s)) (arrs s') wk'" "aid wk' = aid ?wk"
    using a push small run by (auto simp: worker_ok_def wk'_def f)
  then have "agg_ok s'" "map (obatch (arrs s')) (workers s') = ?bs[i := obatch (arrs s') wk']"
    by (intro local_step [OF ok i f(1,2)]; use f a push q in auto)+
  moreover have "obatch (arrs s') wk' = ?bs ! i @ [x]"
    using a(1) push(1) run i by (simp add: obatch_def wk'_def f)
  ultimately show ?thesis using f by (simp add: abs_agg_def)
qed

lemma recv_full:
  assumes ok: "agg_ok s" and r: "running s i" and q: "chan_ok q"
    and full: "\<not> Suc (blen (workers s ! i)) < BatchSize (option s)"
    and s1: "s1 = appendBatch i x (s\<lparr>eventQueue := q\<rparr>)" and bp: "batchProcess bp i s1 = (s2, p)"
    and s': "s' = (if p then restart i s2 else stopTimer i s2)"
  shows "agg_ok s' \<and> abs_agg s' = (chbuf q, (map (obatch (arrs s)) (workers s))[i := []],
    calls s @ [map (obatch (arrs s)) (workers s) ! i @ [x]]) \<and> option s' = option s"
proof -
  let ?wk = "workers s ! i" and ?bs = "map (obatch (arrs s)) (workers s)" and ?a' = "pushed s i x"
  have i: "i < length (workers s)" and run: "wstate ?wk = Running" using r by (auto simp: worker_at_def)
  then have a: "aid ?wk < length (arrs s)" "blen ?wk \<le> length (arrs s ! aid ?wk)" "blen ?wk = 0 \<longleftrightarrow> timer ?wk = TIdle"
      and m: "2 \<le> BatchSize (option s)"
    using ok by (auto simp: agg_ok_def worker_ok_def)
  have push: "take (Suc (blen ?wk)) ?a' = take (blen ?wk) (arrs s ! aid ?wk) @ [x]" "Suc (blen ?wk) \<le> length ?a'"
      "length (arrs s ! aid ?wk) \<le> length ?a'" "pushed (s\<lparr>eventQueue := q\<rparr>) i x = ?a'"
    using take_append_batch [OF a(2), of x] by (simp_all add: pushed_def Let_def)
  have b1: "batch s1 i = ?bs ! i @ [x]"
    using i a(1) push(1,4) run by (simp add: batch_def s1 worker_at_def obatch_def)
  obtain P where s2: "s2 = s1\<lparr>calls := calls s @ [?bs ! i @ [x]], pending := P\<rparr>"
      "set P \<subseteq> insert (aid ?wk, Suc (blen ?wk)) (set (pending s))"
    using batchProcess_spec [OF bp] b1 i by (auto simp: s1 worker_at_def)
  have t: "timer ?wk \<noteq> TIdle" using full m a(3) by auto
  define wk' where "wk' = (if p then newWorker (length (arrs s)) else ?wk\<lparr>timer := TIdle, blen := 0\<rparr>)"
  have f: "workers s' = (workers s)[i := wk']" "option s' = option s" "eventQueue s' = q"
      "calls s' = calls s @ [?bs ! i @ [x]]" "pending s' = P"
      "arrs s' = (arrs s)[aid ?wk := ?a'] @ (if p then [[]] else [])"
    using s' i s2(1) t push(4)
    by (auto simp: s1 restart_def stopTimer_def Let_def worker_at_def wk'_def split: timer_state.splits)
  have "wk' = newWorker (length (arrs s)) \<and> (if p then [[]] else []) = [[]] \<or>
      aid wk' = aid ?wk \<and> blen wk' \<le> length ?a' \<and> (if p then [[]] else []) = [] \<and>
      (wstate wk' = Running \<and> blen wk' = 0 \<and> timer wk' = TIdle \<or> wstate wk' = Done)"
    using run by (simp add: wk'_def)
  from emptied [OF ok i f(1,2) _ f(6) push(3) this, of "Suc (blen ?wk)"] show ?thesis
    using f q s2(2) push(2) by simp
qed

text \<open>Linger and quit: an open batch that is not empty is delivered.\<close>

lemma flush:
  assumes ok: "agg_ok s" and r: "running s i" and s0: "s0 = setWorker i wk0 s"
    and wk0: "wk0 = (workers s ! i)\<lparr>timer := timer wk0\<rparr>"
    and bp: "batchProcess bp i s0 = (s2, p)"
    and s': "s' = (if p then restart i s2 else setWorker i wk1 s2)"
    and wk1: "wk1 = (workers s ! i)\<lparr>timer := TIdle, blen := 0\<rparr> \<or> wk1 = wk0\<lparr>wstate := Done\<rparr>"
  shows "agg_ok s' \<and> abs_agg s' = (chbuf (eventQueue s), (map (obatch (arrs s)) (workers s))[i := []],
    calls s @ [map (obatch (arrs s)) (workers s) ! i]) \<and> option s' = option s"
proof -
  let ?wk = "workers s ! i" and ?bs = "map (obatch (arrs s)) (workers s)"
  have i: "i < length (workers s)" and run: "wstate ?wk = Running" using r by (auto simp: worker_at_def)
  then have a: "aid ?wk < length (arrs s)" "blen ?wk \<le> length (arrs s ! aid ?wk)" and q: "chan_ok (eventQueue s)"
    using ok by (auto simp: agg_ok_def worker_ok_def)
  have w0: "aid wk0 = aid ?wk" "blen wk0 = blen ?wk" "wstate wk0 = Running"
    using run by (subst wk0; simp)+
  have b: "batch s0 i = ?bs ! i" using i w0 run by (simp add: batch_def s0 obatch_def)
  obtain P where s2: "s2 = s0\<lparr>calls := calls s @ [?bs ! i], pending := P\<rparr>"
      "set P \<subseteq> insert (aid ?wk, blen ?wk) (set (pending s))"
    using batchProcess_spec [OF bp] b i w0 by (auto simp: s0)
  define wk' where "wk' = (if p then newWorker (length (arrs s)) else wk1)"
  have f: "workers s' = (workers s)[i := wk']" "option s' = option s" "eventQueue s' = eventQueue s"
      "calls s' = calls s @ [?bs ! i]" "pending s' = P"
      "arrs s' = (arrs s)[aid ?wk := arrs s ! aid ?wk] @ (if p then [[]] else [])"
    using s' i s2(1) by (auto simp: s0 restart_def wk'_def)
  have "wk' = newWorker (length (arrs s)) \<and> (if p then [[]] else []) = [[]] \<or>
      aid wk' = aid ?wk \<and> blen wk' \<le> length (arrs s ! aid ?wk) \<and> (if p then [[]] else []) = [] \<and>
      (wstate wk' = Running \<and> blen wk' = 0 \<and> timer wk' = TIdle \<or> wstate wk' = Done)"
    using run wk1 w0 a(2) by (auto simp: wk'_def)
  from emptied [OF ok i f(1,2) _ f(6) _ this, of "blen ?wk"] show ?thesis
    using f q s2(2) a(2) by simp
qed

text \<open>A worker that receives an item keeps it in its open batch or delivers the batch with it.\<close>

lemma recv_effect:
  assumes ok: "agg_ok s" and r: "running s i" and rq: "chan_recv (eventQueue s) = Received x q"
    and st: "workRecv bp i s = Some s'" and bs: "bs = map (obatch (arrs s)) (workers s)"
  shows "agg_ok s' \<and> option s' = option s \<and>
    (abs_agg s' = (chbuf q, bs[i := bs ! i @ [x]], calls s) \<or> abs_agg s' = (chbuf q, bs[i := []], calls s @ [bs ! i @ [x]]))"
proof -
  let ?wk = "workers s ! i"
  have q: "chan_ok q" using ok rq chan_ok_recv by (auto simp: agg_ok_def)
  define s1 where "s1 = appendBatch i x (s\<lparr>eventQueue := q\<rparr>)"
  have len: "blen (worker_at s1 i) = Suc (blen ?wk)" using r by (simp add: s1_def worker_at_def)
  show ?thesis
  proof (cases "Suc (blen ?wk) < BatchSize (option s)")
    case True
    then have "s' = (if blen ?wk = 0 then resetTimer i s1 else s1)"
      using st rq len by (auto simp: workRecv_def s1_def Let_def)
    from recv_waits [OF ok r q True s1_def this] bs show ?thesis by simp
  next
    case False
    obtain s2 p where bp: "batchProcess bp i s1 = (s2, p)" by fastforce
    with False have "s' = (if p then restart i s2 else stopTimer i s2)"
      using st rq len by (cases p) (auto simp: workRecv_def s1_def Let_def)
    from recv_full [OF ok r q False s1_def bp this] bs show ?thesis by simp
  qed
qed

lemma recv_simulates:
  assumes ok: "agg_ok s" and r: "running s i" and st: "workRecv bp i s = Some s'"
  shows "agg_ok s' \<and> spec_run (BatchSize (option s)) (abs_agg s) [] (abs_agg s') \<and> option s' = option s"
proof -
  let ?m = "BatchSize (option s)" and ?bs = "map (obatch (arrs s)) (workers s)"
  obtain x q where rq: "chan_recv (eventQueue s) = Received x q"
    using st by (auto simp: workRecv_def split: recv_result.splits)
  then have buf: "chbuf (eventQueue s) = x # chbuf q" by (simp add: chan_recv_Received)
  have i: "i < length (workers s)" and b: "length (?bs ! i) < ?m"
    using ok r by (auto simp: agg_ok_def worker_ok_def worker_at_def obatch_def)
  have taken: "spec_run ?m (abs_agg s) [] (chbuf q, ?bs[i := ?bs ! i @ [x]], calls s)"
    unfolding abs_agg_def buf by (rule s_take [OF s_nil]) (use i in simp)
  show ?thesis using recv_effect [OF ok r rq st refl] taken s_deliver [OF taken, of i] i b by auto
qed

lemma flush_spec:
  assumes "agg_ok s" "running s i" "blen (workers s ! i) \<noteq> 0"
  shows "spec_run (BatchSize (option s)) (abs_agg s) [] (chbuf (eventQueue s),
    (map (obatch (arrs s)) (workers s))[i := []], calls s @ [map (obatch (arrs s)) (workers s) ! i])"
proof -
  have "worker_ok (BatchSize (option s)) (arrs s) (workers s ! i)" using assms(1,2) by (simp add: agg_ok_def)
  then show ?thesis
    unfolding abs_agg_def
    by (intro s_deliver [OF s_nil]) (use assms(2,3) in \<open>auto simp: worker_ok_def obatch_def worker_at_def\<close>)
qed

lemma linger_simulates:
  assumes ok: "agg_ok s" and r: "running s i" and st: "workLinger bp i s = Some s'"
  shows "agg_ok s' \<and> spec_run (BatchSize (option s)) (abs_agg s) [] (abs_agg s') \<and> option s' = option s"
proof -
  let ?wk = "workers s ! i"
  define s1 where "s1 = setWorker i (?wk\<lparr>timer := TIdle\<rparr>) s"
  have i: "i < length (workers s)" and t: "timer ?wk = TFired" and ne: "blen ?wk \<noteq> 0"
    using ok r st by (auto simp: workLinger_def worker_at_def agg_ok_def worker_ok_def split: if_splits)
  obtain s2 p where bp: "batchProcess bp i s1 = (s2, p)" by fastforce
  have "workers s2 ! i = ?wk\<lparr>timer := TIdle\<rparr>" using batchProcess_workers [OF bp] i by (simp add: s1_def)
  then have "s' = (if p then restart i s2 else setWorker i (?wk\<lparr>timer := TIdle, blen := 0\<rparr>) s2)"
    using st t ne bp i by (cases p) (auto simp: workLinger_def worker_at_def s1_def Let_def)
  from flush [OF ok r s1_def _ bp this] flush_spec [OF ok r ne] show ?thesis by simp
qed

lemma quit_simulates:
  assumes ok: "agg_ok s" and r: "running s i" and st: "workQuit bp i s = Some s'"
  shows "agg_ok s' \<and> spec_run (BatchSize (option s)) (abs_agg s) [] (abs_agg s') \<and> option s' = option s"
proof -
  let ?wk = "workers s ! i"
  have i: "i < length (workers s)" using r by simp
  show ?thesis
  proof (cases "blen ?wk = 0")
    case True
    then have s': "s' = setWorker i (?wk\<lparr>wstate := Done\<rparr>) s"
      using st i by (auto simp: workQuit_def worker_at_def split: if_splits)
    have "agg_ok s' \<and> abs_agg s' = (chbuf (eventQueue s'), (map (obatch (arrs s)) (workers s))[i := []], calls s')"
      by (rule emptied [OF ok i, of _ "?wk\<lparr>wstate := Done\<rparr>" "arrs s ! aid ?wk" "[]" 0])
        (use ok True in \<open>auto simp: s' agg_ok_def\<close>)
    moreover have "(map (obatch (arrs s)) (workers s))[i := []] = map (obatch (arrs s)) (workers s)"
      by (rule list_update_same_conv [THEN iffD2]) (use i True in \<open>auto simp: obatch_def\<close>)
    ultimately show ?thesis by (simp add: s' abs_agg_def s_nil)
  next
    case False
    obtain s2 p where bp: "batchProcess bp i s = (s2, p)" by fastforce
    have "workers s2 ! i = ?wk" using batchProcess_workers [OF bp] by simp
    then have s': "s' = (if p then restart i s2 else setWorker i (?wk\<lparr>wstate := Done\<rparr>) s2)"
      using st False bp by (cases p) (auto simp: workQuit_def worker_at_def split: if_splits)
    have "s = setWorker i ?wk s" by (simp add: setWorker_def)
    from flush [OF ok r this _ bp s'] flush_spec [OF ok r False] show ?thesis by simp
  qed
qed

lemma enqueue_simulates:
  assumes ok: "agg_ok s" and e: "Enqueue x s = Ret s'"
  shows "agg_ok s' \<and> spec_run (BatchSize (option s)) (abs_agg s) [x] (abs_agg s') \<and> option s' = option s"
proof -
  obtain q where q: "chan_send x (eventQueue s) = Sent q" "s' = s\<lparr>eventQueue := q\<rparr>"
    using e by (auto simp: Enqueue_def split: send_result.splits)
  then have "chan_ok q" "chbuf q = chbuf (eventQueue s) @ [x]"
    using chan_ok_send [OF q(1)] by (auto simp: chan_send_Sent)
  then show ?thesis
    using ok q(2) s_accept [OF s_nil, of "BatchSize (option s)" _ _ _ x] by (auto simp: agg_ok_def abs_agg_def)
qed

lemma fire_simulates:
  assumes ok: "agg_ok s" and r: "running s i" "timer (worker_at s i) = TArmed"
    and s': "s' = setWorker i ((worker_at s i)\<lparr>timer := TFired\<rparr>) s"
  shows "agg_ok s' \<and> abs_agg s' = abs_agg s \<and> option s' = option s"
proof -
  let ?wk' = "(worker_at s i)\<lparr>timer := TFired\<rparr>"
  have i: "i < length (workers s)" using r by simp
  have w: "worker_ok (BatchSize (option s)) (arrs s) (workers s ! i)" using ok i by (simp add: agg_ok_def)
  then have w': "worker_ok (BatchSize (option s)) (arrs s) ?wk'" "aid ?wk' = aid (workers s ! i)"
    using r by (auto simp: worker_ok_def worker_at_def)
  have "agg_ok s'" "map (obatch (arrs s')) (workers s') = (map (obatch (arrs s)) (workers s))[i := obatch (arrs s') ?wk']"
    by (rule local_step [OF ok i, of s' ?wk']; use w' ok in \<open>auto simp: s' agg_ok_def\<close>)+
  moreover have "(map (obatch (arrs s)) (workers s))[i := obatch (arrs s') ?wk'] = map (obatch (arrs s)) (workers s)"
    by (rule list_update_same_conv [THEN iffD2]) (use i in \<open>auto simp: s' obatch_def worker_at_def\<close>)
  ultimately show ?thesis using s' by (simp add: abs_agg_def)
qed

lemma step_simulates:
  assumes "agg_step bp s l s'" "agg_ok s"
  shows "agg_ok s' \<and> spec_run (BatchSize (option s)) (abs_agg s) (item_of l) (abs_agg s') \<and> option s' = option s"
  using assms
proof cases
  case (enqueue x)
  then show ?thesis using enqueue_simulates [OF assms(2)] by simp
next
  case (fire i)
  have "agg_ok s' \<and> abs_agg s' = abs_agg s \<and> option s' = option s"
    by (rule fire_simulates [OF assms(2) fire(3,4,2)])
  then show ?thesis using fire(1) by (simp add: s_nil)
next
  case (retry k)
  have "set (take k (pending s) @ drop (Suc k) (pending s)) \<subseteq> set (pending s)"
    using set_take_subset [of k "pending s"] set_drop_subset [of "Suc k" "pending s"] by auto
  then show ?thesis
    using assms(2) retry by (auto simp: runErrorHandler_def agg_ok_def abs_agg_def Let_def s_nil split: prod.splits)
next
  case close
  then have "s' = s\<lparr>quitClosed := True\<rparr>" by (simp add: closeQuit_def split: if_splits)
  then show ?thesis using assms(2) close by (simp add: agg_ok_def abs_agg_def s_nil)
next
  case (recv i)
  then show ?thesis using recv_simulates [OF assms(2)] by simp
next
  case (linger i)
  then show ?thesis using linger_simulates [OF assms(2)] by simp
next
  case (quit i)
  then show ?thesis using quit_simulates [OF assms(2)] by simp
qed (use assms(2) in \<open>simp add: s_nil\<close>)

text \<open>The options do not change, so the contract of a refinement holds for each value of them.\<close>

interpretation agg_sim: simulation "agg_step bp" "\<lambda>s. agg_ok s \<and> option s = opt" abs_agg item_of "spec_run (BatchSize opt)"
proof unfold_locales
  fix s :: "'a agg" and l s1
  assume s: "agg_step bp s l s1" "agg_ok s \<and> option s = opt"
  then show "agg_ok s1 \<and> option s1 = opt" "spec_run (BatchSize opt) (abs_agg s) (item_of l) (abs_agg s1)"
    using step_simulates [of bp s l s1] by (auto simp: enqueued_def)
qed (auto intro: s_nil spec_trans)

lemma run_simulates:
  assumes "agg_run bp s ls s'" "agg_ok s"
  shows "agg_ok s' \<and> spec_run (BatchSize (option s)) (abs_agg s) (enqueued ls) (abs_agg s') \<and> option s' = option s"
  using agg_sim.good_trace [OF assms(1), of "option s"] agg_sim.sim_trace [OF assms(1), of "option s"] assms(2)
  by (simp add: enqueued_def)

section \<open>Executing runs\<close>

fun exec_step :: "'i processor \<Rightarrow> 'i agg \<Rightarrow> 'i label \<Rightarrow> 'i agg option" where
  "exec_step bp s (LEnqueue x) = (case Enqueue x s of Ret s' \<Rightarrow> Some s' | _ \<Rightarrow> None)"
| "exec_step bp s (LRecv i) = (if running s i then workRecv bp i s else None)"
| "exec_step bp s (LFire i) =
     (if running s i \<and> timer (worker_at s i) = TArmed
      then Some (setWorker i ((worker_at s i)\<lparr>timer := TFired\<rparr>) s) else None)"
| "exec_step bp s (LLinger i) = (if running s i then workLinger bp i s else None)"
| "exec_step bp s (LQuit i) = (if running s i then workQuit bp i s else None)"
| "exec_step bp s LLook = (if safeStopLook s then Some s else None)"
| "exec_step bp s LClose = (case closeQuit s of Inr s' \<Rightarrow> Some s' | Inl _ \<Rightarrow> None)"
| "exec_step bp s (LRetry k) = (if k < length (pending s) then Some (runErrorHandler k s) else None)"

lemma exec_step_iff: "exec_step bp s l = Some s' \<longleftrightarrow> agg_step bp s l s'"
  by (cases l) (auto simp: agg_step.simps split: outcome.splits sum.splits)

fun exec :: "'i processor \<Rightarrow> 'i label list \<Rightarrow> 'i agg \<Rightarrow> 'i agg option" where
  "exec bp [] s = Some s"
| "exec bp (l # ls) s = (case exec_step bp s l of None \<Rightarrow> None | Some s1 \<Rightarrow> exec bp ls s1)"

lemma exec_run: "exec bp ls s = Some s' \<Longrightarrow> agg_run bp s ls s'"
  by (induction ls arbitrary: s) (auto simp: exec_step_iff intro: trace.nil trace_Cons split: option.splits)

section \<open>Properties\<close>

abbreviation started :: "nat \<Rightarrow> (AggregatorOption \<Rightarrow> AggregatorOption) list \<Rightarrow> 'i agg" where
  "started numCPU fs \<equiv> Start (NewAggregator numCPU fs)"

lemma started_facts:
  "abs_agg (started numCPU fs :: 'i agg) = ([], replicate (Workers (option (started numCPU fs :: 'i agg))) [], [])"
  "2 \<le> BatchSize (option (started numCPU fs :: 'i agg)) \<Longrightarrow> agg_ok (started numCPU fs :: 'i agg)"
proof -
  let ?s = "started numCPU fs :: 'i agg"
  have f: "arrs ?s = replicate (Workers (option ?s)) []" "workers ?s = map newWorker [0..<Workers (option ?s)]"
      "pending ?s = []" "calls ?s = []" "eventQueue ?s = make_chan (ChannelBufferSize (option ?s))"
    by (simp_all add: Start_def NewAggregator_def Let_def)
  show "abs_agg ?s = ([], replicate (Workers (option ?s)) [], [])"
    by (simp add: abs_agg_def f make_chan_def)
      (auto simp: newWorker_def obatch_def intro!: nth_equalityI)
  show "2 \<le> BatchSize (option ?s) \<Longrightarrow> agg_ok ?s"
    by (simp add: agg_ok_def f chan_ok_make comp_def) (simp add: newWorker_def worker_ok_def)
qed

lemma run_batches:
  assumes "2 \<le> BatchSize (option (started numCPU fs :: 'i agg))" and "agg_run bp (started numCPU fs :: 'i agg) ls s"
  shows "spec_run (BatchSize (option s)) ([], replicate (Workers (option s)) [], []) (enqueued ls) (abs_agg s)"
    and "\<forall>b \<in> set (calls s). b \<noteq> [] \<and> length b \<le> BatchSize (option s)"
proof -
  show sp: "spec_run (BatchSize (option s)) ([], replicate (Workers (option s)) [], []) (enqueued ls) (abs_agg s)"
    using run_simulates [OF assms(2) started_facts(2) [OF assms(1)]] started_facts(1) [of numCPU fs] by metis
  show "\<forall>b \<in> set (calls s). b \<noteq> [] \<and> length b \<le> BatchSize (option s)"
    using spec_batches [OF sp [unfolded abs_agg_def]] by simp
qed

text \<open>
  C4: the aggregator refines its specification: for every batch processor, with errors and panics,
  and every interleaving of producers, workers, timers, error handlers and stopping, a run with
  batch size at least 2 is a run of the specification with the same accepted items. In particular
  every delivered batch is not empty and not larger than the batch size, and no worker ever gets
  stuck on its timer.
\<close>

theorem aggregator_refines:
  assumes "2 \<le> BatchSize (option (started numCPU fs :: 'i agg))" and "agg_run bp (started numCPU fs :: 'i agg) ls s"
  shows "spec_run (BatchSize (option s)) ([], replicate (Workers (option s)) [], []) (enqueued ls) (abs_agg s) \<and>
    (\<forall>b \<in> set (calls s). b \<noteq> [] \<and> length b \<le> BatchSize (option s)) \<and>
    (\<forall>wk \<in> set (workers s). wstate wk \<noteq> Draining \<and> (wstate wk = Running \<longrightarrow> blen wk < BatchSize (option s)))"
proof -
  have "\<forall>wk \<in> set (workers s). wstate wk \<noteq> Draining \<and> (wstate wk = Running \<longrightarrow> blen wk < BatchSize (option s))"
    using run_simulates [OF assms(2) started_facts(2) [OF assms(1)]] by (auto simp: agg_ok_def worker_ok_def in_set_conv_nth)
  then show ?thesis using run_batches [OF assms] by blast
qed

definition nodeOptions :: "AggregatorOption \<Rightarrow> AggregatorOption" where
  "nodeOptions opt = opt\<lparr>BatchSize := 60, Workers := 1, ChannelBufferSize := 70, LingerTime := 70000000,
     hasErrorHandler := True\<rparr>"

lemma nodeOptions_eq:
  "option (started numCPU [nodeOptions]) =
     \<lparr>BatchSize = 60, Workers = 1, ChannelBufferSize = 70, LingerTime = 70000000, hasErrorHandler = True\<rparr>"
  by (simp add: Start_def NewAggregator_def Let_def nodeOptions_def)

text \<open>A short run: one item is accepted, waits in the batch and is delivered when the timer fires.\<close>

definition lingerRun :: "nat label list" where
  "lingerRun = [LEnqueue 7, LRecv 0, LFire 0, LLinger 0]"

lemma lingerRun_exec:
  "map_option calls (exec (\<lambda>_ _. Inr False) lingerRun (started 4 [nodeOptions])) = Some [[7]]"
  by code_simp

lemma lingerRun_run:
  obtains s where "agg_run (\<lambda>_ _. Inr False) (started 4 [nodeOptions]) lingerRun s" "calls s = [[7]]"
  using lingerRun_exec exec_run by (fastforce simp: map_option_case split: option.splits)

lemma batchSize_started: "2 \<le> BatchSize (option (started 4 [nodeOptions] :: nat agg))"
  by (simp add: nodeOptions_eq)

theorem aggregator_refines_witness:
  "\<exists>s :: nat agg. spec_run (BatchSize (option s)) ([], replicate (Workers (option s)) [], []) (enqueued lingerRun) (abs_agg s) \<and>
     calls s = [[7]]"
proof (rule lingerRun_run)
  fix s assume s: "agg_run (\<lambda>_ _. Inr False) (started 4 [nodeOptions]) lingerRun s" "calls s = [[7 :: nat]]"
  from aggregator_refines [OF batchSize_started s(1)] s(2) show ?thesis by blast
qed

text \<open>
  C13: nothing is lost, duplicated or made up: at every moment of every run the accepted items are,
  as a multiset, the items handed to the batch processor, the items in the workers' open batches
  and the items in the queue. With one worker, the configuration of a node, the order is kept too.
\<close>

theorem aggregator_conserves:
  assumes "2 \<le> BatchSize (option (started numCPU fs :: 'i agg))" and "agg_run bp (started numCPU fs :: 'i agg) ls s"
  shows "mset (concat (calls s)) + mset (concat (map (obatch (arrs s)) (workers s))) + mset (chbuf (eventQueue s))
      = mset (enqueued ls) \<and>
    (Workers (option s) = 1 \<longrightarrow>
      concat (calls s) @ concat (map (obatch (arrs s)) (workers s)) @ chbuf (eventQueue s) = enqueued ls)"
proof -
  note sp = run_batches(1) [OF assms, unfolded abs_agg_def]
  have "concat (calls s) @ concat (map (obatch (arrs s)) (workers s)) @ chbuf (eventQueue s) = enqueued ls"
    if one: "Workers (option s) = 1"
  proof -
    have "spec_run (BatchSize (option s)) ([], [[]], []) (enqueued ls)
        (chbuf (eventQueue s), map (obatch (arrs s)) (workers s), calls s)"
      using sp one by simp
    from spec_one_worker [OF this] obtain b where "map (obatch (arrs s)) (workers s) = [b]"
        "concat (calls s) @ b @ chbuf (eventQueue s) = enqueued ls"
      by auto
    then show ?thesis by simp
  qed
  then show ?thesis using spec_conserves [OF sp] by simp
qed

theorem aggregator_conserves_witness:
  "\<exists>s :: nat agg. calls s = [[7]] \<and> mset (concat (calls s)) + mset (concat (map (obatch (arrs s)) (workers s))) +
     mset (chbuf (eventQueue s)) = mset (enqueued lingerRun)"
proof (rule lingerRun_run)
  fix s assume s: "agg_run (\<lambda>_ _. Inr False) (started 4 [nodeOptions]) lingerRun s" "calls s = [[7 :: nat]]"
  from aggregator_conserves [OF batchSize_started s(1)] s(2) show ?thesis by blast
qed

lemma linger_delivers:
  assumes ok: "agg_ok s" and r: "running s i" and t: "timer (workers s ! i) = TFired"
  shows "\<exists>s'. agg_step bp s (LLinger i) s' \<and> calls s' = calls s @ [batch s i] \<and> batch s' i = [] \<and>
    eventQueue s' = eventQueue s"
proof -
  let ?s1 = "setWorker i ((workers s ! i)\<lparr>timer := TIdle\<rparr>) s"
  have i: "i < length (workers s)" using r by simp
  have ne: "blen (workers s ! i) \<noteq> 0" using ok r t by (auto simp: agg_ok_def worker_ok_def worker_at_def)
  obtain s2 p where bp: "batchProcess bp i ?s1 = (s2, p)" by fastforce
  have c: "calls s2 = calls s @ [batch ?s1 i]" "eventQueue s2 = eventQueue s" "length (workers s2) = length (workers s)"
    by (rule batchProcess_spec [OF bp]; simp)+
  have b: "batch ?s1 i = batch s i" using i by (simp add: batch_def worker_at_def)
  define s' where "s' = (if p then restart i s2 else setWorker i ((worker_at s2 i)\<lparr>blen := 0\<rparr>) s2)"
  have "workLinger bp i s = Some s'"
    using t ne bp i by (cases p) (auto simp: workLinger_def worker_at_def Let_def s'_def)
  moreover have "calls s' = calls s @ [batch s i]" "eventQueue s' = eventQueue s" using c b by (simp_all add: s'_def restart_def)
  moreover have "batch s' i = []" using c(3) i by (simp add: s'_def restart_def batch_def newWorker_def)
  ultimately show ?thesis using agg_step.linger [OF r] by blast
qed

lemma batch_flushes:
  assumes ok: "agg_ok s" and r: "running s i" and b: "batch s i \<noteq> []"
  shows "\<exists>ls' s'. agg_run bp s ls' s' \<and> set ls' \<subseteq> {LFire i, LLinger i} \<and> length ls' \<le> 2 \<and>
    calls s' = calls s @ [batch s i] \<and> batch s' i = [] \<and> eventQueue s' = eventQueue s"
proof -
  have i: "i < length (workers s)" using r by simp
  have "timer (workers s ! i) \<noteq> TIdle"
    using ok r b by (auto simp: agg_ok_def worker_ok_def worker_at_def batch_def)
  then consider "timer (workers s ! i) = TFired" | "timer (workers s ! i) = TArmed"
    by (cases "timer (workers s ! i)") auto
  then show ?thesis
  proof cases
    case 1
    from linger_delivers [OF ok r 1, of bp] show ?thesis
      by (elim exE) (rule exI [of _ "[LLinger i]"], auto simp: trace_Cons_iff)
  next
    case 2
    let ?s1 = "setWorker i ((worker_at s i)\<lparr>timer := TFired\<rparr>) s"
    have f: "agg_step bp s (LFire i) ?s1"
      by (rule agg_step.fire) (use r 2 in \<open>auto simp: worker_at_def\<close>)
    have "agg_ok ?s1" using step_simulates [OF f ok] by blast
    moreover have "running ?s1 i" "timer (workers ?s1 ! i) = TFired" and b1: "batch ?s1 i = batch s i"
      using i r by (auto simp: batch_def worker_at_def)
    ultimately obtain s' where "agg_step bp ?s1 (LLinger i) s'" "calls s' = calls s @ [batch s i]" "batch s' i = []"
        "eventQueue s' = eventQueue s"
      using linger_delivers [of ?s1 i bp] by auto
    then show ?thesis
      using f by (intro exI [of _ "[LFire i, LLinger i]"] exI [of _ s']) (auto simp: trace_Cons_iff)
  qed
qed

lemma workRecv_alive:
  assumes "workRecv bp i s = Some s'" "running s i" "agg_ok s'"
  shows "running s' i"
proof -
  have "i < length (workers s')" "wstate (worker_at s' i) \<noteq> Done"
    using assms(1,2)
    by (auto simp: workRecv_def Let_def worker_at_def resetTimer_def restart_def stopTimer_def newWorker_def
        dest!: batchProcess_workers split: recv_result.splits if_splits prod.splits bool.splits timer_state.splits)
  moreover from this have "wstate (worker_at s' i) \<noteq> Draining"
    using assms(3) by (simp add: agg_ok_def worker_ok_def worker_at_def)
  ultimately show ?thesis by (cases "wstate (worker_at s' i)") auto
qed

lemma batch_running: "running s i \<Longrightarrow> batch s i = map (obatch (arrs s)) (workers s) ! i"
  by (simp add: batch_def obatch_def worker_at_def)

lemma recv_moves:
  assumes ok: "agg_ok s" and r: "running s i" and q: "chbuf (eventQueue s) = x # xs"
  obtains s' ds where "agg_step bp s (LRecv i) s'" "agg_ok s'" "running s' i" "chbuf (eventQueue s') = xs"
    "calls s' = calls s @ ds" "concat ds @ batch s' i = batch s i @ [x]"
proof -
  let ?bs = "map (obatch (arrs s)) (workers s)"
  obtain q' where rq: "chan_recv (eventQueue s) = Received x q'" "chbuf q' = xs"
    using q by (auto simp: chan_recv_def)
  have "workRecv bp i s \<noteq> None" using rq(1) by (auto simp: workRecv_def Let_def split: prod.splits bool.splits)
  then obtain s' where st: "workRecv bp i s = Some s'" by blast
  note E = recv_effect [OF ok r rq(1) st refl]
  then have ok': "agg_ok s'" by blast
  note r' = workRecv_alive [OF st r ok']
  have i: "i < length ?bs" using r by simp
  have e: "chbuf (eventQueue s') = xs" using E rq(2) by (auto simp: abs_agg_def)
  have "\<exists>ds. calls s' = calls s @ ds \<and> concat ds @ batch s' i = batch s i @ [x]"
    using E i unfolding batch_running [OF r] batch_running [OF r'] by (auto simp: abs_agg_def)
  then show thesis using that [OF agg_step.recv [OF r st] ok' r' e] by blast
qed

lemma queue_drains:
  assumes "agg_ok s" "running s i"
  shows "\<exists>ls' s' ds. agg_run bp s ls' s' \<and> set ls' \<subseteq> {LRecv i} \<and> length ls' = length (chbuf (eventQueue s)) \<and>
    agg_ok s' \<and> running s' i \<and> chbuf (eventQueue s') = [] \<and> calls s' = calls s @ ds \<and>
    concat ds @ batch s' i = batch s i @ chbuf (eventQueue s)"
  using assms
proof (induction "chbuf (eventQueue s)" arbitrary: s)
  case Nil
  then show ?case by (intro exI [of _ "[]"] exI [of _ s]) auto
next
  case (Cons x xs)
  note q = Cons.hyps(2) [symmetric]
  obtain s1 ds1 where 1: "agg_step bp s (LRecv i) s1" "agg_ok s1" "running s1 i" "chbuf (eventQueue s1) = xs"
      "calls s1 = calls s @ ds1" "concat ds1 @ batch s1 i = batch s i @ [x]"
    by (rule recv_moves [OF Cons.prems q])
  obtain ls s' ds where 2: "agg_run bp s1 ls s'" "set ls \<subseteq> {LRecv i}" "length ls = length xs" "agg_ok s'" "running s' i"
      "chbuf (eventQueue s') = []" "calls s' = calls s1 @ ds" "concat ds @ batch s' i = batch s1 i @ xs"
    using Cons.hyps(1) [OF 1(4) [symmetric] 1(2,3)] 1(4) by auto
  have "concat (ds1 @ ds) @ batch s' i = (concat ds1 @ batch s1 i) @ xs" using 2(8) by simp
  then have "concat (ds1 @ ds) @ batch s' i = batch s i @ x # xs" unfolding 1(6) by simp
  then show ?case using 1(1,5) 2 q
    by (intro exI [of _ "LRecv i # ls"] exI [of _ s'] exI [of _ "ds1 @ ds"]) (auto simp: trace_Cons_iff)
qed

lemma agg_drains:
  assumes "agg_ok s" "running s i"
  shows "\<exists>ls' s' ds. agg_run bp s ls' s' \<and> set ls' \<subseteq> {LRecv i, LFire i, LLinger i} \<and>
    length ls' \<le> length (chbuf (eventQueue s)) + 2 \<and> chbuf (eventQueue s') = [] \<and> batch s' i = [] \<and>
    calls s' = calls s @ ds \<and> concat ds = batch s i @ chbuf (eventQueue s)"
proof -
  obtain ls s1 ds where 1: "agg_run bp s ls s1" "set ls \<subseteq> {LRecv i}" "length ls = length (chbuf (eventQueue s))"
      "agg_ok s1" "running s1 i" "chbuf (eventQueue s1) = []" "calls s1 = calls s @ ds"
      "concat ds @ batch s1 i = batch s i @ chbuf (eventQueue s)"
    using queue_drains [OF assms] by blast
  show ?thesis
  proof (cases "batch s1 i = []")
    case True
    then show ?thesis using 1 by (intro exI [of _ ls] exI [of _ s1] exI [of _ ds]) auto
  next
    case False
    obtain ls2 s2 where 2: "agg_run bp s1 ls2 s2" "set ls2 \<subseteq> {LFire i, LLinger i}" "length ls2 \<le> 2"
        "calls s2 = calls s1 @ [batch s1 i]" "batch s2 i = []" "eventQueue s2 = eventQueue s1"
      using batch_flushes [OF 1(4,5) False] by blast
    then show ?thesis
      using 1 trace_append [OF 2(1) 1(1)] by (intro exI [of _ "ls @ ls2"] exI [of _ s2] exI [of _ "ds @ [batch s1 i]"]) auto
  qed
qed

text \<open>
  C19: No item waits for ever: in every reachable state, a worker that runs can deliver by itself
  everything that waits, with no further item and no help from other goroutines. It needs a step for
  every item in the queue and two more, the firing of its timer and the linger case; then the queue
  and its batch are empty, and the batches it has delivered are exactly its open batch followed by
  the queue, in order.
\<close>

theorem aggregator_drains:
  assumes "2 \<le> BatchSize (option (started numCPU fs :: 'i agg))" and "agg_run bp (started numCPU fs :: 'i agg) ls s"
    and "running s i"
  shows "\<exists>ls' s' ds. agg_run bp s ls' s' \<and> set ls' \<subseteq> {LRecv i, LFire i, LLinger i} \<and>
    length ls' \<le> length (chbuf (eventQueue s)) + 2 \<and> chbuf (eventQueue s') = [] \<and> batch s' i = [] \<and>
    calls s' = calls s @ ds \<and> concat ds = batch s i @ chbuf (eventQueue s)"
proof -
  have "agg_ok s" using run_simulates [OF assms(2) started_facts(2) [OF assms(1)]] by blast
  then show ?thesis using assms(3) by (rule agg_drains)
qed

definition waitRun :: "nat label list" where
  "waitRun = [LEnqueue 7, LEnqueue 8, LRecv 0]"

lemma waitRun_exec:
  "map_option (\<lambda>s. (batch s 0, chbuf (eventQueue s), length (workers s), wstate (worker_at s 0)))
     (exec (\<lambda>_ _. Inr False) waitRun (started 4 [nodeOptions])) = Some ([7], [8], 1, Running)"
  by code_simp

theorem aggregator_drains_witness:
  "\<exists>s ls' s' ds. agg_run (\<lambda>_ _. Inr False) (started 4 [nodeOptions]) waitRun s \<and>
     agg_run (\<lambda>_ _. Inr False) s ls' s' \<and> length ls' \<le> 3 \<and> calls s' = calls s @ ds \<and> concat ds = [7, 8 :: nat]"
proof -
  obtain s where s: "exec (\<lambda>_ _. Inr False) waitRun (started 4 [nodeOptions]) = Some s" "batch s 0 = [7]"
      "chbuf (eventQueue s) = [8]" "length (workers s) = 1" "wstate (worker_at s 0) = Running"
    using waitRun_exec by (auto simp: map_option_case split: option.splits)
  then have run: "running s 0" by simp
  from aggregator_drains [OF batchSize_started exec_run [OF s(1)] run] s(2,3) exec_run [OF s(1)]
  show ?thesis by fastforce
qed

section \<open>Stopping\<close>

lemma spec_drained:
  "spec_run m (q0, bs0, d0) xs (q, bs, d) \<Longrightarrow> xs = [] \<Longrightarrow> q0 = [] \<Longrightarrow> q = []"
  by (induction a\<equiv>"(q0, bs0, d0)" xs b\<equiv>"(q, bs, d)" arbitrary: q bs d rule: spec_run.induct) auto

lemma enqueued_append: "enqueued (ls @ ls') = enqueued ls @ enqueued ls'"
  by (simp add: enqueued_def)

text \<open>
  \<open>SafeStop\<close> misses no item, provided that nothing is enqueued any more after it has seen the
  queue empty: once every worker is done, exactly the accepted items have been handed to the batch
  processor.
\<close>

theorem SafeStop_complete:
  assumes "2 \<le> BatchSize (option (started numCPU fs :: 'i agg))"
    and "agg_run bp (started numCPU fs :: 'i agg) ls1 s1" and "safeStopLook s1"
    and "agg_run bp s1 ls2 s2" and "enqueued ls2 = []"
    and "list_all (\<lambda>wk. wstate wk = Done) (workers s2)"
  shows "mset (concat (calls s2)) = mset (enqueued (ls1 @ ls2))"
proof -
  note R1 = run_simulates [OF assms(2) started_facts(2) [OF assms(1)]]
  then have ok: "agg_ok s1" by blast
  note R2 = run_simulates [OF assms(4) ok]
  have "chbuf (eventQueue s1) = []" using assms(3) by (simp add: safeStopLook_def chan_len_def)
  then have q: "chbuf (eventQueue s2) = []"
    using R2 assms(5) spec_drained [of _ "[]"] by (fastforce simp: abs_agg_def)
  have b: "concat (map (obatch (arrs s2)) (workers s2)) = []"
    using assms(6) by (auto simp: obatch_def list_all_iff)
  have "spec_run (BatchSize (option s1)) ([], replicate (Workers (option s1)) [], []) (enqueued ls1 @ enqueued ls2)
      (chbuf (eventQueue s2), map (obatch (arrs s2)) (workers s2), calls s2)"
    using spec_trans R1 R2 started_facts(1) [of numCPU fs] by (metis abs_agg_def)
  from spec_conserves [OF this] show ?thesis using q b by (simp add: enqueued_append)
qed

definition oneItemRun :: "nat label list" where
  "oneItemRun = [LEnqueue 7, LRecv 0]"

definition stopRun :: "nat label list" where
  "stopRun = [LClose, LQuit 0]"

lemma stopRun_exec:
  "map_option (\<lambda>s. (safeStopLook s, map_option (\<lambda>s2. map wstate (workers s2)) (exec (\<lambda>_ _. Inr False) stopRun s)))
     (exec (\<lambda>_ _. Inr False) oneItemRun (started 4 [nodeOptions])) = Some (True, Some [Done])"
  by code_simp

theorem SafeStop_complete_witness:
  "\<exists>s1 s2. agg_run (\<lambda>_ _. Inr False) (started 4 [nodeOptions]) oneItemRun s1 \<and>
     agg_run (\<lambda>_ _. Inr False) s1 stopRun s2 \<and> mset (concat (calls s2)) = {#7 :: nat#}"
proof -
  obtain s1 s2 where s: "exec (\<lambda>_ _. Inr False) oneItemRun (started 4 [nodeOptions]) = Some s1" "safeStopLook s1"
      "exec (\<lambda>_ _. Inr False) stopRun s1 = Some s2" "map wstate (workers s2) = [Done]"
    using stopRun_exec by (auto simp: map_option_case split: option.splits)
  have "list_all (\<lambda>wk. wstate wk = Done) (workers s2)" using s(4) by auto
  moreover have "enqueued stopRun = []" "enqueued (oneItemRun @ stopRun) = [7]"
    by (simp_all add: enqueued_def stopRun_def oneItemRun_def)
  ultimately show ?thesis
    using SafeStop_complete [OF batchSize_started exec_run [OF s(1)] s(2) exec_run [OF s(3)]]
      exec_run [OF s(1)] exec_run [OF s(3)] by fastforce
qed

definition raceRun :: "nat label list" where
  "raceRun = [LLook, LEnqueue 7, LClose, LQuit 0]"

text \<open>
  Without that proviso an item can be missed, although the comment on \<open>SafeStop\<close> excludes it: an
  item accepted between the look at the queue and the closing of \<open>quit\<close> can stay in the queue for
  ever while the only worker ends.
\<close>

theorem SafeStop_can_miss_item:
  "\<exists>s. agg_run (\<lambda>_ _. Inr False) (started 4 [nodeOptions]) raceRun s \<and> enqueued raceRun = [7] \<and>
     map wstate (workers s) = [Done] \<and> calls s = [] \<and> chbuf (eventQueue s) = [7]"
proof -
  have "map_option (\<lambda>s. (map wstate (workers s), calls s, chbuf (eventQueue s)))
      (exec (\<lambda>_ _. Inr False) raceRun (started 4 [nodeOptions])) = Some ([Done], [], [7])"
    by code_simp
  moreover have "enqueued raceRun = [7]" by code_simp
  ultimately show ?thesis
    using exec_run by (fastforce simp: map_option_case split: option.splits)
qed

section \<open>Hazards\<close>

definition stuck_inv :: "'i agg \<Rightarrow> bool" where
  "stuck_inv s \<longleftrightarrow> BatchSize (option s) = 1 \<and> length (workers s) = 1 \<and>
     (wstate (workers s ! 0) = Running \<and> blen (workers s ! 0) = 0 \<and> timer (workers s ! 0) = TIdle \<and> calls s = [] \<or>
      wstate (workers s ! 0) \<noteq> Running \<and> length (calls s) \<le> 1)"

lemma batchProcess_ok:
  assumes "\<And>h b. \<not> isl (bp h b)" "batchProcess bp i s = (s2, p)"
  shows "\<not> p" "calls s2 = calls s @ [batch s i]" "workers s2 = workers s" "option s2 = option s"
  using assms(2) assms(1) [of "calls s" "batch s i"]
  by (auto simp: batchProcess_def Let_def split: sum.splits bool.splits if_splits)

lemma stuck_inv_step:
  assumes np: "\<And>h b. \<not> isl (bp h b)" and "agg_step bp s l s'" "stuck_inv s"
  shows "stuck_inv s'"
  using assms(2)
proof cases
  case (recv i)
  then have i: "i = 0" and r: "wstate (workers s ! 0) = Running" "blen (workers s ! 0) = 0"
      "timer (workers s ! 0) = TIdle" "calls s = []" "BatchSize (option s) = 1" "length (workers s) = 1"
    using assms(3) by (auto simp: stuck_inv_def worker_at_def)
  obtain x q where rq: "chan_recv (eventQueue s) = Received x q"
    using recv by (auto simp: workRecv_def split: recv_result.splits)
  define s1 where "s1 = appendBatch 0 x (s\<lparr>eventQueue := q\<rparr>)"
  obtain s2 p where bp: "batchProcess bp 0 s1 = (s2, p)" by fastforce
  note B = batchProcess_ok [OF np bp]
  have w1: "workers s1 = [(workers s ! 0)\<lparr>blen := 1\<rparr>]" "calls s1 = []" "option s1 = option s"
    using r by (auto simp: s1_def intro!: nth_equalityI)
  have "s' = stopTimer 0 s2"
    using recv rq bp B(1) r w1 i by (auto simp: workRecv_def s1_def [symmetric] Let_def worker_at_def)
  then show ?thesis
    using B w1 r by (simp add: stopTimer_def Let_def worker_at_def stuck_inv_def)
next
  case (quit i)
  then have "i = 0" "blen (worker_at s 0) = 0" using assms(3) by (auto simp: stuck_inv_def worker_at_def)
  then show ?thesis using quit assms(3) by (auto simp: workQuit_def stuck_inv_def worker_at_def split: if_splits)
qed (use assms(3) in \<open>auto simp: stuck_inv_def worker_at_def workLinger_def closeQuit_def Enqueue_def
      runErrorHandler_def Let_def split: if_splits send_result.splits prod.splits\<close>)

text \<open>
  Batch size 1 does not work: the timer is never started, so after the first batch the worker
  waits for ever for a value from the timer's channel. With one worker and a processor that does not
  panic, at most one batch is ever delivered, whatever is enqueued and however long one waits.
\<close>

theorem batch_size_one_deadlocks:
  assumes "\<And>h b. \<not> isl (bp h b)" and "BatchSize (option (started numCPU fs :: 'i agg)) = 1"
    and "Workers (option (started numCPU fs :: 'i agg)) = 1" and "agg_run bp (started numCPU fs :: 'i agg) ls s"
  shows "length (calls s) \<le> 1"
proof -
  have "stuck_inv (started numCPU fs :: 'i agg)"
    using assms(2,3) by (simp add: stuck_inv_def Start_def NewAggregator_def Let_def newWorker_def)
  moreover have "stuck_inv s0 \<Longrightarrow> stuck_inv s" if "agg_run bp s0 ls s" for s0 ls s
    using that by (induction rule: trace.induct) (auto intro: stuck_inv_step [OF assms(1)])
  ultimately have "stuck_inv s" using assms(4) by blast
  then show ?thesis by (auto simp: stuck_inv_def)
qed

definition oneOption :: "AggregatorOption \<Rightarrow> AggregatorOption" where
  "oneOption opt = opt\<lparr>BatchSize := 1, Workers := 1, ChannelBufferSize := 5\<rparr>"

definition oneRun :: "nat label list" where
  "oneRun = [LEnqueue 1, LEnqueue 2, LRecv 0]"

theorem batch_size_one_deadlocks_witness:
  "\<exists>s :: nat agg. agg_run (\<lambda>_ _. Inr False) (started 4 [oneOption]) oneRun s \<and> chbuf (eventQueue s) = [2] \<and>
     length (calls s) \<le> 1"
proof -
  have "map_option (\<lambda>s. chbuf (eventQueue s)) (exec (\<lambda>_ _. Inr False) oneRun (started 4 [oneOption])) = Some [2]"
    by code_simp
  then obtain s where s: "agg_run (\<lambda>_ _. Inr False) (started 4 [oneOption]) oneRun s" "chbuf (eventQueue s) = [2]"
    using exec_run by (fastforce simp: map_option_case split: option.splits)
  moreover have "length (calls s) \<le> 1"
    by (rule batch_size_one_deadlocks [OF _ _ _ s(1)])
      (simp_all add: Start_def NewAggregator_def oneOption_def Let_def)
  ultimately show ?thesis by blast
qed

definition aliasRun :: "nat label list" where
  "aliasRun = [LEnqueue 1, LEnqueue 2, LEnqueue 3, LRecv 0, LRecv 0, LRecv 0, LRetry 0, LFire 0, LLinger 0]"

definition failFirst :: "nat processor" where
  "failFirst h b = Inr (h = [])"

text \<open>
  The error handler can send the wrong items. It gets the slice of the failed batch and runs in
  its own goroutine, while the worker already fills the same array again. Here the batch
  \<open>[1, 2]\<close> fails; by the time the handler sends it again, item 3 has replaced item 1: item 1 is
  never sent, and item 3 is sent again later.
\<close>

theorem retry_sends_wrong_items:
  "\<exists>s. agg_run failFirst (started 4 [\<lambda>opt. opt\<lparr>BatchSize := 2, Workers := 1, ChannelBufferSize := 5, hasErrorHandler := True\<rparr>])
       aliasRun s \<and> enqueued aliasRun = [1, 2, 3] \<and> calls s = [[1, 2], [3]] \<and> retries s = [[3, 2]]"
proof -
  have "map_option (\<lambda>s. (calls s, retries s))
      (exec failFirst aliasRun (started 4 [\<lambda>opt. opt\<lparr>BatchSize := 2, Workers := 1, ChannelBufferSize := 5,
        hasErrorHandler := True\<rparr>])) = Some ([[1, 2], [3]], [[3, 2]])"
    by code_simp
  moreover have "enqueued aliasRun = [1, 2, 3]" by code_simp
  ultimately show ?thesis
    using exec_run by (fastforce simp: map_option_case split: option.splits)
qed

end
