(* ===== verification/Nodes.thy ===== *)
theory Nodes
  imports Aggregator RedisClient Protobuf
begin

text \<open>
  The other nodes of the cluster as this node sees them: \<open>src/nodes/node.go\<close> and
  \<open>src/nodes/nodehub.go\<close>.

  A node has an aggregator whose batches are sent to the node's queue in Redis, and a heartbeat
  goroutine that watches the client count the node publishes. Nodes are shared by pointer, so the
  hub keeps a heap of nodes and a map from addresses to references. The encoder of the
  protocol-buffer messages and the JSON encoder are arguments.

  The theorems give the life cycle of a node, the bound on the length of its queue with what a trim
  keeps, and what a lookup in the hub returns and changes.
\<close>

section \<open>Messages\<close>

record 'd SignalResp =
  respAction :: string
  respFromPeerId :: string
  respFrom :: string
  respData :: "'d option"
  respReason :: string

datatype node_err = NotAlive string | MarshalErr string | RedisError rerr

section \<open>A node\<close>

definition PING_MAX_RETRYS :: int where
  "PING_MAX_RETRYS = 2"

definition MQ_MAX_LEN :: int where
  "MQ_MAX_LEN = 1000"

definition MQ_LEN_AFTER_TRIM :: int where
  "MQ_LEN_AFTER_TRIM = 500"

definition MAX_PIPE_LEN :: nat where
  "MAX_PIPE_LEN = 60"

record Node =
  addr :: string
  isAlive :: bool
  NumClient :: int
  pingRetrys :: int
  IsDead :: bool
  aggregator :: "SignalReq agg"

definition NewNode :: "nat \<Rightarrow> string \<Rightarrow> Node" where
  "NewNode numCPU a = \<lparr>addr = a, isAlive = True, NumClient = 0, pingRetrys = 0, IsDead = False,
     aggregator = Start (NewAggregator numCPU [\<lambda>opt. opt\<lparr>BatchSize := MAX_PIPE_LEN, Workers := 1,
       ChannelBufferSize := MAX_PIPE_LEN + 10, LingerTime := 70000000, hasErrorHandler := True\<rparr>])\<rparr>"

definition sendBatchReq ::
    "'x redis_api \<Rightarrow> pb_codec \<Rightarrow> string \<Rightarrow> SignalBatchReq \<Rightarrow> 'x redis \<Rightarrow> 'x redis \<times> node_err option" where
  "sendBatchReq api pb a items s =
     (case pbMarshal pb items of
        Inl err \<Rightarrow> (s, Some (MarshalErr err))
      | Inr raw \<Rightarrow>
          (case PushMsgToMQ api a raw s of
             (s1, Inl err) \<Rightarrow> (s1, Some (RedisError err))
           | (s1, Inr len) \<Rightarrow>
               if len > MQ_MAX_LEN
               then (case TrimMQ api a MQ_LEN_AFTER_TRIM s1 of
                       (s2, Some err) \<Rightarrow> (s2, None)
                     | (s2, None) \<Rightarrow> (fst (GetLenMQ api a s2), None))
               else (s1, None)))"

text \<open>The batch processor of \<open>NewNode\<close>.\<close>

definition nodeBatchProcess ::
    "'x redis_api \<Rightarrow> pb_codec \<Rightarrow> string \<Rightarrow> SignalBatchReq \<Rightarrow> 'x redis \<Rightarrow> 'x redis \<times> node_err option" where
  "nodeBatchProcess api pb a items s = (if length items = 0 then (s, None) else sendBatchReq api pb a items s)"

text \<open>The error handler of \<open>NewNode\<close> sends the items once more and does not look at the result.\<close>

definition nodeErrorHandler ::
    "'x redis_api \<Rightarrow> pb_codec \<Rightarrow> string \<Rightarrow> SignalBatchReq \<Rightarrow> 'x redis \<Rightarrow> 'x redis" where
  "nodeErrorHandler api pb a items s = fst (sendBatchReq api pb a items s)"

definition SendMsgSignal ::
    "('d SignalResp \<Rightarrow> string + bytes) \<Rightarrow> (SignalReq agg \<Rightarrow> SignalReq agg) \<Rightarrow> 'd SignalResp \<Rightarrow> string \<Rightarrow> Node \<Rightarrow>
      (Node \<times> node_err option) outcome" where
  "SendMsgSignal marshal yielded resp toPeerId nd =
     (if \<not> isAlive nd then Ret (nd, Some (NotAlive (addr nd)))
      else case marshal resp of
             Inl err \<Rightarrow> Ret (nd, Some (MarshalErr err))
           | Inr b \<Rightarrow>
               obind (TryEnqueue yielded \<lparr>ToPeerId = toPeerId, reqData = b\<rparr> (aggregator nd))
                 (\<lambda>(g, ok). Ret (nd\<lparr>aggregator := g\<rparr>, None)))"

text \<open>
  One round of the loop of \<open>StartHeartbeat\<close>: the guard, and after the sleep the question to Redis.
  The result says whether the loop goes on.
\<close>

definition heartbeat :: "'x redis_api \<Rightarrow> Node \<times> 'x redis \<Rightarrow> (Node \<times> 'x redis) \<times> bool" where
  "heartbeat api = (\<lambda>(nd, s).
     if pingRetrys nd > PING_MAX_RETRYS \<or> IsDead nd then ((nd\<lparr>IsDead := True\<rparr>, s), False)
     else case GetNodeClientCount api (addr nd) s of
            (s1, Inl err) \<Rightarrow>
              (let s2 = (if isAlive nd
                         then (case GetLenMQ api (addr nd) s1 of
                                 (s', Inl _) \<Rightarrow> s'
                               | (s', Inr len) \<Rightarrow> if len > 0 then fst (ClearMQ api (addr nd) s') else s')
                         else s1)
               in ((nd\<lparr>isAlive := False, pingRetrys := pingRetrys nd + 1\<rparr>, s2), True))
          | (s1, Inr cnt) \<Rightarrow> ((nd\<lparr>isAlive := True, pingRetrys := 0, NumClient := cnt\<rparr>, s1), True))"

definition Destroy ::
    "(SignalReq agg \<Rightarrow> SignalReq agg) \<Rightarrow> (SignalReq agg \<Rightarrow> SignalReq agg) \<Rightarrow> Node \<Rightarrow> Node outcome" where
  "Destroy drained finished nd =
     obind (SafeStop drained finished (aggregator nd))
       (\<lambda>g. Ret (nd\<lparr>IsDead := True, aggregator := g\<rparr>))"

section \<open>The hub of nodes\<close>

type_synonym nref = nat

record NodeHub =
  nodes :: "(string, nref) gomap"
  nheap :: "Node list"
  selfAddr :: string

definition NewNodeHub :: "string \<Rightarrow> NodeHub" where
  "NewNodeHub a = \<lparr>nodes = [], nheap = [], selfAddr = a\<rparr>"

definition nodeAt :: "NodeHub \<Rightarrow> nref \<Rightarrow> Node" where
  "nodeAt h r = nheap h ! r"

definition setNode :: "nref \<Rightarrow> Node \<Rightarrow> NodeHub \<Rightarrow> NodeHub" where
  "setNode r nd h = h\<lparr>nheap := (nheap h)[r := nd]\<rparr>"

definition Add :: "string \<Rightarrow> nref \<Rightarrow> NodeHub \<Rightarrow> NodeHub" where
  "Add a r h = h\<lparr>nodes := gm_set a r (nodes h)\<rparr>"

definition nhDelete ::
    "(SignalReq agg \<Rightarrow> SignalReq agg) \<Rightarrow> (SignalReq agg \<Rightarrow> SignalReq agg) \<Rightarrow> nref \<Rightarrow> NodeHub \<Rightarrow> NodeHub outcome" where
  "nhDelete drained finished r h =
     obind (Destroy drained finished (nodeAt h r))
       (\<lambda>nd. Ret ((setNode r nd h)\<lparr>nodes := gm_del (addr nd) (nodes h)\<rparr>))"

text \<open>
  \<open>Get\<close> looks the address up without the lock, and once more under the lock before it makes a new
  node; \<open>locked\<close> is what other goroutines do to the hub in between.
\<close>

definition nhGet ::
    "nat \<Rightarrow> (NodeHub \<Rightarrow> NodeHub) \<Rightarrow> (SignalReq agg \<Rightarrow> SignalReq agg) \<Rightarrow> (SignalReq agg \<Rightarrow> SignalReq agg) \<Rightarrow>
      string \<Rightarrow> NodeHub \<Rightarrow> (NodeHub \<times> nref option) outcome" where
  "nhGet numCPU locked drained finished a h =
     (case gm_get (nodes h) a of
        None \<Rightarrow>
          (let h1 = locked h
           in case gm_get (nodes h1) a of
                Some r \<Rightarrow> Ret (h1, Some r)
              | None \<Rightarrow>
                  (let r = length (nheap h1)
                   in Ret (Add a r (h1\<lparr>nheap := nheap h1 @ [NewNode numCPU a]\<rparr>), Some r)))
      | Some r \<Rightarrow>
          if IsDead (nodeAt h r)
          then obind (nhDelete drained finished r h) (\<lambda>h1. Ret (h1, None))
          else Ret (h, Some r))"

definition GetNode ::
    "nat \<Rightarrow> (NodeHub \<Rightarrow> NodeHub) \<Rightarrow> (SignalReq agg \<Rightarrow> SignalReq agg) \<Rightarrow> (SignalReq agg \<Rightarrow> SignalReq agg) \<Rightarrow>
      string \<Rightarrow> NodeHub \<Rightarrow> (NodeHub \<times> nref option) outcome" where
  "GetNode numCPU locked drained finished a h = nhGet numCPU locked drained finished a h"

definition GetSelfAddr :: "NodeHub \<Rightarrow> string" where
  "GetSelfAddr h = selfAddr h"

definition GetTotalNumClient :: "NodeHub \<Rightarrow> int" where
  "GetTotalNumClient h = foldl (\<lambda>sum (a, r). i64 (sum + NumClient (nodeAt h r))) 0 (nodes h)"

definition GetNumNode :: "NodeHub \<Rightarrow> int" where
  "GetNumNode h = foldl (\<lambda>sum (a, r). if isAlive (nodeAt h r) then i64 (sum + 1) else sum) 0 (nodes h)"

definition GetAll :: "NodeHub \<Rightarrow> (string, nref) gomap" where
  "GetAll h = nodes h"

definition nhClear :: "NodeHub \<Rightarrow> NodeHub" where
  "nhClear h = h\<lparr>nodes := []\<rparr>"

section \<open>The life cycle of a node\<close>

definition answered :: "'x redis_api \<Rightarrow> Node \<times> 'x redis \<Rightarrow> bool" where
  "answered api st = (\<not> isl (snd (GetNodeClientCount api (addr (fst st)) (snd st))))"

text \<open>Rounds of the heartbeat loop with the answers of Redis, oldest first.\<close>

inductive hb_trace :: "'x redis_api \<Rightarrow> Node \<times> 'x redis \<Rightarrow> bool list \<Rightarrow> Node \<times> 'x redis \<Rightarrow> bool" for api where
  hb_nil: "hb_trace api st [] st"
| hb_round: "hb_trace api st bs st1 \<Longrightarrow> heartbeat api st1 = (st2, True) \<Longrightarrow> hb_trace api st (bs @ [answered api st1]) st2"

definition misses :: "bool list \<Rightarrow> nat" where
  "misses bs = length (takeWhile Not (rev bs))"

lemma misses_snoc: "misses (bs @ [b]) = (if b then 0 else Suc (misses bs))"
  by (simp add: misses_def)

lemma heartbeat_round:
  assumes "heartbeat api (nd, s) = ((nd', s'), True)"
  shows "\<not> IsDead nd \<and> pingRetrys nd \<le> 2 \<and> addr nd' = addr nd \<and> IsDead nd' = IsDead nd \<and>
    aggregator nd' = aggregator nd \<and> isAlive nd' = answered api (nd, s) \<and>
    pingRetrys nd' = (if answered api (nd, s) then 0 else pingRetrys nd + 1)"
  using assms
  by (auto simp: heartbeat_def answered_def PING_MAX_RETRYS_def Let_def split: if_splits sum.splits prod.splits)

lemma heartbeat_stops:
  "snd (heartbeat api (nd, s)) \<longleftrightarrow> \<not> (pingRetrys nd > 2 \<or> IsDead nd)"
  by (auto simp: heartbeat_def PING_MAX_RETRYS_def Let_def split: sum.splits prod.splits)

lemma hb_trace_inv:
  assumes "hb_trace api st bs st'" "pingRetrys (fst st) = 0" "isAlive (fst st)" "\<not> IsDead (fst st)"
  shows "pingRetrys (fst st') = int (misses bs) \<and> misses bs \<le> 3 \<and> \<not> IsDead (fst st') \<and>
    (isAlive (fst st') \<longleftrightarrow> misses bs = 0)"
  using assms
proof (induction rule: hb_trace.induct)
  case (hb_nil st)
  then show ?case by (simp add: misses_def)
next
  case (hb_round st bs st1 st2)
  obtain nd s nd' s' where st: "st1 = (nd, s)" "st2 = (nd', s')" by fastforce
  show ?case
    using hb_round.IH [OF hb_round.prems] heartbeat_round [of api nd s nd' s'] hb_round.hyps(2) st
    by (auto simp: misses_snoc)
qed

text \<open>
  C20: The life cycle of a node, for every behaviour of Redis: the retry counter is the number of
  rounds since the last answer, the node counts as alive exactly when the last round was answered
  (or there was none), and the heartbeat loop ends, marking the node as dead, exactly after three
  rounds in a row without an answer; so at most three such rounds pass.
\<close>

theorem heartbeat_lifecycle:
  assumes "hb_trace api (NewNode numCPU a, s0) bs (nd, s)"
  shows "pingRetrys nd = int (misses bs) \<and> misses bs \<le> 3 \<and> (isAlive nd \<longleftrightarrow> misses bs = 0) \<and>
    (misses bs = 3 \<longleftrightarrow> \<not> snd (heartbeat api (nd, s))) \<and>
    (misses bs = 3 \<longrightarrow> IsDead (fst (fst (heartbeat api (nd, s)))))"
proof -
  have i: "pingRetrys nd = int (misses bs) \<and> misses bs \<le> 3 \<and> \<not> IsDead nd \<and> (isAlive nd \<longleftrightarrow> misses bs = 0)"
    using hb_trace_inv [OF assms] by (simp add: NewNode_def)
  then have "misses bs = 3 \<longleftrightarrow> \<not> snd (heartbeat api (nd, s))" by (auto simp: heartbeat_stops)
  moreover have "misses bs = 3 \<longrightarrow> IsDead (fst (fst (heartbeat api (nd, s))))"
    using i by (simp add: heartbeat_def PING_MAX_RETRYS_def)
  ultimately show ?thesis using i by blast
qed

lemma hb_trace_Cons:
  "heartbeat api st = (st1, True) \<Longrightarrow> hb_trace api st1 bs st2 \<Longrightarrow> hb_trace api st (answered api st # bs) st2"
proof (rotate_tac, induction rule: hb_trace.induct)
  case (hb_nil st1)
  then show ?case using hb_trace.hb_round [OF hb_trace.hb_nil] by fastforce
next
  case (hb_round st1 bs st2 st3)
  then show ?case using hb_trace.hb_round [of api st "answered api st # bs" st2 st3] by simp
qed

theorem heartbeat_lifecycle_witness:
  "\<exists>nd s. hb_trace memRedis (NewNode 4 ''n2'', emptyStore ''n1'') [False, False, False] (nd, s) \<and>
     pingRetrys nd = 3 \<and> \<not> snd (heartbeat memRedis (nd, s))"
proof -
  have h: "heartbeat memRedis (nd, emptyStore ''n1'') = ((nd\<lparr>isAlive := False, pingRetrys := pingRetrys nd + 1\<rparr>, emptyStore ''n1''), True)
      \<and> \<not> answered memRedis (nd, emptyStore ''n1'')"
    if "pingRetrys nd \<le> 2" "\<not> IsDead nd" for nd
    using that
    by (simp add: heartbeat_def PING_MAX_RETRYS_def GetNodeClientCount_def GetLenMQ_def memRedis_def emptyStore_def answered_def)
  have "hb_trace memRedis (nd, emptyStore ''n1'') (replicate k False)
      (nd\<lparr>isAlive := isAlive nd \<and> k = 0, pingRetrys := pingRetrys nd + int k\<rparr>, emptyStore ''n1'')"
    if "pingRetrys nd + int k \<le> 3" "\<not> IsDead nd" for nd k
    using that
  proof (induction k arbitrary: nd)
    case 0
    then show ?case by (simp add: hb_nil)
  next
    case (Suc k)
    let ?nd = "nd\<lparr>isAlive := False, pingRetrys := pingRetrys nd + 1\<rparr>"
    have p: "pingRetrys nd \<le> 2" using Suc.prems by simp
    have "hb_trace memRedis (?nd, emptyStore ''n1'') (replicate k False)
        (?nd\<lparr>isAlive := isAlive ?nd \<and> k = 0, pingRetrys := pingRetrys ?nd + int k\<rparr>, emptyStore ''n1'')"
      by (rule Suc.IH) (use Suc.prems in simp_all)
    from hb_trace_Cons [OF h [OF p Suc.prems(2), THEN conjunct1] this] h [OF p Suc.prems(2)]
    show ?case by (simp add: algebra_simps)
  qed
  from this [of "NewNode 4 ''n2''" 3] obtain nd s where
    t: "hb_trace memRedis (NewNode 4 ''n2'', emptyStore ''n1'') [False, False, False] (nd, s)"
    by (auto simp: NewNode_def numeral_3_eq_3)
  have "misses [False, False, False] = 3" by (simp add: misses_def)
  with heartbeat_lifecycle [OF t] t show ?thesis by fastforce
qed

section \<open>The queue of a node stays bounded\<close>

text \<open>A server that answers: no list command fails.\<close>

definition list_total :: "'x redis_api \<Rightarrow> bool" where
  "list_total api \<longleftrightarrow> (\<forall>k m x. \<not> isl (snd (apiRPush api k m x))) \<and> (\<forall>k x. \<not> isl (snd (apiLLen api k x))) \<and>
     (\<forall>k a b x. snd (apiLTrim api k a b x) = None)"

lemma memRedis_total: "list_total memRedis"
  by (simp add: list_total_def memRedis_def)

lemma total_cmds:
  assumes T: "list_total api"
  shows "(\<And>s1 len. PushMsgToMQ api a m s = (s1, Inr len) \<Longrightarrow> P) \<Longrightarrow> P"
    and "(\<And>s1 len. GetLenMQ api a s = (s1, Inr len) \<Longrightarrow> P) \<Longrightarrow> P"
    and "(\<And>s1. TrimMQ api a l s = (s1, None) \<Longrightarrow> P) \<Longrightarrow> P"
proof -
  obtain x r where "apiRPush api (keyForMQ a) m (ext s) = (x, r)" by fastforce
  moreover from this have "\<not> isl r" using T by (metis list_total_def snd_conv)
  ultimately show "(\<And>s1 len. PushMsgToMQ api a m s = (s1, Inr len) \<Longrightarrow> P) \<Longrightarrow> P"
    by (cases r) (simp_all add: PushMsgToMQ_def)
  obtain y q where "apiLLen api (keyForMQ a) (ext s) = (y, q)" by fastforce
  moreover from this have "\<not> isl q" using T by (metis list_total_def snd_conv)
  ultimately show "(\<And>s1 len. GetLenMQ api a s = (s1, Inr len) \<Longrightarrow> P) \<Longrightarrow> P"
    by (cases q) (simp_all add: GetLenMQ_def)
  obtain z p where "apiLTrim api (keyForMQ a) (- l) (-1) (ext s) = (z, p)" by fastforce
  moreover from this have "p = None" using T by (metis list_total_def snd_conv)
  ultimately show "(\<And>s1. TrimMQ api a l s = (s1, None) \<Longrightarrow> P) \<Longrightarrow> P"
    by (simp add: TrimMQ_def)
qed

lemma sendBatchReq_spec:
  assumes L: "list_laws api lsts" and T: "list_total api" and raw: "pbMarshal pb items = Inr raw"
    and q: "q = lsts (ext s) (keyForMQ a) @ [raw]"
  shows "\<exists>s'. sendBatchReq api pb a items s = (s', None) \<and>
    lsts (ext s') = (lsts (ext s))(keyForMQ a := if length q > 1000 then drop (length q - 500) q else q)"
proof -
  obtain s1 len where p: "PushMsgToMQ api a raw s = (s1, Inr len)" by (rule total_cmds(1) [OF T])
  note P = push_spec [OF L p]
  show ?thesis
  proof (cases "length q > 1000")
    case False
    then show ?thesis using raw p P q by (auto simp: sendBatchReq_def MQ_MAX_LEN_def)
  next
    case True
    obtain s2 where t: "TrimMQ api a 500 s1 = (s2, None)" by (rule total_cmds(3) [OF T])
    obtain s3 len2 where g: "GetLenMQ api a s2 = (s3, Inr len2)" by (rule total_cmds(2) [OF T])
    have "lsts (ext s3) = (lsts (ext s1))(keyForMQ a := lrange (- 500) (- 1) (lsts (ext s1) (keyForMQ a)))"
      using trim_spec [OF L t] len_spec [OF L g] by simp
    moreover have "lrange (- 500) (- 1) (lsts (ext s1) (keyForMQ a)) = drop (length q - 500) q"
      using lrange_last [of 500 q] P q by simp
    ultimately show ?thesis
      using True raw p P q t g by (auto simp: sendBatchReq_def MQ_MAX_LEN_def MQ_LEN_AFTER_TRIM_def)
  qed
qed

text \<open>Batches sent one after another.\<close>

fun sendBatches :: "'x redis_api \<Rightarrow> pb_codec \<Rightarrow> string \<Rightarrow> SignalBatchReq list \<Rightarrow> 'x redis \<Rightarrow> 'x redis" where
  "sendBatches api pb a [] s = s"
| "sendBatches api pb a (b # bs) s = sendBatches api pb a bs (fst (sendBatchReq api pb a b s))"

text \<open>
  C21: The queue of a node in Redis stays bounded and keeps the newest messages: with a server that
  follows its documentation and does not fail, after any number of batches the queue has at most
  1000 entries; it is the end of the sequence of everything that was sent, and at least 500 entries
  long unless fewer were sent. The queues of other nodes do not change.
\<close>

theorem queue_bounded:
  assumes L: "list_laws api lsts" and T: "list_total api"
    and raw: "list_all2 (\<lambda>b r. pbMarshal pb b = Inr r) bs raws"
    and q: "length (lsts (ext s) (keyForMQ a)) \<le> 1000"
  shows "\<exists>n. lsts (ext (sendBatches api pb a bs s)) (keyForMQ a) = drop n (lsts (ext s) (keyForMQ a) @ raws) \<and>
    length (lsts (ext (sendBatches api pb a bs s)) (keyForMQ a)) \<le> 1000 \<and>
    (n = 0 \<or> 500 \<le> length (lsts (ext (sendBatches api pb a bs s)) (keyForMQ a))) \<and>
    (\<forall>a'. a' \<noteq> a \<longrightarrow> lsts (ext (sendBatches api pb a bs s)) (keyForMQ a') = lsts (ext s) (keyForMQ a'))"
  using raw q
proof (induction bs raws arbitrary: s rule: list_all2_induct)
  case Nil
  then show ?case by (intro exI [of _ 0]) simp
next
  case (Cons b bs r rs)
  let ?q = "lsts (ext s) (keyForMQ a) @ [r]"
  obtain s1 where s1: "sendBatchReq api pb a b s = (s1, None)"
      "lsts (ext s1) = (lsts (ext s))(keyForMQ a := if length ?q > 1000 then drop (length ?q - 500) ?q else ?q)"
    using sendBatchReq_spec [OF L T Cons.hyps(1) refl] by blast
  define m where "m = (if length ?q > 1000 then length ?q - 500 else 0)"
  have m: "lsts (ext s1) (keyForMQ a) = drop m ?q" by (simp add: s1(2) m_def)
  have len: "length (lsts (ext s1) (keyForMQ a)) \<le> 1000" "m \<noteq> 0 \<longrightarrow> 500 \<le> length (drop m ?q)" "m \<le> length ?q"
    by (auto simp: m m_def)
  obtain n where n: "lsts (ext (sendBatches api pb a bs s1)) (keyForMQ a) = drop n (drop m ?q @ rs)"
      "length (lsts (ext (sendBatches api pb a bs s1)) (keyForMQ a)) \<le> 1000"
      "n = 0 \<or> 500 \<le> length (lsts (ext (sendBatches api pb a bs s1)) (keyForMQ a))"
      "\<forall>a'. a' \<noteq> a \<longrightarrow> lsts (ext (sendBatches api pb a bs s1)) (keyForMQ a') = lsts (ext s1) (keyForMQ a')"
    using Cons.IH [OF len(1), unfolded m] by blast
  have "drop m ?q @ rs = drop m (lsts (ext s) (keyForMQ a) @ r # rs)"
    using len(3) drop_append [of m ?q rs] by simp
  then have "drop n (drop m ?q @ rs) = drop (n + m) (lsts (ext s) (keyForMQ a) @ r # rs)"
    by (simp only: drop_drop)
  moreover have "n + m = 0 \<or> 500 \<le> length (lsts (ext (sendBatches api pb a bs s1)) (keyForMQ a))"
    using n(1,3) len(2) by auto
  ultimately show ?case
    using n s1 by (intro exI [of _ "n + m"]) (auto simp: keys_distinct)
qed

definition idCodec :: pb_codec where
  "idCodec = \<lparr>pbMarshal = \<lambda>items. Inr (concat (map reqData items)),
     pbUnmarshal = \<lambda>b. Inr [\<lparr>ToPeerId = [], reqData = b\<rparr>]\<rparr>"

theorem queue_bounded_witness:
  "\<exists>n. mlists (ext (sendBatches memRedis idCodec ''n2'' [[\<lparr>ToPeerId = ''p'', reqData = ''x''\<rparr>]] (emptyStore ''n1'')))
      (keyForMQ ''n2'') = drop n (mlists (ext (emptyStore ''n1'')) (keyForMQ ''n2'') @ [''x''])"
proof -
  have "list_all2 (\<lambda>b r. pbMarshal idCodec b = Inr r) [[\<lparr>ToPeerId = ''p'', reqData = ''x''\<rparr>]] [''x'']"
    by (simp add: idCodec_def)
  moreover have "length (mlists (ext (emptyStore ''n1'')) (keyForMQ ''n2'')) \<le> 1000" by (simp add: emptyStore_def)
  ultimately show ?thesis using queue_bounded [OF memRedis_lists memRedis_total] by blast
qed

section \<open>The hub of nodes\<close>

definition nodehub_ok :: "NodeHub \<Rightarrow> bool" where
  "nodehub_ok h \<longleftrightarrow> gm_ok (nodes h) \<and>
     (\<forall>a r. gm_get (nodes h) a = Some r \<longrightarrow> r < length (nheap h) \<and> addr (nodeAt h r) = a \<and>
        \<not> quitClosed (aggregator (nodeAt h r)) \<and> \<not> chclosed (eventQueue (aggregator (nodeAt h r))))"

lemma NewNode_open:
  "addr (NewNode numCPU a) = a" "\<not> quitClosed (aggregator (NewNode numCPU a))"
  "\<not> chclosed (eventQueue (aggregator (NewNode numCPU a)))" "isAlive (NewNode numCPU a)" "\<not> IsDead (NewNode numCPU a)"
  by (simp_all add: NewNode_def Start_def NewAggregator_def Let_def make_chan_def)

lemma GetNode_unknown:
  assumes ok: "nodehub_ok h" and None: "gm_get (nodes h) a = None"
    and h': "h' = Add a (length (nheap h)) (h\<lparr>nheap := nheap h @ [NewNode numCPU a]\<rparr>)"
  shows "GetNode numCPU id drained finished a h = Ret (h', Some (length (nheap h))) \<and> nodehub_ok h' \<and>
    gm_get (nodes h') = (gm_get (nodes h))(a \<mapsto> length (nheap h)) \<and>
    nodeAt h' (length (nheap h)) = NewNode numCPU a \<and>
    (\<forall>r < length (nheap h). nodeAt h' r = nodeAt h r) \<and> selfAddr h' = selfAddr h"
proof -
  have at: "nodeAt h' (length (nheap h)) = NewNode numCPU a" "\<And>r. r < length (nheap h) \<Longrightarrow> nodeAt h' r = nodeAt h r"
    by (auto simp: nodeAt_def h' Add_def nth_append)
  have g: "gm_get (nodes h') = (gm_get (nodes h))(a \<mapsto> length (nheap h))"
    by (simp add: h' Add_def gm_get_set)
  have len: "length (nheap h') = Suc (length (nheap h))" by (simp add: h' Add_def)
  have "gm_ok (nodes h')" using ok by (simp add: nodehub_ok_def h' Add_def gm_ok_set)
  moreover have "r < length (nheap h') \<and> addr (nodeAt h' r) = b \<and> \<not> quitClosed (aggregator (nodeAt h' r)) \<and>
      \<not> chclosed (eventQueue (aggregator (nodeAt h' r)))" if "gm_get (nodes h') b = Some r" for b r
  proof (cases "b = a")
    case True
    then show ?thesis using that g at(1) len NewNode_open by auto
  next
    case False
    then have "gm_get (nodes h) b = Some r" using that g by simp
    then show ?thesis using ok at(2) len by (auto simp: nodehub_ok_def intro: less_SucI)
  qed
  ultimately have "nodehub_ok h'" by (simp add: nodehub_ok_def)
  then show ?thesis
    using None g at by (simp add: GetNode_def nhGet_def Let_def h') (simp add: Add_def)
qed

text \<open>A lookup of an unknown address while other goroutines change the hub: they can only be faster in adding the node.\<close>

lemma GetNode_contended:
  assumes None: "gm_get (nodes h) a = None" and ok: "nodehub_ok (locked h)"
  shows "\<exists>h' r. GetNode numCPU locked drained finished a h = Ret (h', Some r) \<and> nodehub_ok h' \<and> gm_get (nodes h') a = Some r"
proof (cases "gm_get (nodes (locked h)) a")
  case (Some r)
  then show ?thesis using None ok by (simp add: GetNode_def nhGet_def Let_def)
next
  case absent: None
  have "GetNode numCPU locked drained finished a h = GetNode numCPU id drained finished a (locked h)"
    using None absent by (simp add: GetNode_def nhGet_def Let_def)
  then show ?thesis using GetNode_unknown [OF ok absent refl, of numCPU drained finished] by fastforce
qed

lemma GetNode_dead:
  assumes ok: "nodehub_ok h" and fin: "\<And>g. safeStopLook (drained g)" "\<And>g. quitClosed (drained g) = quitClosed g"
    and Some: "gm_get (nodes h) a = Some r" and dead: "IsDead (nodeAt h r)"
  shows "\<exists>h'. GetNode numCPU locked drained finished a h = Ret (h', None) \<and> nodehub_ok h' \<and>
    gm_get (nodes h') = (gm_get (nodes h))(a := None) \<and> selfAddr h' = selfAddr h"
proof -
  have r: "r < length (nheap h)" "addr (nodeAt h r) = a" "\<not> quitClosed (aggregator (nodeAt h r))"
    using ok Some by (auto simp: nodehub_ok_def)
  define g1 where "g1 = (let g = aggregator (nodeAt h r) in if safeStopLook g then g else drained g)"
  define nd where "nd = (nodeAt h r)\<lparr>IsDead := True, aggregator := finished (g1\<lparr>quitClosed := True\<rparr>)\<rparr>"
  let ?h' = "(setNode r nd h)\<lparr>nodes := gm_del a (nodes h)\<rparr>"
  have "safeStopLook g1" "\<not> quitClosed g1" using fin r by (auto simp: g1_def Let_def)
  then have "SafeStop drained finished (aggregator (nodeAt h r)) = Ret (finished (g1\<lparr>quitClosed := True\<rparr>))"
    by (simp add: SafeStop_def Let_def closeQuit_def g1_def)
  then have "GetNode numCPU locked drained finished a h = Ret (?h', None)"
    using Some dead r by (simp add: GetNode_def nhGet_def nhDelete_def Destroy_def nd_def)
  moreover have at: "nodeAt ?h' s = nodeAt h s" if "s \<noteq> r" for s
    using that by (simp add: nodeAt_def setNode_def)
  have "nodehub_ok ?h'"
    unfolding nodehub_ok_def
  proof (intro conjI allI impI)
    show "gm_ok (nodes ?h')" using ok by (simp add: nodehub_ok_def gm_ok_del)
    fix b s assume "gm_get (nodes ?h') b = Some s"
    then have b: "b \<noteq> a" "gm_get (nodes h) b = Some s" by (auto simp: gm_get_del split: if_splits)
    then have "s < length (nheap h) \<and> addr (nodeAt h s) = b \<and> \<not> quitClosed (aggregator (nodeAt h s)) \<and>
        \<not> chclosed (eventQueue (aggregator (nodeAt h s)))"
      using ok by (auto simp: nodehub_ok_def)
    moreover have "nodeAt ?h' s = nodeAt h s" using b(1) calculation r(2) by (intro at) auto
    ultimately show "s < length (nheap ?h')" "addr (nodeAt ?h' s) = b" "\<not> quitClosed (aggregator (nodeAt ?h' s))"
        "\<not> chclosed (eventQueue (aggregator (nodeAt ?h' s)))"
      by (simp_all add: setNode_def)
  qed
  ultimately show ?thesis by (simp add: gm_get_del) (simp add: setNode_def)
qed

text \<open>
  C35: A lookup in the hub, when no other goroutine interferes: a known living node is returned as it
  is; for an unknown address a new living node is created and stored; a dead node is removed, so that
  the next lookup creates a fresh one. The invariant that each address maps to a running node with
  that address is kept, and the entries of other addresses do not change.
\<close>

theorem GetNode_correct:
  assumes ok: "nodehub_ok h" and fin: "\<And>g. safeStopLook (drained g)" "\<And>g. quitClosed (drained g) = quitClosed g"
  shows "\<exists>h' res. GetNode numCPU id drained finished a h = Ret (h', res) \<and> nodehub_ok h' \<and>
    (\<forall>a'. a' \<noteq> a \<longrightarrow> gm_get (nodes h') a' = gm_get (nodes h) a') \<and>
    (case gm_get (nodes h) a of
       None \<Rightarrow> (\<exists>r. res = Some r \<and> gm_get (nodes h') a = Some r \<and> nodeAt h' r = NewNode numCPU a)
     | Some r \<Rightarrow> if IsDead (nodeAt h r) then res = None \<and> gm_get (nodes h') a = None
                 else res = Some r \<and> h' = h)"
proof (cases "gm_get (nodes h) a")
  case None
  show ?thesis using GetNode_unknown [OF ok None refl, of numCPU drained finished] None by fastforce
next
  case (Some r)
  show ?thesis
  proof (cases "IsDead (nodeAt h r)")
    case False
    then show ?thesis using ok Some by (simp add: GetNode_def nhGet_def)
  next
    case True
    show ?thesis using GetNode_dead [OF ok fin Some True, of numCPU id finished] Some True by fastforce
  qed
qed

definition drainAll :: "SignalReq agg \<Rightarrow> SignalReq agg" where
  "drainAll g = g\<lparr>eventQueue := (eventQueue g)\<lparr>chbuf := []\<rparr>\<rparr>"

lemma drainAll_ok: "safeStopLook (drainAll g)" "quitClosed (drainAll g) = quitClosed g"
  by (simp_all add: drainAll_def safeStopLook_def chan_len_def)

theorem GetNode_correct_witness:
  "\<exists>h' r. GetNode 4 id drainAll id ''10.0.0.2:80'' (NewNodeHub ''10.0.0.1:80'') = Ret (h', Some r) \<and>
     gm_get (nodes h') ''10.0.0.2:80'' = Some r"
proof -
  have "nodehub_ok (NewNodeHub ''10.0.0.1:80'')"
    by (simp add: nodehub_ok_def NewNodeHub_def gm_get_empty gm_ok_empty)
  from GetNode_correct [OF this drainAll_ok, of 4 id "''10.0.0.2:80''"] show ?thesis
    by (auto simp: NewNodeHub_def gm_get_empty)
qed

lemma SafeStop_closed:
  assumes "SafeStop drained finished g = Ret g'" "\<And>g. quitClosed (finished g) = quitClosed g"
  shows "quitClosed g'"
proof -
  define g1 where "g1 = (if safeStopLook g then g else drained g)"
  have "SafeStop drained finished g = (if \<not> safeStopLook g1 then Blocks
      else case closeQuit g1 of Inl p \<Rightarrow> Panics p | Inr s2 \<Rightarrow> Ret (finished s2))"
    by (simp only: SafeStop_def Let_def g1_def)
  then show ?thesis
    using assms by (cases "safeStopLook g1"; cases "quitClosed g1") (auto simp: closeQuit_def)
qed

text \<open>
  Two goroutines that both find the same dead node in the hub crash: each calls \<open>Delete\<close> on it
  without the lock, and when the first has stopped the node's aggregator, the second closes the
  channel \<open>quit\<close> again, which panics.
\<close>

theorem concurrent_Delete_panics:
  assumes "r < length (nheap h)" and "nhDelete drained finished r h = Ret h1"
    and "\<And>g. quitClosed (finished g) = quitClosed g"
    and "\<And>g. safeStopLook (drained' g)" and "\<And>g. quitClosed (drained' g) = quitClosed g"
  shows "nhDelete drained' finished' r h1 = Panics CloseOfClosed"
proof -
  obtain nd where d: "Destroy drained finished (nodeAt h r) = Ret nd"
      "h1 = (setNode r nd h)\<lparr>nodes := gm_del (addr nd) (nodes h)\<rparr>"
    using assms(2) by (auto simp: nhDelete_def obind_Ret_iff)
  obtain g where "SafeStop drained finished (aggregator (nodeAt h r)) = Ret g" "aggregator nd = g"
    using d(1) by (auto simp: Destroy_def obind_Ret_iff)
  then have "quitClosed (aggregator nd)" using SafeStop_closed assms(3) by blast
  moreover have "nodeAt h1 r = nd" using d(2) assms(1) by (simp add: nodeAt_def setNode_def)
  ultimately show ?thesis
    using assms(4,5) by (simp add: nhDelete_def Destroy_def SafeStop_def Let_def closeQuit_def)
qed

theorem concurrent_Delete_panics_witness:
  "nhDelete drainAll id 0 (case nhDelete drainAll id 0
      \<lparr>nodes = [(''n2'', 0)], nheap = [(NewNode 4 ''n2'')\<lparr>IsDead := True\<rparr>], selfAddr = ''n1''\<rparr> of Ret h1 \<Rightarrow> h1)
   = Panics CloseOfClosed"
proof -
  let ?h = "\<lparr>nodes = [(''n2'', 0)], nheap = [(NewNode 4 ''n2'')\<lparr>IsDead := True\<rparr>], selfAddr = ''n1''\<rparr>"
  obtain h1 where h1: "nhDelete drainAll id 0 ?h = Ret h1"
    by (simp add: nhDelete_def Destroy_def SafeStop_def Let_def nodeAt_def NewNode_def Start_def NewAggregator_def
      safeStopLook_def chan_len_def make_chan_def closeQuit_def)
  have "nhDelete drainAll id 0 h1 = Panics CloseOfClosed"
    by (rule concurrent_Delete_panics [OF _ h1]) (simp_all add: drainAll_ok)
  then show ?thesis by (simp add: h1)
qed

section \<open>Sending to another node\<close>

text \<open>The queue of a node's aggregator is never closed, so sending to it cannot panic.\<close>

lemma SendMsgSignal_spec:
  assumes "\<And>g. chclosed (eventQueue (yielded g)) = chclosed (eventQueue g)" "\<not> chclosed (eventQueue (aggregator nd))"
  shows "\<exists>nd' err. SendMsgSignal marshal yielded resp p nd = Ret (nd', err) \<and>
    (err = None \<longleftrightarrow> isAlive nd \<and> \<not> isl (marshal resp)) \<and> nd' = nd\<lparr>aggregator := aggregator nd'\<rparr>"
  using assms
  by (auto simp: SendMsgSignal_def TryEnqueue_def chan_send_def Let_def split: sum.splits)

text \<open>
  \<open>SendMsgSignal\<close> reports success although the message is lost: when the node's queue is full
  and still full after yielding, the message is dropped and the caller gets no error.
\<close>

theorem SendMsgSignal_drops_silently:
  assumes "isAlive nd" and "marshal resp = Inr b" and "\<not> chclosed (eventQueue (aggregator nd))"
    and "chcap (eventQueue (aggregator nd)) \<le> length (chbuf (eventQueue (aggregator nd)))"
  shows "SendMsgSignal marshal id resp p nd = Ret (nd, None)"
  using assms by (simp add: SendMsgSignal_def TryEnqueue_def chan_send_def Let_def)

text \<open>The aggregator of a node that was not destroyed delivers what it accepts, as the last item of a batch.\<close>

lemma NewNode_aggregator: "aggregator (NewNode numCPU a) = started numCPU [nodeOptions]"
  by (simp add: NewNode_def nodeOptions_def [abs_def] MAX_PIPE_LEN_def)

lemma nodeOptions_batch: "2 \<le> BatchSize (option (started numCPU [nodeOptions]))"
  by (simp add: nodeOptions_eq)

lemma node_delivers:
  assumes run: "agg_run bp (aggregator (NewNode numCPU a)) ls g" and r: "running g 0"
    and sent: "chan_send x (eventQueue g) = Sent q"
  shows "\<exists>ls' g' ds items. agg_run bp (g\<lparr>eventQueue := q\<rparr>) ls' g' \<and> calls g' = calls g @ ds @ [items @ [x]] \<and>
    concat ds @ items = batch g 0 @ chbuf (eventQueue g)"
proof -
  let ?g1 = "g\<lparr>eventQueue := q\<rparr>"
  have "agg_step bp g (LEnqueue x) ?g1" by (rule agg_step.enqueue) (simp add: Enqueue_def sent)
  then have run1: "agg_run bp (started numCPU [nodeOptions]) (ls @ [LEnqueue x]) ?g1"
    using run trace.snoc by (fastforce simp: NewNode_aggregator)
  have q: "chbuf q = chbuf (eventQueue g) @ [x]" using sent by (simp add: chan_send_Sent)
  have b: "batch ?g1 0 = batch g 0" "running ?g1 0" using r by (simp_all add: batch_def worker_at_def)
  have "agg_ok ?g1" using run_simulates [OF run1 started_facts(2) [OF nodeOptions_batch]] by blast
  then obtain ls' g' ds where d: "agg_run bp ?g1 ls' g'" "calls g' = calls g @ ds"
      "concat ds = (batch g 0 @ chbuf (eventQueue g)) @ [x]"
    using agg_drains [of ?g1 0 bp] b q by auto
  have "\<forall>d \<in> set (calls g'). d \<noteq> []"
    using run_batches(2) [OF nodeOptions_batch trace_append [OF d(1) run1]] by blast
  then have "\<forall>d \<in> set ds. d \<noteq> []" using d(2) by simp
  then show ?thesis by (rule concat_last [OF d(3)]) (use d(1,2) in fastforce)
qed

section \<open>Batches that cannot be encoded\<close>

text \<open>
  A batch is encoded as a whole. With the format of the messages, one item whose receiver is not a
  valid UTF-8 string is enough: the batch processor reports the error, the error handler fails in the
  same way, and nothing of the batch, up to sixty signals of other peers, reaches the queue of the
  node. The ids of the peers come from the URL and are checked for their length only.
\<close>

lemma wireMarshal_bad_id: "m \<in> set items \<Longrightarrow> \<not> utf8Valid (ToPeerId m) \<Longrightarrow> \<exists>err. wireMarshal items = Inl err"
  by (auto simp: wireMarshal_def list_all_iff)

theorem one_bad_id_loses_batch:
  assumes "m \<in> set items" and "\<not> utf8Valid (ToPeerId m)"
  shows "\<exists>err. nodeBatchProcess api wireCodec a items s = (s, Some (MarshalErr err)) \<and>
    nodeErrorHandler api wireCodec a items s = s"
  using wireMarshal_bad_id [OF assms] assms(1)
  by (auto simp: nodeBatchProcess_def nodeErrorHandler_def sendBatchReq_def wireCodec_def)

theorem one_bad_id_loses_batch_witness:
  "\<exists>err. nodeBatchProcess memRedis wireCodec ''n2''
     [\<lparr>ToPeerId = ''peer-a'', reqData = ''x''\<rparr>, \<lparr>ToPeerId = replicate 6 (CHR 0xFF), reqData = ''y''\<rparr>] (emptyStore ''n1'') =
     (emptyStore ''n1'', Some (MarshalErr err))"
proof -
  let ?m = "\<lparr>ToPeerId = replicate 6 (CHR 0xFF), reqData = ''y''\<rparr>"
  have "\<not> utf8Valid (ToPeerId ?m)" by (subst utf8Valid.simps) (simp add: numeral_eq_Suc inR_def)
  from one_bad_id_loses_batch [OF _ this, of "[\<lparr>ToPeerId = ''peer-a'', reqData = ''x''\<rparr>, ?m]"]
  show ?thesis by fastforce
qed

end
