(* ===== verification/Hub.thy ===== *)
theory Hub
  imports CMap Client Nodes
begin

text \<open>
  The hub of \<open>src/hub/hub.go\<close>: the table of the clients connected to this node, their registration
  in the directory in Redis, and the delivery of the messages that other nodes put into this node's
  queue. The table is the sharded map of theory CMap; the lemmas use it through the contract
  \<open>fast_map\<close> that CMap was shown to satisfy.

  \<open>DoUnregister\<close> tests and removes in two steps, so the steps are definitions of their own. The
  goroutines of \<open>Consume\<close> are modelled by the rounds of its loop; a popped message is handed to
  \<open>sendMessageToLocalPeer\<close>.
\<close>

record 'x hub =
  Clients :: "cref cmap"
  cw :: cworld
  rds :: "'x redis"

definition CONSUME_THREADS :: nat where
  "CONSUME_THREADS = 18"

definition MQ_BLOCK_DURATION :: int where
  "MQ_BLOCK_DURATION = 5000000000"

definition InitHub :: "'x redis \<Rightarrow> 'x hub" where
  "InitHub s = \<lparr>Clients = NewCMap, cw = \<lparr>heap = [], pool = [], net = []\<rparr>, rds = s\<rparr>"

section \<open>Operations\<close>

definition GetClientCount :: "'x hub \<Rightarrow> int" where
  "GetClientCount h = i64 (int (CountNoLock (Clients h)))"

definition GetClientNumPerMap :: "'x hub \<Rightarrow> nat list" where
  "GetClientNumPerMap h = CountPerMapNoLock (Clients h)"

definition DoRegister :: "'x redis_api \<Rightarrow> cref \<Rightarrow> 'x hub \<Rightarrow> 'x hub" where
  "DoRegister api r h =
     (let peerId = PeerId (obj (cw h) r)
      in h\<lparr>Clients := cmSet peerId r (Clients h), rds := fst (SetLocalPeer api peerId (rds h))\<rparr>)"

definition GetClient :: "'x hub \<Rightarrow> string \<Rightarrow> cref option" where
  "GetClient h peer = cmGet (Clients h) peer"

definition RemoveClient :: "string \<Rightarrow> 'x hub \<Rightarrow> 'x hub" where
  "RemoveClient peer h = h\<lparr>Clients := cmRemove peer (Clients h)\<rparr>"

definition unregisterCheck :: "string \<Rightarrow> 'x hub \<Rightarrow> bool" where
  "unregisterCheck peerId h \<longleftrightarrow> peerId \<noteq> [] \<and> Has (Clients h) peerId"

definition unregisterRemove :: "'x redis_api \<Rightarrow> string \<Rightarrow> 'x hub \<Rightarrow> 'x hub" where
  "unregisterRemove api peerId h =
     h\<lparr>Clients := cmRemove peerId (Clients h), rds := fst (DelLocalPeer api peerId (rds h))\<rparr>"

definition DoUnregister :: "'x redis_api \<Rightarrow> string \<Rightarrow> 'x hub \<Rightarrow> 'x hub \<times> bool" where
  "DoUnregister api peerId h =
     (if unregisterCheck peerId h then (unregisterRemove api peerId h, True) else (h, False))"

text \<open>
  \<open>SendJsonToClient\<close> recovers from a panic whose value is a string; for any other value the type
  assertion in the deferred function panics again.
\<close>

definition SendJsonToClient ::
    "ws_env \<Rightarrow> ('v \<Rightarrow> string + bytes) \<Rightarrow> cref \<Rightarrow> 'v \<Rightarrow> 'x hub \<Rightarrow> ('x hub \<times> string option \<times> bool) outcome" where
  "SendJsonToClient env marshal target v h =
     (case marshal v of
        Inl err \<Rightarrow> Ret (h, Some err, False)
      | Inr b \<Rightarrow>
          (case SendMessage env target b (cw h) of
             Ret (w, err, fatal) \<Rightarrow> Ret (h\<lparr>cw := w\<rparr>, err, fatal)
           | Blocks \<Rightarrow> Blocks
           | Panics (PanicValue s) \<Rightarrow> Ret (h, None, False)
           | Panics p \<Rightarrow> Panics TypeAssertion))"

definition ClearAll :: "nat list \<Rightarrow> 'x hub \<Rightarrow> 'x hub" where
  "ClearAll sched h = h\<lparr>Clients := Clear sched (Clients h)\<rparr>"

text \<open>Unregister a client and, if it was registered, close it: the code after a failed send.\<close>

definition dropClient :: "ws_env \<Rightarrow> 'x redis_api \<Rightarrow> cref \<Rightarrow> 'x hub \<Rightarrow> 'x hub outcome" where
  "dropClient env api r h =
     (case DoUnregister api (PeerId (obj (cw h) r)) h of
        (h1, False) \<Rightarrow> Ret h1
      | (h1, True) \<Rightarrow> obind (Close env r (cw h1)) (\<lambda>(w, _). Ret (h1\<lparr>cw := w\<rparr>)))"

definition deliverItem :: "ws_env \<Rightarrow> 'x redis_api \<Rightarrow> SignalReq \<Rightarrow> 'x hub \<Rightarrow> 'x hub outcome" where
  "deliverItem env api item h =
     (case GetClient h (ToPeerId item) of
        None \<Rightarrow> Ret h
      | Some r \<Rightarrow>
          obind (SendMessage env r (reqData item) (cw h)) (\<lambda>(w, err, _).
            if err \<noteq> None then dropClient env api r (h\<lparr>cw := w\<rparr>) else Ret (h\<lparr>cw := w\<rparr>)))"

fun deliverItems :: "ws_env \<Rightarrow> 'x redis_api \<Rightarrow> SignalReq list \<Rightarrow> 'x hub \<Rightarrow> 'x hub outcome" where
  "deliverItems env api [] h = Ret h"
| "deliverItems env api (item # items) h = obind (deliverItem env api item h) (deliverItems env api items)"

definition sendMessageToLocalPeer ::
    "ws_env \<Rightarrow> 'x redis_api \<Rightarrow> pb_codec \<Rightarrow> bytes \<Rightarrow> 'x hub \<Rightarrow> 'x hub outcome" where
  "sendMessageToLocalPeer env api pb raw h =
     (case pbUnmarshal pb raw of Inl err \<Rightarrow> Ret h | Inr items \<Rightarrow> deliverItems env api items h)"

text \<open>One round of the loop of \<open>Consume\<close>: the message it hands to a new goroutine, if any.\<close>

definition consumeRound :: "'x redis_api \<Rightarrow> string \<Rightarrow> 'x hub \<Rightarrow> ('x hub \<times> bytes option) outcome" where
  "consumeRound api a h =
     obind (BlockPopMQ api MQ_BLOCK_DURATION a (rds h)) (\<lambda>(s, res).
       Ret (h\<lparr>rds := s\<rparr>, case res of Inl err \<Rightarrow> None | Inr b \<Rightarrow> Some b))"

section \<open>The invariant\<close>

text \<open>
  Every registered client is an object of the heap that is not free, and it is registered under its
  own id; so two ids never share a client.
\<close>

definition hub_ok :: "'x hub \<Rightarrow> bool" where
  "hub_ok h \<longleftrightarrow> cmap_ok (Clients h) \<and> cworld_ok (cw h) \<and>
     (\<forall>p r. cmGet (Clients h) p = Some r \<longrightarrow>
        r < length (heap (cw h)) \<and> r \<notin> set (pool (cw h)) \<and> PeerId (obj (cw h) r) = p)"

lemma hub_okD:
  assumes "hub_ok h" "GetClient h p = Some r"
  shows "r < length (heap (cw h))" "r \<notin> set (pool (cw h))" "PeerId (obj (cw h) r) = p"
  using assms by (auto simp: hub_ok_def GetClient_def)

lemma hub_ok_unique:
  "hub_ok h \<Longrightarrow> GetClient h p = Some r \<Longrightarrow> GetClient h q = Some r \<Longrightarrow> p = q"
  using hub_okD(3) by metis

lemma hub_ok_rds [simp]: "hub_ok (h\<lparr>rds := s\<rparr>) \<longleftrightarrow> hub_ok h"
  by (simp add: hub_ok_def)

lemma hub_ok_Init: "hub_ok (InitHub s)"
  by (simp add: hub_ok_def InitHub_def cm.get_empty cm.invar_empty cworld_ok_def)

text \<open>A change of the client world that keeps the objects, the free list and the ids.\<close>

lemma hub_ok_cw:
  assumes "hub_ok h" "cworld_ok w" "pool w = pool (cw h)" "length (heap w) = length (heap (cw h))"
    "\<And>r. PeerId (obj w r) = PeerId (obj (cw h) r)"
  shows "hub_ok (h\<lparr>cw := w\<rparr>)"
  using assms by (simp add: hub_ok_def)

lemma DoRegister_spec:
  assumes ok: "hub_ok h" and r: "r < length (heap (cw h))" "r \<notin> set (pool (cw h))"
  shows "hub_ok (DoRegister api r h)"
    and "GetClient (DoRegister api r h) = (GetClient h)(PeerId (obj (cw h) r) \<mapsto> r)"
    and "cw (DoRegister api r h) = cw h"
proof -
  have m: "cmap_ok (Clients h)" using ok by (simp add: hub_ok_def)
  show g: "GetClient (DoRegister api r h) = (GetClient h)(PeerId (obj (cw h) r) \<mapsto> r)"
    by (rule ext) (simp add: GetClient_def DoRegister_def Let_def cm.get_set [OF m])
  show "cw (DoRegister api r h) = cw h" by (simp add: DoRegister_def Let_def)
  then show "hub_ok (DoRegister api r h)"
    using ok r g cm.invar_set [OF m]
    by (auto simp: hub_ok_def GetClient_def [abs_def] DoRegister_def Let_def fun_upd_def split: if_splits)
qed

lemma DoUnregister_spec:
  assumes ok: "hub_ok h" and d: "DoUnregister api p h = (h1, b)"
  shows "hub_ok h1" and "GetClient h1 = (if p = [] then GetClient h else (GetClient h)(p := None))"
    and "cw h1 = cw h" and "b \<longleftrightarrow> p \<noteq> [] \<and> GetClient h p \<noteq> None"
proof -
  have m: "cmap_ok (Clients h)" using ok by (simp add: hub_ok_def)
  show b: "b \<longleftrightarrow> p \<noteq> [] \<and> GetClient h p \<noteq> None"
    using d by (auto simp: DoUnregister_def unregisterCheck_def cm.has_get [OF m] GetClient_def split: if_splits)
  show c: "cw h1 = cw h" using d by (auto simp: DoUnregister_def unregisterRemove_def split: if_splits)
  show g: "GetClient h1 = (if p = [] then GetClient h else (GetClient h)(p := None))"
    using d b by (auto simp: DoUnregister_def unregisterRemove_def GetClient_def [abs_def] cm.get_remove [OF m] fun_eq_iff
      split: if_splits)
  show "hub_ok h1"
    using d ok cm.invar_remove [OF m, of p]
    by (auto simp: DoUnregister_def unregisterRemove_def hub_ok_def cm.get_remove [OF m] split: if_splits)
qed
lemma dropClient_spec:
  assumes ok: "hub_ok h" and g: "GetClient h p = Some r"
  shows "\<exists>h'. dropClient env api r h = Ret h' \<and> hub_ok h' \<and> heap (cw h') = heap (cw h) \<and>
    GetClient h' = (if p = [] then GetClient h else (GetClient h)(p := None))"
proof -
  note D = hub_okD [OF ok g]
  obtain h1 b where u: "DoUnregister api p h = (h1, b)" by fastforce
  note U = DoUnregister_spec [OF ok u]
  show ?thesis
  proof (cases b)
    case False
    then show ?thesis using u U D g by (auto simp: dropClient_def)
  next
    case True
    have w: "cworld_ok (cw h)" using ok by (simp add: hub_ok_def)
    obtain w' err where c: "Close env r (cw h) = Ret (w', err)" "cworld_ok w'" "heap w' = heap (cw h)" "pool w' = r # pool (cw h)"
      using Close_spec [OF w D(1,2), of env] by blast
    have "hub_ok (h1\<lparr>cw := w'\<rparr>)"
      unfolding hub_ok_def
    proof (intro conjI allI impI)
      show "cmap_ok (Clients (h1\<lparr>cw := w'\<rparr>))" "cworld_ok (cw (h1\<lparr>cw := w'\<rparr>))"
        using U(1) c(2) by (simp_all add: hub_ok_def)
      fix q s assume "cmGet (Clients (h1\<lparr>cw := w'\<rparr>)) q = Some s"
      then have q: "GetClient h1 q = Some s" by (simp add: GetClient_def)
      then have "GetClient h q = Some s" "q \<noteq> p" using U(2,4) True by (auto split: if_splits)
      then have "s \<noteq> r" "PeerId (obj (cw h) s) = q" using hub_ok_unique [OF ok g] hub_okD [OF ok] by blast+
      moreover have "s < length (heap (cw h))" "s \<notin> set (pool (cw h))"
        using hub_okD [OF ok \<open>GetClient h q = Some s\<close>] by auto
      ultimately show "s < length (heap (cw (h1\<lparr>cw := w'\<rparr>)))" "s \<notin> set (pool (cw (h1\<lparr>cw := w'\<rparr>)))"
          "PeerId (obj (cw (h1\<lparr>cw := w'\<rparr>)) s) = q"
        using c by (simp_all add: obj_def)
    qed
    moreover have "dropClient env api r h = Ret (h1\<lparr>cw := w'\<rparr>)"
      using u True D(3) c(1) U(3) by (simp add: dropClient_def)
    moreover have "GetClient (h1\<lparr>cw := w'\<rparr>) = GetClient h1" by (simp add: GetClient_def [abs_def])
    ultimately show ?thesis using U(2) c(3) by (intro exI [of _ "h1\<lparr>cw := w'\<rparr>"]) simp
  qed
qed

lemma SendMessage_hub:
  assumes ok: "hub_ok h" and r: "r < length (heap (cw h))"
  obtains w err fatal where "SendMessage env r msg (cw h) = Ret (w, err, fatal)" "hub_ok (h\<lparr>cw := w\<rparr>)"
    "pool w = pool (cw h)" "length (heap w) = length (heap (cw h))"
    "\<And>s. s \<noteq> r \<Longrightarrow> obj w s = obj (cw h) s" "obj w r = (obj (cw h) r)\<lparr>MsgQueue := MsgQueue (obj w r)\<rparr>"
    "IsPolling (obj (cw h) r) \<Longrightarrow> \<not> fatal \<and>
      (if length (queue (cw h) r) < POLLING_QUEUE_SIZE then err = None \<and> queue w r = queue (cw h) r @ [msg] else err \<noteq> None)"
proof -
  have w: "cworld_ok (cw h)" using ok by (simp add: hub_ok_def)
  show thesis
  proof (rule SendMessage_spec [OF w r, of env msg])
    fix w' err fatal
    assume s: "SendMessage env r msg (cw h) = Ret (w', err, fatal)" "cworld_ok w'" "pool w' = pool (cw h)"
      "length (heap w') = length (heap (cw h))" "\<And>s. s \<noteq> r \<Longrightarrow> obj w' s = obj (cw h) s"
      "obj w' r = (obj (cw h) r)\<lparr>MsgQueue := MsgQueue (obj w' r)\<rparr>"
      "IsPolling (obj (cw h) r) \<Longrightarrow> net w' = net (cw h) \<and> \<not> fatal \<and>
        (if length (queue (cw h) r) < POLLING_QUEUE_SIZE then err = None \<and> queue w' r = queue (cw h) r @ [msg]
         else err \<noteq> None \<and> w' = cw h)"
    have "PeerId (obj w' q) = PeerId (obj (cw h) q)" for q
      using s(5) [of q] arg_cong [OF s(6), of PeerId] by (cases "q = r") auto
    then have "hub_ok (h\<lparr>cw := w'\<rparr>)" by (rule hub_ok_cw [OF ok s(2-4)])
    then show thesis using that [OF s(1)] s(3-7) by (auto split: if_splits)
  qed
qed

text \<open>
  What the delivery of one item does: it returns, keeps the invariant and touches no other client; a
  polling client with room gets the message.
\<close>

lemma deliverItem_spec:
  assumes ok: "hub_ok h"
  shows "\<exists>h'. deliverItem env api item h = Ret h' \<and> hub_ok h' \<and>
    (\<forall>q r. q \<noteq> ToPeerId item \<longrightarrow> GetClient h q = Some r \<longrightarrow> GetClient h' q = Some r \<and> obj (cw h') r = obj (cw h) r) \<and>
    (\<forall>r. GetClient h (ToPeerId item) = Some r \<longrightarrow> IsPolling (obj (cw h) r) \<longrightarrow>
       length (queue (cw h) r) < POLLING_QUEUE_SIZE \<longrightarrow>
       GetClient h' (ToPeerId item) = Some r \<and> IsPolling (obj (cw h') r) \<and>
       queue (cw h') r = queue (cw h) r @ [reqData item])"
proof (cases "GetClient h (ToPeerId item)")
  case None
  then show ?thesis using ok by (simp add: deliverItem_def)
next
  case (Some r)
  show ?thesis
  proof (rule SendMessage_hub [OF ok hub_okD(1) [OF ok Some], of env "reqData item"])
    fix w err fatal
    assume s: "SendMessage env r (reqData item) (cw h) = Ret (w, err, fatal)" "hub_ok (h\<lparr>cw := w\<rparr>)"
      "\<And>s. s \<noteq> r \<Longrightarrow> obj w s = obj (cw h) s" "obj w r = (obj (cw h) r)\<lparr>MsgQueue := MsgQueue (obj w r)\<rparr>"
      "IsPolling (obj (cw h) r) \<Longrightarrow> \<not> fatal \<and> (if length (queue (cw h) r) < POLLING_QUEUE_SIZE
        then err = None \<and> queue w r = queue (cw h) r @ [reqData item] else err \<noteq> None)"
    let ?h = "h\<lparr>cw := w\<rparr>"
    have gc: "GetClient ?h = GetClient h" by (simp add: GetClient_def [abs_def])
    have other: "obj w s = obj (cw h) s" if "q \<noteq> ToPeerId item" "GetClient h q = Some s" for q s
      using hub_ok_unique [OF ok that(2)] s(3) Some that by metis
    show ?thesis
    proof (cases "err = None")
      case True
      have "IsPolling (obj w r) = IsPolling (obj (cw h) r)" using arg_cong [OF s(4), of IsPolling] by simp
      then show ?thesis
        using True Some s other gc by (auto simp: deliverItem_def split: if_splits)
    next
      case False
      obtain h' where h': "dropClient env api r ?h = Ret h'" "hub_ok h'" "heap (cw h') = heap w"
          "GetClient h' = (if ToPeerId item = [] then GetClient h else (GetClient h)(ToPeerId item := None))"
        using dropClient_spec [OF s(2), of "ToPeerId item" r env api] Some gc by auto
      have "obj (cw h') s = obj w s" for s using h'(3) by (simp add: obj_def)
      moreover have "\<not> (IsPolling (obj (cw h) r) \<and> length (queue (cw h) r) < POLLING_QUEUE_SIZE)"
        using s(5) False by auto
      ultimately show ?thesis
        using False Some s(1) h' other by (auto simp: deliverItem_def)
    qed
  qed
qed

section \<open>Properties\<close>

text \<open>
  C23: The table of clients behaves as a map: registering makes the client found under its id,
  unregistering removes it and says whether it was there, all other ids are unaffected, the
  connection count changes accordingly, and the invariant is kept.
\<close>

theorem register_unregister:
  assumes ok: "hub_ok h" and r: "r < length (heap (cw h))" "r \<notin> set (pool (cw h))"
    and p: "p = PeerId (obj (cw h) r)" "p \<noteq> []" and h1: "h1 = DoRegister api r h"
  shows "hub_ok h1 \<and> GetClient h1 = (GetClient h)(p \<mapsto> r) \<and>
    CountNoLock (Clients h1) = (if GetClient h p = None then CountNoLock (Clients h) + 1 else CountNoLock (Clients h)) \<and>
    (\<exists>h2. DoUnregister api p h1 = (h2, True) \<and> hub_ok h2 \<and> GetClient h2 = (GetClient h)(p := None) \<and>
      DoUnregister api p h2 = (h2, False))"
proof -
  note R = DoRegister_spec [OF ok r, of api, folded h1 p(1)]
  have m: "cmap_ok (Clients h)" using ok by (simp add: hub_ok_def)
  have cnt: "CountNoLock (Clients h1) = (if GetClient h p = None then CountNoLock (Clients h) + 1 else CountNoLock (Clients h))"
    using cm.count_set [OF m] cm.has_get [OF m] p(1) by (simp add: h1 DoRegister_def Let_def GetClient_def)
  obtain h2 b where u: "DoUnregister api p h1 = (h2, b)" by fastforce
  note U = DoUnregister_spec [OF R(1) u]
  have b: "b" using U(4) R(2) p(2) by simp
  obtain h3 c where v: "DoUnregister api p h2 = (h3, c)" by fastforce
  have "\<not> c" using DoUnregister_spec(4) [OF U(1) v] U(2) p(2) by simp
  then have "DoUnregister api p h2 = (h2, False)" using v by (auto simp: DoUnregister_def split: if_splits)
  then show ?thesis using R U b u cnt p(2) by (auto simp: fun_upd_def)
qed

definition demoHub :: "mem_store hub" where
  "demoHub = DoRegister memRedis 1 (DoRegister memRedis 0 ((InitHub (emptyStore ''n1''))\<lparr>cw := demoWorld\<rparr>))"

lemma demoHub_base: "hub_ok ((InitHub (emptyStore ''n1''))\<lparr>cw := demoWorld\<rparr>)"
  using demoWorld_ok by (simp add: hub_ok_def InitHub_def cm.get_empty cm.invar_empty)

lemma demoWorld_simps:
  "length (heap demoWorld) = 2" "pool demoWorld = []" "PeerId (obj demoWorld 0) = ''peer-a''"
  "PeerId (obj demoWorld (Suc 0)) = ''peer-b''" "IsPolling (obj demoWorld 0)" "queue demoWorld 0 = []"
  by (simp_all add: demoWorld_eq obj_def queue_def make_chan_def)

lemma demoHub_facts:
  "hub_ok demoHub" "cw demoHub = demoWorld" "GetClient demoHub ''peer-a'' = Some 0" "GetClient demoHub ''peer-b'' = Some 1"
proof -
  let ?h0 = "(InitHub (emptyStore ''n1''))\<lparr>cw := demoWorld\<rparr>"
  have 1: "hub_ok (DoRegister memRedis 0 ?h0)" "GetClient (DoRegister memRedis 0 ?h0) = (GetClient ?h0)(''peer-a'' \<mapsto> 0)"
      "cw (DoRegister memRedis 0 ?h0) = demoWorld"
    using DoRegister_spec [OF demoHub_base, of 0 memRedis] by (simp_all add: demoWorld_simps)
  then show "hub_ok demoHub" "cw demoHub = demoWorld"
      "GetClient demoHub ''peer-a'' = Some 0" "GetClient demoHub ''peer-b'' = Some 1"
    using DoRegister_spec [OF 1(1), of 1 memRedis] by (simp_all add: demoHub_def demoWorld_simps)
qed

theorem register_unregister_witness:
  "\<exists>h2. DoUnregister memRedis ''peer-a'' (DoRegister memRedis 0 demoHub) = (h2, True) \<and>
     GetClient h2 ''peer-a'' = None"
proof -
  have "0 < length (heap (cw demoHub))" "0 \<notin> set (pool (cw demoHub))" "''peer-a'' = PeerId (obj (cw demoHub) 0)"
    by (simp_all add: demoHub_facts demoWorld_simps)
  from register_unregister [OF demoHub_facts(1) this _ refl, of memRedis] show ?thesis by auto
qed

lemma deliverItems_spec:
  assumes "hub_ok h"
  shows "\<exists>h'. deliverItems env api items h = Ret h' \<and> hub_ok h' \<and>
    (\<forall>p r. GetClient h p = Some r \<longrightarrow> IsPolling (obj (cw h) r) \<longrightarrow>
      length (queue (cw h) r) + length (filter (\<lambda>i. ToPeerId i = p) items) \<le> POLLING_QUEUE_SIZE \<longrightarrow>
      GetClient h' p = Some r \<and>
      queue (cw h') r = queue (cw h) r @ map reqData (filter (\<lambda>i. ToPeerId i = p) items))"
  using assms
proof (induction items arbitrary: h)
  case Nil
  then show ?case by simp
next
  case (Cons item items)
  obtain h1 where h1: "deliverItem env api item h = Ret h1" "hub_ok h1"
      "\<And>q r. q \<noteq> ToPeerId item \<Longrightarrow> GetClient h q = Some r \<Longrightarrow> GetClient h1 q = Some r \<and> obj (cw h1) r = obj (cw h) r"
      "\<And>r. GetClient h (ToPeerId item) = Some r \<Longrightarrow> IsPolling (obj (cw h) r) \<Longrightarrow>
        length (queue (cw h) r) < POLLING_QUEUE_SIZE \<Longrightarrow> GetClient h1 (ToPeerId item) = Some r \<and>
        IsPolling (obj (cw h1) r) \<and> queue (cw h1) r = queue (cw h) r @ [reqData item]"
    using deliverItem_spec [OF Cons.prems, of env api item] by blast
  obtain h2 where h2: "deliverItems env api items h1 = Ret h2" "hub_ok h2"
      "\<And>p r. GetClient h1 p = Some r \<Longrightarrow> IsPolling (obj (cw h1) r) \<Longrightarrow>
        length (queue (cw h1) r) + length (filter (\<lambda>i. ToPeerId i = p) items) \<le> POLLING_QUEUE_SIZE \<Longrightarrow>
        GetClient h2 p = Some r \<and>
        queue (cw h2) r = queue (cw h1) r @ map reqData (filter (\<lambda>i. ToPeerId i = p) items)"
    using Cons.IH [OF h1(2)] by blast
  have "GetClient h2 p = Some r \<and>
      queue (cw h2) r = queue (cw h) r @ map reqData (filter (\<lambda>i. ToPeerId i = p) (item # items))"
    if g: "GetClient h p = Some r" "IsPolling (obj (cw h) r)"
      "length (queue (cw h) r) + length (filter (\<lambda>i. ToPeerId i = p) (item # items)) \<le> POLLING_QUEUE_SIZE" for p r
  proof (cases "ToPeerId item = p")
    case True
    then show ?thesis using g h1(4) [of r] h2(3) [of p r] by simp
  next
    case False
    then have "GetClient h1 p = Some r" "obj (cw h1) r = obj (cw h) r" using h1(3) [OF _ g(1)] by auto
    moreover from this have "queue (cw h1) r = queue (cw h) r" by (simp add: queue_def)
    ultimately show ?thesis using g h2(3) [of p r] False by simp
  qed
  then show ?case using h1(1) h2(1,2) by (intro exI [of _ h2]) simp
qed

text \<open>
  C22: A batch that arrives from another node is delivered: it never blocks and never panics, whatever
  the connections do, the invariant of the hub is kept, and a registered polling client with room in
  its queue receives exactly the messages of the batch addressed to it, in order, after the ones it
  already has.
\<close>

theorem remote_batch_delivered:
  assumes "hub_ok h" and "pbUnmarshal pb raw = Inr items"
  shows "\<exists>h'. sendMessageToLocalPeer env api pb raw h = Ret h' \<and> hub_ok h' \<and>
    (\<forall>p r. GetClient h p = Some r \<longrightarrow> IsPolling (obj (cw h) r) \<longrightarrow>
      length (queue (cw h) r) + length (filter (\<lambda>i. ToPeerId i = p) items) \<le> POLLING_QUEUE_SIZE \<longrightarrow>
      GetClient h' p = Some r \<and>
      queue (cw h') r = queue (cw h) r @ map reqData (filter (\<lambda>i. ToPeerId i = p) items))"
  using deliverItems_spec [OF assms(1), of env api items] assms(2) by (simp add: sendMessageToLocalPeer_def)

definition oneItem :: pb_codec where
  "oneItem = \<lparr>pbMarshal = \<lambda>items. Inr (concat (map reqData items)),
     pbUnmarshal = \<lambda>b. Inr [\<lparr>ToPeerId = ''peer-a'', reqData = b\<rparr>]\<rparr>"

theorem remote_batch_delivered_witness:
  "\<exists>h'. sendMessageToLocalPeer quietEnv memRedis oneItem ''hello'' demoHub = Ret h' \<and> queue (cw h') 0 = [''hello'']"
proof -
  have "pbUnmarshal oneItem ''hello'' = Inr [\<lparr>ToPeerId = ''peer-a'', reqData = ''hello''\<rparr>]" by (simp add: oneItem_def)
  from remote_batch_delivered [OF demoHub_facts(1) this, of quietEnv memRedis] show ?thesis
    using demoHub_facts(3) by (fastforce simp: demoHub_facts(2) demoWorld_simps POLLING_QUEUE_SIZE_def)
qed

text \<open>
  The test and the removal in \<open>DoUnregister\<close> are separate: two goroutines that drop the same
  client at the same time can both pass the test, both close it and put its object into the pool
  twice. The next two clients then share one object: both ids are registered with it, and it carries
  the id of the second only.
\<close>

theorem concurrent_drop_aliases:
  assumes ok: "hub_ok h" and g: "GetClient h p = Some r" and p: "p \<noteq> []" and poll: "IsPolling (obj (cw h) r)"
  shows "unregisterCheck p h \<and>
    (\<exists>w1 w2 w3 w4. Close env r (cw h) = Ret (w1, None) \<and> Close env r w1 = Ret (w2, None) \<and>
      NewPollingPeerClient 0 t1 p1 w2 = (r, w3) \<and> NewPollingPeerClient 0 t2 p2 w3 = (r, w4) \<and>
      PeerId (obj w4 r) = p2)"
proof -
  have r: "r < length (heap (cw h))" using hub_okD [OF ok g] by simp
  have "cmap_ok (Clients h)" using ok by (simp add: hub_ok_def)
  then have "unregisterCheck p h" using g p by (simp add: unregisterCheck_def cm.has_get GetClient_def)
  moreover have "Close env r w = Ret (poolPut r w, None)" if "IsPolling (obj w r)" for w
    using that by (simp add: Close_def closeConn_def)
  ultimately show ?thesis
    using poll r by (simp add: NewPollingPeerClient_def poolGet_def poolPut_def obj_def setObj_def)
qed

theorem concurrent_drop_aliases_witness:
  "\<exists>w1 w2 w3 w4. Close quietEnv 0 (cw demoHub) = Ret (w1, None) \<and> Close quietEnv 0 w1 = Ret (w2, None) \<and>
     NewPollingPeerClient 0 200 ''peer-c'' w2 = (0, w3) \<and> NewPollingPeerClient 0 201 ''peer-d'' w3 = (0, w4) \<and>
     PeerId (obj w4 0) = ''peer-d''"
  using concurrent_drop_aliases [OF demoHub_facts(1,3), of quietEnv 200 "''peer-c''" 201 "''peer-d''"]
  by (simp add: demoHub_facts demoWorld_simps)

end
