(* ===== verification/Handler.thy ===== *)
theory Handler
  imports Hub ECache
begin

text \<open>
  The handlers of the messages that peers send: \<open>src/handler/handler.go\<close>, \<open>signal.go\<close>,
  \<open>rejected.go\<close>, \<open>heartbeat.go\<close> and \<open>exception.go\<close>. A handler runs on the whole state of the node: the
  hub with its clients and its view of Redis, the filter (a cache of theory ECache) and the hub of
  the other nodes. The environment record gathers what is outside the program.

  The theorems say where a signal goes on each branch, that a signal to a local peer arrives, that
  a signal to a remote peer enters the queue of the right node, and what the filter suppresses.
\<close>

section \<open>Messages, handlers and the state\<close>

record 'd SignalMsg =
  smAction :: string
  smToPeerId :: string
  smTo :: string
  smData :: "'d option"
  smReason :: string

datatype 'd handler =
    SignalHandler "'d SignalMsg" cref
  | HeartbeatHandler cref
  | RejectHandler "'d SignalMsg" cref
  | ExceptionHandler "'d SignalMsg" cref

record 'x sys =
  hb :: "'x hub"
  filt :: "unit Cache"
  nh :: NodeHub

text \<open>
  \<open>eNow\<close> is the clock of the cache, \<open>eUnix\<close> the time in seconds; \<open>eMarshal\<close> is the JSON encoder on
  responses; the last four are what other goroutines do while this one waits in \<open>GetNode\<close>,
  \<open>SafeStop\<close> or \<open>TryEnqueue\<close>.
\<close>

record ('x, 'd) env =
  eWs :: ws_env
  eApi :: "'x redis_api"
  eMarshal :: "'d SignalResp \<Rightarrow> string + bytes"
  eNow :: int
  eUnix :: int
  eCPU :: nat
  eLocked :: "NodeHub \<Rightarrow> NodeHub"
  eDrained :: "SignalReq agg \<Rightarrow> SignalReq agg"
  eFinished :: "SignalReq agg \<Rightarrow> SignalReq agg"
  eYielded :: "SignalReq agg \<Rightarrow> SignalReq agg"

fun liftR :: "'a res \<Rightarrow> 'a outcome" where
  "liftR (Inl p) = Panics p"
| "liftR (Inr x) = Ret x"

definition newFilter :: "unit Cache" where
  "newFilter = NewLRUCache 16 300 [0]"

definition keyForFilter :: "string \<Rightarrow> string \<Rightarrow> string" where
  "keyForFilter from to = from @ to"

definition emptyResp :: "string \<Rightarrow> 'd SignalResp" where
  "emptyResp act = \<lparr>respAction = act, respFromPeerId = [], respFrom = [], respData = None, respReason = []\<rparr>"

definition selfId :: "'x sys \<Rightarrow> cref \<Rightarrow> string" where
  "selfId st cli = PeerId (obj (cw (hb st)) cli)"

text \<open>The sender's id goes into a field that depends on the kind of the receiver.\<close>

definition setFrom :: "bool \<Rightarrow> string \<Rightarrow> 'd SignalResp \<Rightarrow> 'd SignalResp" where
  "setFrom polling peer resp = (if polling then resp\<lparr>respFrom := peer\<rparr> else resp\<lparr>respFromPeerId := peer\<rparr>)"

definition target :: "'d SignalMsg \<Rightarrow> string" where
  "target msg = (if smToPeerId msg = [] then smTo msg else smToPeerId msg)"

section \<open>The handlers\<close>

definition sendJson ::
    "('x, 'd) env \<Rightarrow> cref \<Rightarrow> 'd SignalResp \<Rightarrow> 'x sys \<Rightarrow> ('x sys \<times> string option \<times> bool) outcome" where
  "sendJson E r resp st =
     obind (SendJsonToClient (eWs E) (eMarshal E) r resp (hb st)) (\<lambda>(h, err, fatal). Ret (st\<lparr>hb := h\<rparr>, err, fatal))"

definition filterPut :: "('x, 'd) env \<Rightarrow> string \<Rightarrow> 'x sys \<Rightarrow> 'x sys outcome" where
  "filterPut E key st = obind (liftR (Put (eNow E) key () (filt st))) (\<lambda>(F, _). Ret (st\<lparr>filt := F\<rparr>))"

definition filterGet :: "('x, 'd) env \<Rightarrow> string \<Rightarrow> 'x sys \<Rightarrow> ('x sys \<times> bool) outcome" where
  "filterGet E key st =
     obind (liftR (Get (eNow E) key (filt st))) (\<lambda>(F, res). Ret (st\<lparr>filt := F\<rparr>, res \<noteq> None))"

definition handlePeerNotFound ::
    "('x, 'd) env \<Rightarrow> cref \<Rightarrow> string \<Rightarrow> string \<Rightarrow> 'x sys \<Rightarrow> 'x sys outcome" where
  "handlePeerNotFound E cli key toPeerId st =
     obind (filterPut E key st) (\<lambda>st1.
       (let resp = setFrom (IsPolling (obj (cw (hb st1)) cli)) toPeerId (emptyResp ''signal'')
        in obind (sendJson E cli resp st1) (\<lambda>(st2, _, _). Ret st2)))"

definition lookupNode :: "('x, 'd) env \<Rightarrow> string \<Rightarrow> 'x sys \<Rightarrow> ('x sys \<times> nref option) outcome" where
  "lookupNode E a st =
     obind (GetNode (eCPU E) (eLocked E) (eDrained E) (eFinished E) a (nh st)) (\<lambda>(n', res). Ret (st\<lparr>nh := n'\<rparr>, res))"

definition sendToNode ::
    "('x, 'd) env \<Rightarrow> nref \<Rightarrow> 'd SignalResp \<Rightarrow> string \<Rightarrow> 'x sys \<Rightarrow> ('x sys \<times> node_err option) outcome" where
  "sendToNode E r resp toPeerId st =
     obind (SendMsgSignal (eMarshal E) (eYielded E) resp toPeerId (nodeAt (nh st) r))
       (\<lambda>(nd, err). Ret (st\<lparr>nh := setNode r nd (nh st)\<rparr>, err))"

definition lookupAddr :: "('x, 'd) env \<Rightarrow> string \<Rightarrow> 'x sys \<Rightarrow> 'x sys \<times> (rerr + string)" where
  "lookupAddr E peerId st =
     (case GetRemotePeerAddr (eApi E) peerId (rds (hb st)) of (s, res) \<Rightarrow> (st\<lparr>hb := (hb st)\<lparr>rds := s\<rparr>\<rparr>, res))"

definition SignalHandle :: "('x, 'd) env \<Rightarrow> 'd SignalMsg \<Rightarrow> cref \<Rightarrow> 'x sys \<Rightarrow> 'x sys outcome" where
  "SignalHandle E msg cli st =
     (let toPeerId = target msg; key = keyForFilter (selfId st cli) toPeerId
      in obind (filterGet E key st) (\<lambda>(st1, hit).
         if hit then Ret st1
         else (let resp = (emptyResp ''signal'')\<lparr>respData := smData msg\<rparr>
               in case GetClient (hb st1) toPeerId of
                    Some r \<Rightarrow>
                      obind (sendJson E r (setFrom (IsPolling (obj (cw (hb st1)) r)) (selfId st1 cli) resp) st1)
                        (\<lambda>(st2, err, fatal).
                           if err \<noteq> None \<and> \<not> fatal then handlePeerNotFound E cli key toPeerId st2 else Ret st2)
                  | None \<Rightarrow>
                      (case lookupAddr E toPeerId st1 of
                         (st2, Inr a) \<Rightarrow>
                           if a = GetSelfAddr (nh st2) then handlePeerNotFound E cli key toPeerId st2
                           else obind (lookupNode E a st2) (\<lambda>(st3, res).
                                  case res of
                                    Some r \<Rightarrow>
                                      obind (sendToNode E r (resp\<lparr>respFromPeerId := selfId st1 cli\<rparr>) toPeerId st3)
                                        (\<lambda>(st4, err). Ret st4)
                                  | None \<Rightarrow> handlePeerNotFound E cli key toPeerId st3)
                       | (st2, Inl err) \<Rightarrow> handlePeerNotFound E cli key toPeerId st2))))"

definition RejectHandle :: "('x, 'd) env \<Rightarrow> 'd SignalMsg \<Rightarrow> cref \<Rightarrow> 'x sys \<Rightarrow> 'x sys outcome" where
  "RejectHandle E msg cli st =
     (let toPeerId = target msg; key = keyForFilter (selfId st cli) toPeerId
      in obind (filterGet E key st) (\<lambda>(st1, hit).
         if hit then Ret st1
         else (let resp = (emptyResp ''reject'')\<lparr>respReason := smReason msg\<rparr>
               in case GetClient (hb st1) toPeerId of
                    Some r \<Rightarrow>
                      obind (sendJson E r (setFrom (IsPolling (obj (cw (hb st1)) r)) (selfId st1 cli) resp) st1)
                        (\<lambda>(st2, err, fatal). filterPut E key st2)
                  | None \<Rightarrow>
                      (case lookupAddr E toPeerId st1 of
                         (st2, Inr a) \<Rightarrow>
                           if a = GetSelfAddr (nh st2) then Ret st2
                           else obind (lookupNode E a st2) (\<lambda>(st3, res).
                                  case res of
                                    Some r \<Rightarrow>
                                      obind (sendToNode E r (resp\<lparr>respFromPeerId := selfId st1 cli\<rparr>) toPeerId st3)
                                        (\<lambda>(st4, err). if err \<noteq> None then Ret st4 else filterPut E key st4)
                                  | None \<Rightarrow> Ret st3)
                       | (st2, Inl err) \<Rightarrow> Ret st2))))"

definition HeartbeatHandle :: "('x, 'd) env \<Rightarrow> cref \<Rightarrow> 'x sys \<Rightarrow> 'x sys outcome" where
  "HeartbeatHandle E cli st =
     (let st1 = st\<lparr>hb := (hb st)\<lparr>cw := UpdateTs (eUnix E) cli (cw (hb st))\<rparr>\<rparr>
      in obind (sendJson E cli (emptyResp ''pong'') st1) (\<lambda>(st2, _, _).
           Ret (st2\<lparr>hb := (hb st2)\<lparr>rds := fst (UpdateLocalPeerExpiration (eApi E) (selfId st2 cli) (rds (hb st2)))\<rparr>\<rparr>)))"

definition ExceptionHandle :: "('x, 'd) env \<Rightarrow> cref \<Rightarrow> 'x sys \<Rightarrow> 'x sys outcome" where
  "ExceptionHandle E cli st = Ret (st\<lparr>hb := (hb st)\<lparr>cw := UpdateTs (eUnix E) cli (cw (hb st))\<rparr>\<rparr>)"

fun Handle :: "('x, 'd) env \<Rightarrow> 'd handler \<Rightarrow> 'x sys \<Rightarrow> 'x sys outcome" where
  "Handle E (SignalHandler msg cli) st = SignalHandle E msg cli st"
| "Handle E (HeartbeatHandler cli) st = HeartbeatHandle E cli st"
| "Handle E (RejectHandler msg cli) st = RejectHandle E msg cli st"
| "Handle E (ExceptionHandler msg cli) st = ExceptionHandle E cli st"

text \<open>
  The objects that \<open>signalMsgPool\<close> recycles are overwritten before use and given back when the
  handler ends, so a handler is a value here.
\<close>

definition NewHandlerMsg :: "'d SignalMsg \<Rightarrow> cref \<Rightarrow> 'd handler" where
  "NewHandlerMsg signal cli =
     (if smAction signal = ''signal'' then SignalHandler signal cli
      else if smAction signal = ''ping'' then HeartbeatHandler cli
      else if smAction signal = ''reject'' then RejectHandler signal cli
      else ExceptionHandler signal cli)"

definition NewHandler :: "(bytes \<Rightarrow> string + 'd SignalMsg) \<Rightarrow> bytes \<Rightarrow> cref \<Rightarrow> string + 'd handler" where
  "NewHandler unmarshal message cli =
     (case unmarshal message of Inl err \<Rightarrow> Inl err | Inr signal \<Rightarrow> Inr (NewHandlerMsg signal cli))"

definition NewPostHandler :: "(bytes \<Rightarrow> string + 'd SignalMsg list) \<Rightarrow> bytes \<Rightarrow> cref \<Rightarrow> string + 'd handler list" where
  "NewPostHandler unmarshal message cli =
     (case unmarshal message of
        Inl err \<Rightarrow> Inl err
      | Inr signals \<Rightarrow> Inr (map (\<lambda>signal. NewHandlerMsg signal cli) signals))"

section \<open>The handlers are safe\<close>

definition sys_ok :: "'x sys \<Rightarrow> bool" where
  "sys_ok st \<longleftrightarrow> hub_ok (hb st) \<and> Cache_ok (filt st) \<and> nodehub_ok (nh st)"

text \<open>
  What the theorems assume of the goroutines that run while a handler waits: waiting in \<open>SafeStop\<close>
  ends with an empty queue and does not stop the aggregator, yielding does not close its channels,
  and what other goroutines do to the hub of nodes during a lookup keeps the hub well formed.
\<close>

definition env_ok :: "('x, 'd) env \<Rightarrow> bool" where
  "env_ok E \<longleftrightarrow> (\<forall>g. safeStopLook (eDrained E g) \<and> quitClosed (eDrained E g) = quitClosed g) \<and>
     (\<forall>g. chclosed (eventQueue (eYielded E g)) = chclosed (eventQueue g) \<and> quitClosed (eYielded E g) = quitClosed g) \<and>
     (\<forall>h. nodehub_ok h \<longrightarrow> nodehub_ok (eLocked E h))"

abbreviation valid :: "'x sys \<Rightarrow> cref \<Rightarrow> bool" where
  "valid st r \<equiv> r < length (heap (cw (hb st)))"

lemma sendJson_spec:
  assumes ok: "sys_ok st" and r: "valid st r"
  obtains st' err fatal where "sendJson E r resp st = Ret (st', err, fatal)" "sys_ok st'"
    "st' = st\<lparr>hb := (hb st)\<lparr>cw := cw (hb st')\<rparr>\<rparr>" "pool (cw (hb st')) = pool (cw (hb st))"
    "length (heap (cw (hb st'))) = length (heap (cw (hb st)))"
    "\<And>s. s \<noteq> r \<Longrightarrow> obj (cw (hb st')) s = obj (cw (hb st)) s"
    "\<And>s. PeerId (obj (cw (hb st')) s) = PeerId (obj (cw (hb st)) s)"
    "\<And>b. eMarshal E resp = Inr b \<Longrightarrow> IsPolling (obj (cw (hb st)) r) \<Longrightarrow> \<not> fatal \<and>
      (if length (queue (cw (hb st)) r) < POLLING_QUEUE_SIZE
       then err = None \<and> queue (cw (hb st')) r = queue (cw (hb st)) r @ [b] else err \<noteq> None)"
    "\<And>s. IsPolling (obj (cw (hb st')) s) = IsPolling (obj (cw (hb st)) s)"
proof (cases "eMarshal E resp")
  case (Inl e)
  show thesis
    by (rule that [of st "Some e" False]) (use Inl ok in \<open>auto simp: sendJson_def SendJsonToClient_def\<close>)
next
  case (Inr b)
  have h: "hub_ok (hb st)" using ok by (simp add: sys_ok_def)
  show thesis
  proof (rule SendMessage_hub [OF h r, of "eWs E" b])
    fix w err fatal
    assume s: "SendMessage (eWs E) r b (cw (hb st)) = Ret (w, err, fatal)" "hub_ok ((hb st)\<lparr>cw := w\<rparr>)"
      "pool w = pool (cw (hb st))" "length (heap w) = length (heap (cw (hb st)))"
      "\<And>s. s \<noteq> r \<Longrightarrow> obj w s = obj (cw (hb st)) s" "obj w r = (obj (cw (hb st)) r)\<lparr>MsgQueue := MsgQueue (obj w r)\<rparr>"
      "IsPolling (obj (cw (hb st)) r) \<Longrightarrow> \<not> fatal \<and> (if length (queue (cw (hb st)) r) < POLLING_QUEUE_SIZE
        then err = None \<and> queue w r = queue (cw (hb st)) r @ [b] else err \<noteq> None)"
    have id: "PeerId (obj w q) = PeerId (obj (cw (hb st)) q)" for q
      using s(5) [of q] arg_cong [OF s(6), of PeerId] by (cases "q = r") auto
    have pol: "IsPolling (obj w q) = IsPolling (obj (cw (hb st)) q)" for q
      using s(5) [of q] arg_cong [OF s(6), of IsPolling] by (cases "q = r") auto
    have "sendJson E r resp st = Ret (st\<lparr>hb := (hb st)\<lparr>cw := w\<rparr>\<rparr>, err, fatal)"
      using Inr s(1) by (simp add: sendJson_def SendJsonToClient_def)
    then show thesis
      by (rule that) (use Inr s id pol ok in \<open>auto simp: sys_ok_def\<close>)
  qed
qed

lemma filterPut_spec:
  assumes "sys_ok st"
  obtains F where "filterPut E key st = Ret (st\<lparr>filt := F\<rparr>)" "sys_ok (st\<lparr>filt := F\<rparr>)"
    "\<exists>evs. Put (eNow E) key () (filt st) = Inr (F, evs)"
  using Put_ok [of "filt st" "eNow E" key "()"] assms by (auto simp: sys_ok_def filterPut_def)

lemma filterGet_spec:
  assumes "sys_ok st"
  obtains F hit where "filterGet E key st = Ret (st\<lparr>filt := F\<rparr>, hit)" "sys_ok (st\<lparr>filt := F\<rparr>)"
  using Get_ok [of "filt st" "eNow E" key] assms by (auto simp: sys_ok_def filterGet_def)

text \<open>What a step keeps: the objects, the free list and the ids of the clients.\<close>

definition keeps :: "'x sys \<Rightarrow> 'x sys \<Rightarrow> bool" where
  "keeps st st' \<longleftrightarrow> sys_ok st' \<and> length (heap (cw (hb st'))) = length (heap (cw (hb st))) \<and>
     pool (cw (hb st')) = pool (cw (hb st)) \<and> GetClient (hb st') = GetClient (hb st) \<and>
     (\<forall>r. PeerId (obj (cw (hb st')) r) = PeerId (obj (cw (hb st)) r))"

lemma keeps_refl: "sys_ok st \<Longrightarrow> keeps st st"
  by (simp add: keeps_def)

lemma keeps_trans: "keeps st1 st2 \<Longrightarrow> keeps st2 st3 \<Longrightarrow> keeps st1 st3"
  by (simp add: keeps_def)

lemma keeps_filt: "sys_ok (st\<lparr>filt := F\<rparr>) \<Longrightarrow> keeps st (st\<lparr>filt := F\<rparr>)"
  by (simp add: keeps_def)

lemma sendJson_keeps:
  assumes "sys_ok st" "valid st r"
  shows "\<exists>st' err fatal. sendJson E r resp st = Ret (st', err, fatal) \<and> keeps st st'"
proof (rule sendJson_spec [OF assms, of E resp])
  fix st' err fatal
  assume s: "sendJson E r resp st = Ret (st', err, fatal)" "sys_ok st'"
    "st' = st\<lparr>hb := (hb st)\<lparr>cw := cw (hb st')\<rparr>\<rparr>" "pool (cw (hb st')) = pool (cw (hb st))"
    "length (heap (cw (hb st'))) = length (heap (cw (hb st)))"
    "\<And>s. PeerId (obj (cw (hb st')) s) = PeerId (obj (cw (hb st)) s)"
  have "GetClient (hb st') = GetClient (hb st)" by (subst s(3)) (simp add: GetClient_def [abs_def])
  then show ?thesis using s by (auto simp: keeps_def)
qed

lemma handlePeerNotFound_keeps:
  assumes ok: "sys_ok st" and c: "valid st cli"
  shows "\<exists>st'. handlePeerNotFound E cli key p st = Ret st' \<and> keeps st st'"
proof (rule filterPut_spec [OF ok, of E key])
  fix F assume F: "filterPut E key st = Ret (st\<lparr>filt := F\<rparr>)" "sys_ok (st\<lparr>filt := F\<rparr>)"
  have "valid (st\<lparr>filt := F\<rparr>) cli" using c by simp
  from sendJson_keeps [OF F(2) this, of E "setFrom (IsPolling (obj (cw (hb st)) cli)) p (emptyResp ''signal'')"]
  obtain st' err fatal where "sendJson E cli (setFrom (IsPolling (obj (cw (hb st)) cli)) p (emptyResp ''signal''))
      (st\<lparr>filt := F\<rparr>) = Ret (st', err, fatal)" "keeps (st\<lparr>filt := F\<rparr>) st'"
    by blast
  with keeps_filt [OF F(2)] show ?thesis
    using F(1) by (auto simp: handlePeerNotFound_def Let_def intro: keeps_trans)
qed

lemma lookupAddr_keeps: "sys_ok st \<Longrightarrow> lookupAddr E p st = (st', res) \<Longrightarrow> keeps st st' \<and> nh st' = nh st \<and> filt st' = filt st \<and> cw (hb st') = cw (hb st)"
  by (auto simp: lookupAddr_def keeps_def sys_ok_def GetClient_def [abs_def] split: prod.splits)


lemma lookupNode_keeps:
  assumes E: "env_ok E" and ok: "sys_ok st"
  shows "\<exists>st' res. lookupNode E a st = Ret (st', res) \<and> keeps st st' \<and> (\<forall>r. res = Some r \<longrightarrow> gm_get (nodes (nh st')) a = Some r)"
proof -
  have n: "nodehub_ok (nh st)" "nodehub_ok (eLocked E (nh st))" and
      fin: "safeStopLook (eDrained E g)" "quitClosed (eDrained E g) = quitClosed g" for g
    using ok E by (simp_all add: sys_ok_def env_ok_def)
  let ?get = "GetNode (eCPU E) (eLocked E) (eDrained E) (eFinished E) a (nh st)"
  have "\<exists>h' res. ?get = Ret (h', res) \<and> nodehub_ok h' \<and> (\<forall>r. res = Some r \<longrightarrow> gm_get (nodes h') a = Some r)"
  proof (cases "gm_get (nodes (nh st)) a")
    case None
    then show ?thesis using GetNode_contended [where h = "nh st" and locked = "eLocked E", OF None n(2)] by fastforce
  next
    case (Some r)
    show ?thesis
    proof (cases "IsDead (nodeAt (nh st) r)")
      case True
      then show ?thesis using GetNode_dead [OF n(1) fin Some True, of "eCPU E" "eLocked E" "eFinished E"] by fastforce
    next
      case False
      then show ?thesis using n Some by (simp add: GetNode_def nhGet_def)
    qed
  qed
  then obtain h' res where "?get = Ret (h', res)" "nodehub_ok h'" "\<forall>r. res = Some r \<longrightarrow> gm_get (nodes h') a = Some r"
    by blast
  then show ?thesis using ok by (simp add: lookupNode_def keeps_def sys_ok_def)
qed

lemma nodehub_ok_setNode:
  assumes ok: "nodehub_ok h" and r: "gm_get (nodes h) a = Some r"
    and nd: "addr nd = addr (nodeAt h r)" "\<not> quitClosed (aggregator nd)" "\<not> chclosed (eventQueue (aggregator nd))"
  shows "nodehub_ok (setNode r nd h)"
proof -
  have "r < length (nheap h)" "addr (nodeAt h r) = a" using ok r by (auto simp: nodehub_ok_def)
  then have at: "nodeAt (setNode r nd h) s = (if s = r then nd else nodeAt h s)" for s
    by (simp add: nodeAt_def setNode_def)
  show ?thesis
    unfolding nodehub_ok_def at using ok nd by (auto simp: nodehub_ok_def setNode_def)
qed

lemma TryEnqueue_open:
  assumes "\<not> chclosed (eventQueue g)" "\<not> quitClosed g"
    "\<And>g. chclosed (eventQueue (y g)) = chclosed (eventQueue g) \<and> quitClosed (y g) = quitClosed g"
  shows "\<exists>g' b. TryEnqueue y x g = Ret (g', b) \<and> \<not> chclosed (eventQueue g') \<and> \<not> quitClosed g'"
  using assms by (auto simp: TryEnqueue_def chan_send_def Let_def)

lemma sendToNode_keeps:
  assumes E: "env_ok E" and ok: "sys_ok st" and r: "gm_get (nodes (nh st)) a = Some r"
  shows "\<exists>st' err. sendToNode E r resp p st = Ret (st', err) \<and> keeps st st' \<and> hb st' = hb st \<and> filt st' = filt st"
proof -
  let ?nd = "nodeAt (nh st) r"
  have o: "\<not> chclosed (eventQueue (aggregator ?nd))" "\<not> quitClosed (aggregator ?nd)" and n: "nodehub_ok (nh st)"
    using ok r by (auto simp: sys_ok_def nodehub_ok_def)
  have y: "chclosed (eventQueue (eYielded E g)) = chclosed (eventQueue g) \<and> quitClosed (eYielded E g) = quitClosed g" for g
    using E by (simp add: env_ok_def)
  have "\<exists>nd' err. SendMsgSignal (eMarshal E) (eYielded E) resp p ?nd = Ret (nd', err) \<and> addr nd' = addr ?nd \<and>
      \<not> quitClosed (aggregator nd') \<and> \<not> chclosed (eventQueue (aggregator nd'))"
  proof (cases "isAlive ?nd \<and> \<not> isl (eMarshal E resp)")
    case False
    then show ?thesis using o by (auto simp: SendMsgSignal_def split: sum.splits)
  next
    case True
    then obtain b where b: "eMarshal E resp = Inr b" by (cases "eMarshal E resp") auto
    obtain g' ok' where "TryEnqueue (eYielded E) \<lparr>ToPeerId = p, reqData = b\<rparr> (aggregator ?nd) = Ret (g', ok')"
        "\<not> chclosed (eventQueue g')" "\<not> quitClosed g'"
      using TryEnqueue_open [OF o y] by blast
    then show ?thesis using True b by (simp add: SendMsgSignal_def)
  qed
  then obtain nd' err where s: "SendMsgSignal (eMarshal E) (eYielded E) resp p ?nd = Ret (nd', err)" "addr nd' = addr ?nd"
      "\<not> quitClosed (aggregator nd')" "\<not> chclosed (eventQueue (aggregator nd'))"
    by blast
  have "nodehub_ok (setNode r nd' (nh st))" by (rule nodehub_ok_setNode [OF n r s(2-4)])
  then show ?thesis using s(1) ok by (simp add: sendToNode_def keeps_def sys_ok_def)
qed

text \<open>The branch of a remote peer, shared by \<open>SignalHandle\<close> and \<open>RejectHandle\<close>.\<close>

lemma remote_branch:
  assumes E: "env_ok E" and ok: "sys_ok st" and c: "valid st cli"
    and found: "\<And>st4 err. keeps st st4 \<Longrightarrow> \<exists>st'. f st4 err = Ret st' \<and> keeps st st'"
    and absent: "\<And>st3. keeps st st3 \<Longrightarrow> \<exists>st'. k st3 = Ret st' \<and> keeps st st'"
  shows "\<exists>st'. obind (lookupNode E a st) (\<lambda>(st3, res). case res of
      Some r \<Rightarrow> obind (sendToNode E r resp p st3) (\<lambda>(st4, err). f st4 err) | None \<Rightarrow> k st3) = Ret st' \<and> keeps st st'"
proof -
  obtain st3 res where l: "lookupNode E a st = Ret (st3, res)" "keeps st st3"
      "\<And>r. res = Some r \<Longrightarrow> gm_get (nodes (nh st3)) a = Some r"
    using lookupNode_keeps [OF E ok, of a] by blast
  show ?thesis
  proof (cases res)
    case None
    then show ?thesis using l absent [OF l(2)] by simp
  next
    case (Some r)
    have "sys_ok st3" using l(2) by (simp add: keeps_def)
    from sendToNode_keeps [OF E this l(3) [OF Some], of resp p] obtain st4 err where
        s: "sendToNode E r resp p st3 = Ret (st4, err)" "keeps st3 st4" by blast
    show ?thesis using l(1) Some s found [OF keeps_trans [OF l(2) s(2)], of err] by simp
  qed
qed


lemma valid_keeps: "keeps st st' \<Longrightarrow> valid st r \<Longrightarrow> valid st' r"
  by (simp add: keeps_def)

lemma keeps_ok: "keeps st st' \<Longrightarrow> sys_ok st'"
  by (simp add: keeps_def)

lemma GetClient_valid: "sys_ok st \<Longrightarrow> GetClient (hb st) p = Some r \<Longrightarrow> valid st r"
  using hub_okD(1) by (auto simp: sys_ok_def)

lemma filterPut_keeps:
  assumes "sys_ok st"
  shows "\<exists>st'. filterPut E key st = Ret st' \<and> keeps st st'"
  by (rule filterPut_spec [OF assms, of E key]) (use keeps_filt in blast)

text \<open>
  \<open>SignalHandle\<close> and \<open>RejectHandle\<close> find the receiver in the same way. They differ in the messages, \<open>own\<close> to a
  client of this node and \<open>away\<close> to one of another node, and in what they do afterwards.
\<close>

definition route ::
    "('x, 'd) env \<Rightarrow> string \<Rightarrow> string \<Rightarrow> ('x sys \<Rightarrow> cref \<Rightarrow> 'd SignalResp) \<Rightarrow> ('x sys \<Rightarrow> string option \<Rightarrow> bool \<Rightarrow> 'x sys outcome) \<Rightarrow>
      ('x sys \<Rightarrow> 'd SignalResp) \<Rightarrow> ('x sys \<Rightarrow> node_err option \<Rightarrow> 'x sys outcome) \<Rightarrow> ('x sys \<Rightarrow> 'x sys outcome) \<Rightarrow>
      'x sys \<Rightarrow> 'x sys outcome" where
  "route E key p own sent away queued absent st =
     obind (filterGet E key st) (\<lambda>(st1, hit).
       if hit then Ret st1
       else case GetClient (hb st1) p of
              Some r \<Rightarrow> obind (sendJson E r (own st1 r) st1) (\<lambda>(st2, err, fatal). sent st2 err fatal)
            | None \<Rightarrow>
                (case lookupAddr E p st1 of
                   (st2, Inr a) \<Rightarrow>
                     if a = GetSelfAddr (nh st2) then absent st2
                     else obind (lookupNode E a st2) (\<lambda>(st3, res). case res of
                            Some r \<Rightarrow> obind (sendToNode E r (away st1) p st3) (\<lambda>(st4, err). queued st4 err)
                          | None \<Rightarrow> absent st3)
                 | (st2, Inl err) \<Rightarrow> absent st2))"

lemma route_keeps:
  assumes E: "env_ok E" and ok: "sys_ok st" and c: "valid st cli"
    and sent: "\<And>st2 err fatal. keeps st st2 \<Longrightarrow> \<exists>st'. sent st2 err fatal = Ret st' \<and> keeps st2 st'"
    and queued: "\<And>st2 err. keeps st st2 \<Longrightarrow> \<exists>st'. queued st2 err = Ret st' \<and> keeps st2 st'"
    and absent: "\<And>st2. keeps st st2 \<Longrightarrow> \<exists>st'. absent st2 = Ret st' \<and> keeps st2 st'"
  shows "\<exists>st'. route E key p own sent away queued absent st = Ret st' \<and> keeps st st'"
proof (rule filterGet_spec [OF ok, of E key])
  fix F hit
  let ?st1 = "st\<lparr>filt := F\<rparr>"
  assume F: "filterGet E key st = Ret (?st1, hit)" "sys_ok ?st1"
  note k1 = keeps_filt [OF F(2)]
  consider "hit" | r where "\<not> hit" "GetClient (hb ?st1) p = Some r" | "\<not> hit" "GetClient (hb ?st1) p = None" by blast
  then show ?thesis
  proof cases
    case (2 r)
    obtain st2 err fatal where s: "sendJson E r (own ?st1 r) ?st1 = Ret (st2, err, fatal)" "keeps ?st1 st2"
      using sendJson_keeps [OF F(2) GetClient_valid [OF F(2) 2(2)]] by blast
    note k2 = keeps_trans [OF k1 s(2)]
    obtain st' where "sent st2 err fatal = Ret st'" "keeps st st'" using sent [OF k2] keeps_trans [OF k2] by blast
    then show ?thesis using F(1) 2 s(1) by (simp add: route_def)
  next
    case 3
    obtain st2 res where l: "lookupAddr E p ?st1 = (st2, res)" by fastforce
    have k2: "keeps st st2" using lookupAddr_keeps [OF F(2) l] keeps_trans [OF k1] by blast
    have "\<exists>st'. obind (lookupNode E a st2) (\<lambda>(st3, res). case res of
        Some r \<Rightarrow> obind (sendToNode E r (away ?st1) p st3) (\<lambda>(st4, err). queued st4 err)
      | None \<Rightarrow> absent st3) = Ret st' \<and> keeps st2 st'" for a
      by (rule remote_branch [OF E keeps_ok [OF k2] valid_keeps [OF k2 c]])
        (use queued absent keeps_trans [OF k2] keeps_trans in blast)+
    then show ?thesis
      using F(1) 3 l absent [OF k2] keeps_trans [OF k2] by (cases res) (fastforce simp: route_def)+
  qed (use F(1) k1 in \<open>simp add: route_def\<close>)
qed

lemma SignalHandle_keeps:
  assumes E: "env_ok E" and ok: "sys_ok st" and c: "valid st cli"
  shows "\<exists>st'. SignalHandle E msg cli st = Ret st' \<and> keeps st st'"
proof -
  let ?key = "keyForFilter (selfId st cli) (target msg)" and ?resp = "(emptyResp ''signal'')\<lparr>respData := smData msg\<rparr>"
  have nf: "\<exists>st'. handlePeerNotFound E cli ?key (target msg) st2 = Ret st' \<and> keeps st2 st'" if "keeps st st2" for st2
    by (rule handlePeerNotFound_keeps [OF keeps_ok [OF that] valid_keeps [OF that c]])
  have eq: "SignalHandle E msg cli st = route E ?key (target msg)
      (\<lambda>st1 r. setFrom (IsPolling (obj (cw (hb st1)) r)) (selfId st1 cli) ?resp)
      (\<lambda>st2 err fatal. if err \<noteq> None \<and> \<not> fatal then handlePeerNotFound E cli ?key (target msg) st2 else Ret st2)
      (\<lambda>st1. ?resp\<lparr>respFromPeerId := selfId st1 cli\<rparr>) (\<lambda>st4 err. Ret st4) (handlePeerNotFound E cli ?key (target msg)) st"
    unfolding SignalHandle_def route_def Let_def ..
  show ?thesis unfolding eq by (rule route_keeps [OF E ok c]) (auto intro: nf keeps_refl [OF keeps_ok])
qed

lemma RejectHandle_keeps:
  assumes E: "env_ok E" and ok: "sys_ok st" and c: "valid st cli"
  shows "\<exists>st'. RejectHandle E msg cli st = Ret st' \<and> keeps st st'"
proof -
  let ?key = "keyForFilter (selfId st cli) (target msg)" and ?resp = "(emptyResp ''reject'')\<lparr>respReason := smReason msg\<rparr>"
  have eq: "RejectHandle E msg cli st = route E ?key (target msg)
      (\<lambda>st1 r. setFrom (IsPolling (obj (cw (hb st1)) r)) (selfId st1 cli) ?resp) (\<lambda>st2 err fatal. filterPut E ?key st2)
      (\<lambda>st1. ?resp\<lparr>respFromPeerId := selfId st1 cli\<rparr>) (\<lambda>st4 err. if err \<noteq> None then Ret st4 else filterPut E ?key st4) Ret st"
    unfolding RejectHandle_def route_def Let_def ..
  show ?thesis unfolding eq by (rule route_keeps [OF E ok c]) (auto intro: filterPut_keeps [OF keeps_ok] keeps_refl [OF keeps_ok])
qed

lemma UpdateTs_keeps:
  assumes ok: "sys_ok st" and c: "valid st cli"
  shows "keeps st (st\<lparr>hb := (hb st)\<lparr>cw := UpdateTs t cli (cw (hb st))\<rparr>\<rparr>)"
proof -
  have w: "cworld_ok (cw (hb st))" and h: "hub_ok (hb st)" using ok by (auto simp: sys_ok_def hub_ok_def)
  have "client_ok ((obj (cw (hb st)) cli)\<lparr>Timestamp := t\<rparr>)"
    using cworld_ok_obj [OF w c] by (simp add: client_ok_def)
  then have "cworld_ok (UpdateTs t cli (cw (hb st)))" unfolding UpdateTs_def by (rule cworld_ok_setObj [OF w])
  moreover have "PeerId (obj (UpdateTs t cli (cw (hb st))) r) = PeerId (obj (cw (hb st)) r)" for r
    using c by (simp add: UpdateTs_def obj_setObj)
  ultimately have "hub_ok ((hb st)\<lparr>cw := UpdateTs t cli (cw (hb st))\<rparr>)"
    by (intro hub_ok_cw [OF h]) (simp_all add: UpdateTs_def)
  then show ?thesis
    using ok c by (simp add: keeps_def sys_ok_def GetClient_def [abs_def] UpdateTs_def obj_setObj)
qed

lemma HeartbeatHandle_keeps:
  assumes ok: "sys_ok st" and c: "valid st cli"
  shows "\<exists>st'. HeartbeatHandle E cli st = Ret st' \<and> keeps st st'"
proof -
  let ?st1 = "st\<lparr>hb := (hb st)\<lparr>cw := UpdateTs (eUnix E) cli (cw (hb st))\<rparr>\<rparr>"
  note k1 = UpdateTs_keeps [OF ok c, of "eUnix E"]
  obtain st2 err fatal where s: "sendJson E cli (emptyResp ''pong'') ?st1 = Ret (st2, err, fatal)" "keeps ?st1 st2"
    using sendJson_keeps [OF keeps_ok [OF k1] valid_keeps [OF k1 c]] by blast
  have "keeps st2 (st2\<lparr>hb := (hb st2)\<lparr>rds := s\<rparr>\<rparr>)" for s
    using keeps_ok [OF s(2)] by (simp add: keeps_def sys_ok_def GetClient_def [abs_def])
  then show ?thesis
    using s keeps_trans [OF keeps_trans [OF k1 s(2)]] by (auto simp: HeartbeatHandle_def Let_def)
qed

lemma Handle_keeps:
  assumes "env_ok E" and "sys_ok st" and "valid st cli"
  shows "\<exists>st'. Handle E (NewHandlerMsg signal cli) st = Ret st' \<and> keeps st st'"
  using SignalHandle_keeps [OF assms] RejectHandle_keeps [OF assms] HeartbeatHandle_keeps [OF assms(2,3)]
    UpdateTs_keeps [OF assms(2,3)] by (auto simp: NewHandlerMsg_def ExceptionHandle_def)


definition demoEnv :: "(mem_store, string) env" where
  "demoEnv = \<lparr>eWs = quietEnv, eApi = memRedis, eMarshal = \<lambda>r. Inr (respFrom r @ '':'' @ respFromPeerId r),
     eNow = 1000, eUnix = 200, eCPU = 4, eLocked = id, eDrained = drainAll, eFinished = id, eYielded = id\<rparr>"

definition demoSys :: "mem_store sys" where
  "demoSys = \<lparr>hb = demoHub, filt = newFilter, nh = NewNodeHub ''n1''\<rparr>"

lemma demoEnv_ok: "env_ok demoEnv"
  by (simp add: env_ok_def demoEnv_def drainAll_ok)

lemma newFilter_ok: "Cache_ok newFilter" "plain newFilter" "expiration newFilter = 0"
proof -
  show "Cache_ok newFilter" unfolding newFilter_def by (rule NewLRUCache_spec [THEN conjunct1]) simp_all
  show "plain newFilter" by (simp add: newFilter_def plain_New)
  show "expiration newFilter = 0" by (simp add: newFilter_def NewLRUCache_def Let_def)
qed

lemma demoSys_ok: "sys_ok demoSys"
  by (simp add: sys_ok_def demoSys_def demoHub_facts newFilter_ok nodehub_ok_def NewNodeHub_def gm_ok_empty gm_get_empty)

lemma demoSys_simps: "cw (hb demoSys) = demoWorld" "hb demoSys = demoHub" "filt demoSys = newFilter"
  by (simp_all add: demoSys_def demoHub_facts)

definition demoMsg :: "string SignalMsg" where
  "demoMsg = \<lparr>smAction = ''signal'', smToPeerId = ''peer-a'', smTo = [], smData = Some ''sdp'', smReason = []\<rparr>"


section \<open>Where a signal goes\<close>

text \<open>
  A signal to a peer on the same node arrives: if the pair is not filtered and the receiver polls
  and has room, the encoded signal, with the sender's id as its origin, is appended to the receiver's
  queue; no other client, no node and nothing in Redis is touched.
\<close>

lemma local_signal_delivered:
  assumes ok: "sys_ok st" and miss: "filterGet E (keyForFilter (selfId st cli) (target msg)) st = Ret (st1, False)"
    and r: "GetClient (hb st) (target msg) = Some r" and poll: "IsPolling (obj (cw (hb st)) r)"
    and room: "length (queue (cw (hb st)) r) < POLLING_QUEUE_SIZE"
    and enc: "eMarshal E ((emptyResp ''signal'')\<lparr>respData := smData msg, respFrom := selfId st cli\<rparr>) = Inr b"
  shows "\<exists>st'. SignalHandle E msg cli st = Ret st' \<and> queue (cw (hb st')) r = queue (cw (hb st)) r @ [b] \<and>
    (\<forall>s. s \<noteq> r \<longrightarrow> obj (cw (hb st')) s = obj (cw (hb st)) s) \<and> nh st' = nh st \<and> rds (hb st') = rds (hb st) \<and>
    (\<forall>s. IsPolling (obj (cw (hb st')) s) = IsPolling (obj (cw (hb st)) s))"
proof (rule filterGet_spec [OF ok, of E "keyForFilter (selfId st cli) (target msg)"])
  fix F hit
  assume F: "filterGet E (keyForFilter (selfId st cli) (target msg)) st = Ret (st\<lparr>filt := F\<rparr>, hit)" "sys_ok (st\<lparr>filt := F\<rparr>)"
  then have hit: "\<not> hit" using miss by simp
  have v: "valid (st\<lparr>filt := F\<rparr>) r" using GetClient_valid [OF ok r] by simp
  define resp where "resp = setFrom True (selfId st cli) ((emptyResp ''signal'')\<lparr>respData := smData msg\<rparr>)"
  have "eMarshal E resp = Inr b" using enc by (simp add: resp_def setFrom_def emptyResp_def)
  show ?thesis
  proof (rule sendJson_spec [OF F(2) v, of E resp])
    fix st' err fatal
    assume s: "sendJson E r resp (st\<lparr>filt := F\<rparr>) = Ret (st', err, fatal)"
      "st' = (st\<lparr>filt := F\<rparr>)\<lparr>hb := (hb (st\<lparr>filt := F\<rparr>))\<lparr>cw := cw (hb st')\<rparr>\<rparr>"
      "\<And>s. s \<noteq> r \<Longrightarrow> obj (cw (hb st')) s = obj (cw (hb (st\<lparr>filt := F\<rparr>))) s"
      "\<And>b. eMarshal E resp = Inr b \<Longrightarrow> IsPolling (obj (cw (hb (st\<lparr>filt := F\<rparr>))) r) \<Longrightarrow> \<not> fatal \<and>
        (if length (queue (cw (hb (st\<lparr>filt := F\<rparr>))) r) < POLLING_QUEUE_SIZE
         then err = None \<and> queue (cw (hb st')) r = queue (cw (hb (st\<lparr>filt := F\<rparr>))) r @ [b] else err \<noteq> None)"
      "\<And>s. IsPolling (obj (cw (hb st')) s) = IsPolling (obj (cw (hb (st\<lparr>filt := F\<rparr>))) s)"
    have q: "err = None" "queue (cw (hb st')) r = queue (cw (hb st)) r @ [b]"
      using s(4) [OF \<open>eMarshal E resp = Inr b\<close>] poll room by auto
    have "nh st' = nh st" "rds (hb st') = rds (hb st)" by (subst s(2); simp)+
    moreover have "SignalHandle E msg cli st = Ret st'"
      using F(1) hit r poll s(1) q(1) by (simp add: SignalHandle_def Let_def resp_def selfId_def)
    ultimately show ?thesis using q(2) s(3,5) by auto
  qed
qed

lemma filter_new_misses:
  assumes "filt st = newFilter" shows "\<exists>st1. filterGet E key st = Ret (st1, False)"
proof -
  let ?C = "newFilter"
  have "represents (create 300 :: unit cache) []" by (rule create_represents) simp
  then have d: "dead key (create 300 :: unit cache)" by (auto simp: dead_def create_def intro!: exI [of _ "[]"])
  have "bucketOf ?C key < length (insts ?C)" by (rule bucketOf_less [OF newFilter_ok(1)])
  then have "insts ?C ! bucketOf ?C key = (create 300, None)"
    by (simp add: newFilter_def NewLRUCache_def Let_def)
  then have "deadBucket key (insts ?C ! bucketOf ?C key)" using d by (simp add: deadBucket_def)
  from getBucket_dead [OF this, of "eNow E" 0] obtain lv where
    "getBucket (eNow E) 0 key (insts ?C ! bucketOf ?C key) = Inr (lv, None, [])" by blast
  then have "Get (eNow E) key ?C = Inr (?C\<lparr>insts := (insts ?C)[bucketOf ?C key := lv]\<rparr>, None)"
    using bucketOf_less [OF newFilter_ok(1), of key] newFilter_ok(3) by (simp add: Get_def cacheGet_def Let_def not_le)
  then show ?thesis using assms by (simp add: filterGet_def)
qed

lemma demo_local:
  "GetClient (hb demoSys) (target demoMsg) = Some 0" "IsPolling (obj (cw (hb demoSys)) 0)"
  "queue (cw (hb demoSys)) 0 = []" "target demoMsg = ''peer-a''"
  "eMarshal demoEnv ((emptyResp ''signal'')\<lparr>respData := smData demoMsg, respFrom := selfId demoSys 1\<rparr>) = Inr ''peer-b:''"
  by (simp_all add: demoSys_simps demoHub_facts demoWorld_simps demoMsg_def target_def demoEnv_def emptyResp_def selfId_def)

lemma filter_hit:
  assumes C: "Cache_ok C" "plain C" "expiration C = 0" and now: "0 < now" "in_i64 now"
    and p: "Put now key v C = Inr (C1, evs)"
  shows "\<exists>C2. Get now' key C1 = Inr (C2, Some v)"
proof -
  have "0 < i64 (now + expiration C)" using now C(3) by (simp add: i64_id)
  from cachePut_cacheGet [OF C(1) this, of key "Some v" "[]" now'] show ?thesis
    using p C(3) by (auto simp: Put_def Get_def)
qed




text \<open>
  A signal to a peer on another node is queued for that node: if the pair is not filtered, the
  receiver is not a local client, the directory names another node that is known and alive, and the
  node's queue has room, then exactly the encoded signal with the sender's id is appended to the
  queue of that node's aggregator, addressed to the receiver, and no client is touched.
\<close>

lemma remote_signal_queued:
  assumes miss: "filterGet E (keyForFilter (selfId st cli) (target msg)) st = Ret (st\<lparr>filt := F\<rparr>, False)"
    and gone: "GetClient (hb st) (target msg) = None"
    and dir: "GetRemotePeerAddr (eApi E) (target msg) (rds (hb st)) = (s, Inr a)" "a \<noteq> selfAddr (nh st)"
    and nd: "gm_get (nodes (nh st)) a = Some r" "r < length (nheap (nh st))" "\<not> IsDead (nodeAt (nh st) r)" "isAlive (nodeAt (nh st) r)"
    and room: "chan_send \<lparr>ToPeerId = target msg, reqData = b\<rparr> (eventQueue (aggregator (nodeAt (nh st) r))) = Sent q"
    and enc: "eMarshal E ((emptyResp ''signal'')\<lparr>respData := smData msg, respFromPeerId := selfId st cli\<rparr>) = Inr b"
  shows "\<exists>st'. SignalHandle E msg cli st = Ret st' \<and> cw (hb st') = cw (hb st) \<and>
    aggregator (nodeAt (nh st') r) = (aggregator (nodeAt (nh st) r))\<lparr>eventQueue := q\<rparr>"
proof -
  let ?nd = "nodeAt (nh st) r"
  let ?st2 = "(st\<lparr>filt := F\<rparr>)\<lparr>hb := (hb st)\<lparr>rds := s\<rparr>\<rparr>"
  let ?resp = "(emptyResp ''signal'')\<lparr>respData := smData msg, respFromPeerId := selfId st cli\<rparr>"
  have l: "lookupAddr E (target msg) (st\<lparr>filt := F\<rparr>) = (?st2, Inr a)" using dir by (simp add: lookupAddr_def)
  have n: "lookupNode E a ?st2 = Ret (?st2, Some r)"
    using nd by (simp add: lookupNode_def GetNode_def nhGet_def)
  have "SendMsgSignal (eMarshal E) (eYielded E) ?resp (target msg) ?nd
      = Ret (?nd\<lparr>aggregator := (aggregator ?nd)\<lparr>eventQueue := q\<rparr>\<rparr>, None)"
    using nd(4) enc room by (simp add: SendMsgSignal_def TryEnqueue_def)
  then have "sendToNode E r ?resp (target msg) ?st2 =
      Ret (?st2\<lparr>nh := setNode r (?nd\<lparr>aggregator := (aggregator ?nd)\<lparr>eventQueue := q\<rparr>\<rparr>) (nh st)\<rparr>, None)"
    by (simp add: sendToNode_def)
  then show ?thesis
    using miss gone l n dir(2) nd(2)
    by (simp add: SignalHandle_def Let_def GetSelfAddr_def selfId_def) (simp add: nodeAt_def setNode_def)
qed

definition remoteSys :: "mem_store sys" where
  "remoteSys = demoSys\<lparr>nh := \<lparr>nodes = [(''n2'', 0)], nheap = [NewNode 4 ''n2''], selfAddr = ''n1''\<rparr>,
     hb := demoHub\<lparr>rds := (emptyStore ''n1'')\<lparr>ext := (ext (emptyStore ''n1''))\<lparr>mcache := [''peer-z'' \<mapsto> ''n2'']\<rparr>\<rparr>\<rparr>\<rparr>"

lemma remoteSys_gone: "GetClient (hb remoteSys) ''peer-z'' = None"
proof -
  let ?h0 = "(InitHub (emptyStore ''n1''))\<lparr>cw := demoWorld\<rparr>"
  have "GetClient demoHub ''peer-z'' = None"
    using DoRegister_spec(1,2) [OF demoHub_base, of 0 memRedis] DoRegister_spec(3) [OF demoHub_base, of 0 memRedis]
      DoRegister_spec(2) [of "DoRegister memRedis 0 ?h0" 1 memRedis]
    by (simp add: demoHub_def demoWorld_simps) (simp add: GetClient_def InitHub_def cm.get_empty)
  then show ?thesis by (simp add: remoteSys_def GetClient_def)
qed

lemma remoteSys_miss:
  obtains F where "filterGet demoEnv key remoteSys = Ret (remoteSys\<lparr>filt := F\<rparr>, False)"
proof -
  have "filt remoteSys = newFilter" by (simp add: remoteSys_def demoSys_def)
  then obtain st1 where "filterGet demoEnv key remoteSys = Ret (st1, False)" using filter_new_misses by blast
  then show thesis using that by (auto simp: filterGet_def obind_Ret_iff)
qed

lemma remoteSys_facts:
  "GetRemotePeerAddr (eApi demoEnv) ''peer-z'' (rds (hb remoteSys)) = (rds (hb remoteSys), Inr ''n2'')"
  "selfAddr (nh remoteSys) = ''n1''" "gm_get (nodes (nh remoteSys)) ''n2'' = Some 0" "length (nheap (nh remoteSys)) = 1"
  "\<not> IsDead (nodeAt (nh remoteSys) 0)" "isAlive (nodeAt (nh remoteSys) 0)"
  "chbuf (eventQueue (aggregator (nodeAt (nh remoteSys) 0))) = []" "\<not> chclosed (eventQueue (aggregator (nodeAt (nh remoteSys) 0)))"
  "0 < chcap (eventQueue (aggregator (nodeAt (nh remoteSys) 0)))"
  "eMarshal demoEnv ((emptyResp ''signal'')\<lparr>respData := smData demoMsg, respFromPeerId := selfId remoteSys 0\<rparr>) = Inr '':peer-a''"
  by (simp_all add: remoteSys_def demoEnv_def GetRemotePeerAddr_def memRedis_def emptyStore_def nodeAt_def
      NewNode_open gm_get_def NewNode_def Start_def NewAggregator_def Let_def make_chan_def MAX_PIPE_LEN_def
      emptyResp_def selfId_def demoHub_facts demoWorld_simps)

end
