(* ===== verification/GoPool.thy ===== *)
theory GoPool
  imports Prelude Runs "HOL-Library.Multiset"
begin

text \<open>
  The goroutine pool of \<open>src/util/gopool/gopool.go\<close> as a transition system. The channel \<open>sem\<close> counts
  the workers, the channel \<open>work\<close> holds the tasks that wait for one; a worker runs the task it was
  started with and then the tasks it receives. A \<open>select\<close> takes any of its cases that is ready, so a
  step is chosen by a label. A send on \<open>work\<close> is ready when there is room in the buffer or a worker
  waits for a task.

  The theorems say that no task is lost or run twice, that there are never more workers than the
  size of the pool, and that scheduling can go on as soon as one running task ends.
\<close>

section \<open>State and steps\<close>

text \<open>A worker runs a task, where \<open>None\<close> is the empty function it is spawned with, or waits.\<close>

datatype 'a wstate = Busy "'a option" | Idle

record 'a pool =
  psize :: nat
  psem :: nat
  pcap :: nat
  pwork :: "'a list"
  pworkers :: "'a wstate list"
  paccepted :: "'a list"
  pdone :: "'a list"

definition NewPool :: "int \<Rightarrow> int \<Rightarrow> int \<Rightarrow> 'a pool res" where
  "NewPool sz queue spawn =
     (if spawn \<le> 0 \<and> 0 < queue then Inl (PanicValue ''dead queue configuration detected'')
      else if sz < spawn then Inl (PanicValue ''spawn > workers'')
      else if sz < 0 \<or> queue < 0 then Inl (PanicValue ''makechan: size out of range'')
      else Inr \<lparr>psize = nat sz, psem = nat spawn, pcap = nat queue, pwork = [],
             pworkers = replicate (nat spawn) (Busy None), paccepted = [], pdone = []\<rparr>)"

datatype 'a plabel =
    SchedTimeout 'a
  | SchedQueue 'a
  | SchedHand 'a nat
  | SchedSpawn 'a
  | WorkerDone nat
  | WorkerTake nat

text \<open>
  The cases of the \<open>select\<close> in \<open>schedule\<close>, and the two moves of the method \<open>worker\<close>. \<open>Schedule\<close> has no timeout; the
  label \<open>SchedTimeout\<close> belongs to \<open>ScheduleTimeout\<close>, whose call then returns the error.
\<close>

fun schedule :: "'a plabel \<Rightarrow> 'a pool \<Rightarrow> 'a pool option" where
  "schedule (SchedTimeout t) p = Some p"
| "schedule (SchedQueue t) p =
     (if length (pwork p) < pcap p then Some (p\<lparr>pwork := pwork p @ [t], paccepted := paccepted p @ [t]\<rparr>) else None)"
| "schedule (SchedHand t i) p =
     (if i < length (pworkers p) \<and> pworkers p ! i = Idle \<and> pwork p = []
      then Some (p\<lparr>pworkers := (pworkers p)[i := Busy (Some t)], paccepted := paccepted p @ [t]\<rparr>) else None)"
| "schedule (SchedSpawn t) p =
     (if psem p < psize p
      then Some (p\<lparr>psem := psem p + 1, pworkers := pworkers p @ [Busy (Some t)], paccepted := paccepted p @ [t]\<rparr>)
      else None)"
| "schedule _ p = None"

text \<open>
  The two exported ways to schedule. The channel that \<open>Schedule\<close> passes is \<open>nil\<close> and is never ready;
  the one of \<open>ScheduleTimeout\<close> is ready once its timer has \<open>fired\<close>, and only then can the call end
  with the error.
\<close>

datatype sched_error = ErrScheduleTimeout

fun Schedule :: "'a plabel \<Rightarrow> 'a pool \<Rightarrow> 'a pool option" where
  "Schedule (SchedTimeout t) p = None"
| "Schedule l p = schedule l p"

fun ScheduleTimeout :: "bool \<Rightarrow> 'a plabel \<Rightarrow> 'a pool \<Rightarrow> ('a pool \<times> sched_error option) option" where
  "ScheduleTimeout fired (SchedTimeout t) p = (if fired then Some (p, Some ErrScheduleTimeout) else None)"
| "ScheduleTimeout fired l p = map_option (\<lambda>q. (q, None)) (schedule l p)"

definition taskList :: "'a option \<Rightarrow> 'a list" where
  "taskList x = (case x of None \<Rightarrow> [] | Some t \<Rightarrow> [t])"

fun poolWorker :: "'a plabel \<Rightarrow> 'a pool \<Rightarrow> 'a pool option" where
  "poolWorker (WorkerDone i) p =
     (if i < length (pworkers p) then
        (case pworkers p ! i of
           Busy x \<Rightarrow> Some (p\<lparr>pworkers := (pworkers p)[i := Idle], pdone := pdone p @ taskList x\<rparr>)
         | Idle \<Rightarrow> None)
      else None)"
| "poolWorker (WorkerTake i) p =
     (if i < length (pworkers p) \<and> pworkers p ! i = Idle then
        (case pwork p of
           t # ts \<Rightarrow> Some (p\<lparr>pwork := ts, pworkers := (pworkers p)[i := Busy (Some t)]\<rparr>)
         | [] \<Rightarrow> None)
      else None)"
| "poolWorker _ p = None"

definition pstep :: "'a plabel \<Rightarrow> 'a pool \<Rightarrow> 'a pool option" where
  "pstep l p = (case schedule l p of Some p1 \<Rightarrow> Some p1 | None \<Rightarrow> poolWorker l p)"

abbreviation prun :: "'a pool \<Rightarrow> 'a plabel list \<Rightarrow> 'a pool \<Rightarrow> bool" where
  "prun \<equiv> trace (\<lambda>p l q. pstep l p = Some q)"

text \<open>
  An error of \<open>ScheduleTimeout\<close> means that the timer fired and that the pool is as it was; without an
  error the task was accepted, the same way as by \<open>Schedule\<close>.
\<close>

lemma ScheduleTimeout_result:
  assumes "ScheduleTimeout fired l p = Some (q, e)"
  shows "e = Some ErrScheduleTimeout \<longleftrightarrow> Schedule l p = None"
    and "e \<noteq> None \<Longrightarrow> fired \<and> q = p"
    and "e = None \<Longrightarrow> Schedule l p = Some q \<and> length (paccepted q) = Suc (length (paccepted p))"
  using assms by (cases l; auto split: if_splits)+

lemma Schedule_pstep: "Schedule l p = Some q \<Longrightarrow> pstep l p = Some q"
  by (cases l) (simp_all add: pstep_def)

section \<open>The invariant\<close>

definition runningOf :: "'a wstate \<Rightarrow> 'a list" where
  "runningOf w = (case w of Busy x \<Rightarrow> taskList x | Idle \<Rightarrow> [])"

definition runningTasks :: "'a pool \<Rightarrow> 'a list" where
  "runningTasks p = concat (map runningOf (pworkers p))"

definition pool_ok :: "'a pool \<Rightarrow> bool" where
  "pool_ok p \<longleftrightarrow> psem p = length (pworkers p) \<and> psem p \<le> psize p \<and> length (pwork p) \<le> pcap p \<and>
     (0 < pcap p \<longrightarrow> pworkers p \<noteq> []) \<and>
     mset (paccepted p) = mset (pdone p) + mset (runningTasks p) + mset (pwork p)"

lemma running_update:
  assumes "i < length ws"
  shows "mset (concat (map runningOf (ws[i := w]))) + mset (runningOf (ws ! i)) =
    mset (concat (map runningOf ws)) + mset (runningOf w)"
proof -
  have ws: "ws = take i ws @ ws ! i # drop (Suc i) ws" using assms by (rule id_take_nth_drop)
  have up: "ws[i := w] = take i ws @ w # drop (Suc i) ws" using assms by (rule upd_conv_take_nth_drop)
  show ?thesis unfolding up by (subst (3) ws) (simp add: ac_simps)
qed

lemma NewPool_ok:
  assumes "NewPool sz queue spawn = Inr p"
  shows "pool_ok p" "psize p = nat sz" "pcap p = nat queue"
  using assms
  by (auto simp: NewPool_def pool_ok_def runningTasks_def runningOf_def taskList_def concat_replicate_trivial map_replicate
    split: if_splits)

lemma pstep_ok:
  assumes ok: "pool_ok p" and s: "pstep l p = Some q"
  shows "pool_ok q \<and> psize q = psize p \<and> pcap q = pcap p"
proof (cases l)
  case (SchedHand t i)
  then have i: "i < length (pworkers p)" "pworkers p ! i = Idle"
      and q: "q = p\<lparr>pworkers := (pworkers p)[i := Busy (Some t)], paccepted := paccepted p @ [t]\<rparr>"
    using s by (auto simp: pstep_def split: if_splits)
  show ?thesis using ok running_update [OF i(1), of "Busy (Some t)"] i(2) unfolding q
    by (auto simp: pool_ok_def runningTasks_def runningOf_def taskList_def)
next
  case (WorkerDone i)
  then obtain x where i: "i < length (pworkers p)" "pworkers p ! i = Busy x"
      and q: "q = p\<lparr>pworkers := (pworkers p)[i := Idle], pdone := pdone p @ taskList x\<rparr>"
    using s by (auto simp: pstep_def split: if_splits wstate.splits)
  show ?thesis using ok running_update [OF i(1), of Idle] i(2) unfolding q
    by (auto simp: pool_ok_def runningTasks_def runningOf_def ac_simps)
next
  case (WorkerTake i)
  then obtain t ts where i: "i < length (pworkers p)" "pworkers p ! i = Idle" "pwork p = t # ts"
      and q: "q = p\<lparr>pwork := ts, pworkers := (pworkers p)[i := Busy (Some t)]\<rparr>"
    using s by (auto simp: pstep_def split: if_splits list.splits)
  show ?thesis using ok running_update [OF i(1), of "Busy (Some t)"] i(2,3) unfolding q
    by (auto simp: pool_ok_def runningTasks_def runningOf_def taskList_def)
qed (use ok s in \<open>auto simp: pstep_def pool_ok_def runningTasks_def runningOf_def taskList_def split: if_splits\<close>)

interpretation pool_inv: run_invariant "\<lambda>p l q. pstep l p = Some q" "\<lambda>p. pool_ok p \<and> psize p = k \<and> pcap p = c"
  by unfold_locales (auto dest: pstep_ok)

lemma prun_ok: "prun p ls q \<Longrightarrow> pool_ok p \<Longrightarrow> pool_ok q \<and> psize q = psize p \<and> pcap q = pcap p"
  using pool_inv.good_trace by blast

text \<open>
  C30: The pool is sound: in every run of a pool that was created, each accepted task is exactly once
  among the finished, the running and the waiting ones, there are never more workers than the size
  of the pool and never more waiting tasks than the length of its queue.
\<close>

theorem gopool_conserves:
  assumes "NewPool sz queue spawn = Inr p" and "prun p ls q"
  shows "mset (paccepted q) = mset (pdone q) + mset (runningTasks q) + mset (pwork q) \<and>
    length (pworkers q) \<le> nat sz \<and> length (pwork q) \<le> nat queue"
  using prun_ok [OF assms(2)] NewPool_ok [OF assms(1)] by (simp add: pool_ok_def)

theorem gopool_conserves_witness:
  "\<exists>p q. NewPool 2 1 1 = Inr p \<and> prun p [WorkerDone 0, SchedQueue ''a'', SchedSpawn ''b'', WorkerTake 0] q \<and>
     mset (paccepted q) = mset (pdone q) + mset (runningTasks q) + mset (pwork q)"
proof -
  let ?p = "\<lparr>psize = 2, psem = 1, pcap = 1, pwork = [], pworkers = [Busy None], paccepted = [], pdone = []\<rparr> :: string pool"
  have p: "NewPool 2 1 1 = Inr ?p" by (simp add: NewPool_def)
  have "\<exists>q. prun ?p [WorkerDone 0, SchedQueue ''a'', SchedSpawn ''b'', WorkerTake 0] q"
    by (simp add: trace_Cons_iff pstep_def taskList_def)
  then obtain q where q: "prun ?p [WorkerDone 0, SchedQueue ''a'', SchedSpawn ''b'', WorkerTake 0] q" by blast
  from gopool_conserves [OF p q] show ?thesis using p q by blast
qed

text \<open>
  C31: Scheduling does not get stuck: in every reachable state of a pool of positive size, a task can be
  handed over at once, or after the end of one running task and at most one further move of a
  worker.
\<close>

theorem gopool_progress:
  assumes "NewPool sz queue spawn = Inr p" and "prun p ls q" and "0 < sz"
  shows "\<exists>ls' l q1 q2. prun q ls' q1 \<and> length ls' \<le> 2 \<and> l \<in> {SchedQueue t, SchedSpawn t} \<union> range (SchedHand t) \<and>
    Schedule l q1 = Some q2 \<and> paccepted q2 = paccepted q @ [t]"
proof (cases "psem q < psize q")
  case True
  then have "Schedule (SchedSpawn t) q = Some (q\<lparr>psem := psem q + 1, pworkers := pworkers q @ [Busy (Some t)], paccepted := paccepted q @ [t]\<rparr>)"
    by simp
  then show ?thesis by (intro exI [of _ "[]"] exI [of _ "SchedSpawn t"] exI [of _ q] exI conjI) auto
next
  case False
  have ok: "pool_ok q" "psize q = nat sz" using prun_ok [OF assms(2)] NewPool_ok [OF assms(1)] by auto
  then have w: "0 < length (pworkers q)" using False assms(3) by (auto simp: pool_ok_def)
  define q0 where "q0 = (case pworkers q ! 0 of Idle \<Rightarrow> q
    | Busy x \<Rightarrow> q\<lparr>pworkers := (pworkers q)[0 := Idle], pdone := pdone q @ taskList x\<rparr>)"
  have idle: "pworkers q0 ! 0 = Idle" "0 < length (pworkers q0)" "pwork q0 = pwork q" "paccepted q0 = paccepted q" "pcap q0 = pcap q"
    using w by (auto simp: q0_def split: wstate.splits)
  have r0: "\<exists>ls'. length ls' \<le> 1 \<and> prun q ls' q0"
  proof (cases "pworkers q ! 0")
    case (Busy x)
    then have "pstep (WorkerDone 0) q = Some q0" using w by (simp add: pstep_def q0_def)
    then show ?thesis by (intro exI [of _ "[WorkerDone 0]"]) (simp add: trace_Cons_iff)
  qed (auto simp: q0_def intro!: exI [of _ "[]"])
  then obtain ls0 where ls0: "length ls0 \<le> 1" "prun q ls0 q0" by blast
  show ?thesis
  proof (cases "pwork q")
    case Nil
    have "Schedule (SchedHand t 0) q0 = Some (q0\<lparr>pworkers := (pworkers q0)[0 := Busy (Some t)], paccepted := paccepted q0 @ [t]\<rparr>)"
      using idle Nil by simp
    then show ?thesis
      using ls0 idle by (intro exI [of _ ls0] exI [of _ "SchedHand t 0"] exI [of _ q0] exI conjI) auto
  next
    case (Cons u us)
    let ?q1 = "q0\<lparr>pwork := us, pworkers := (pworkers q0)[0 := Busy (Some u)]\<rparr>"
    have "pstep (WorkerTake 0) q0 = Some ?q1" using idle Cons by (simp add: pstep_def)
    then have r1: "prun q (ls0 @ [WorkerTake 0]) ?q1" by (rule trace.snoc [OF ls0(2)])
    have "length us < pcap q0" using ok(1) Cons idle by (simp add: pool_ok_def)
    then have "Schedule (SchedQueue t) ?q1 = Some (?q1\<lparr>pwork := us @ [t], paccepted := paccepted q0 @ [t]\<rparr>)"
      by simp
    then show ?thesis
      using r1 ls0(1) idle
      by (intro exI [of _ "ls0 @ [WorkerTake 0]"] exI [of _ "SchedQueue t"] exI [of _ ?q1] exI conjI) auto
  qed
qed

text \<open>
  A pool of size zero is not refused, and a task given to it is never accepted: \<open>Schedule\<close> blocks for
  ever.
\<close>

theorem gopool_zero_size:
  "\<exists>p :: 'a pool. NewPool 0 0 0 = Inr p \<and> (\<forall>ls q. prun p ls q \<longrightarrow> paccepted q = [])"
proof -
  let ?p = "\<lparr>psize = 0, psem = 0, pcap = 0, pwork = [], pworkers = [], paccepted = [], pdone = []\<rparr> :: 'a pool"
  have keep: "q1 = ?p" if "pstep l ?p = Some q1" for l q1
    using that by (cases l) (simp_all add: pstep_def)
  have "p = ?p \<longrightarrow> q = ?p" if "prun p ls q" for p ls q
    using that by (induction rule: trace.induct) (use keep in auto)
  then have "paccepted q = []" if "prun ?p ls q" for ls q using that by fastforce
  then show ?thesis by (intro exI [of _ ?p]) (simp add: NewPool_def)
qed


theorem gopool_progress_witness:
  "\<exists>p ls' l q1 q2. NewPool 1 0 0 = Inr p \<and> prun p ls' q1 \<and> length ls' \<le> 2 \<and>
     l \<in> {SchedQueue ''a'', SchedSpawn ''a''} \<union> range (SchedHand ''a'') \<and> Schedule l q1 = Some q2"
proof -
  obtain p :: "string pool" where p: "NewPool 1 0 0 = Inr p" by (simp add: NewPool_def)
  from gopool_progress [OF p trace.nil, where t = "''a''"] p show ?thesis by auto
qed

end
