(* ===== verification/Logging.thy ===== *)
theory Logging
  imports Prelude
begin

text \<open>
  The set-up of the logger in \<open>src/util/log/log.go\<close>: where the messages go, in which form, and which
  of them. The libraries \<open>zap\<close> and \<open>lumberjack\<close> that write them are not part of the program; the
  result of the set-up is the record of what they are told. The functions of the package pass a
  message on to \<open>zap\<close>: the ones with a format unpack the list of their arguments, the others pass it as
  a single argument, so that it is printed as a list.
\<close>

datatype Level = DebugLevel | InfoLevel | WarnLevel | ErrorLevel | FatalLevel

text \<open>The levels in the order of their weight.\<close>

fun levelRank :: "Level \<Rightarrow> nat" where
  "levelRank DebugLevel = 0"
| "levelRank InfoLevel = 1"
| "levelRank WarnLevel = 2"
| "levelRank ErrorLevel = 3"
| "levelRank FatalLevel = 4"

lemma levelRank_inj: "levelRank a = levelRank b \<Longrightarrow> a = b"
  by (cases a; cases b) simp_all

instantiation Level :: linorder
begin

definition less_eq_Level :: "Level \<Rightarrow> Level \<Rightarrow> bool" where
  "less_eq_Level a b \<longleftrightarrow> levelRank a \<le> levelRank b"

definition less_Level :: "Level \<Rightarrow> Level \<Rightarrow> bool" where
  "less_Level a b \<longleftrightarrow> levelRank a < levelRank b"

instance
  by standard (auto simp: less_eq_Level_def less_Level_def intro: levelRank_inj)

end

record fileWriter =
  Filename :: string
  MaxSize :: int
  MaxBackups :: int
  MaxAge :: int
  Compress :: bool
  LocalTime :: bool

datatype writeSyncer = FileWriter fileWriter | ConsoleWriter

datatype encoder = ConsoleEncoder | JSONEncoder

record logger =
  lEncoder :: encoder
  lWriter :: writeSyncer
  lLevel :: Level

definition getLogLevel :: "string \<Rightarrow> Level" where
  "getLogLevel logLevel =
     (if logLevel = ''DEBUG'' then DebugLevel
      else if logLevel = ''INFO'' then InfoLevel
      else if logLevel = ''WARN'' then WarnLevel
      else if logLevel = ''ERROR'' then ErrorLevel
      else if logLevel = ''FATAL'' then FatalLevel
      else WarnLevel)"

definition getEncoder :: "bool \<Rightarrow> encoder" where
  "getEncoder textFormat = (if textFormat then ConsoleEncoder else JSONEncoder)"

definition getFileWriter :: "string \<Rightarrow> int \<Rightarrow> int \<Rightarrow> int \<Rightarrow> writeSyncer" where
  "getFileWriter filePath rotateSize backupCount maxAge =
     FileWriter \<lparr>Filename = filePath, MaxSize = rotateSize, MaxBackups = backupCount,
       MaxAge = (if maxAge = 0 then 7 else maxAge), Compress = False, LocalTime = True\<rparr>"

definition InitLogger :: "string \<Rightarrow> string \<Rightarrow> bool \<Rightarrow> string \<Rightarrow> int \<Rightarrow> int \<Rightarrow> int \<Rightarrow> logger" where
  "InitLogger writerType logLevel textFormat filePath rotateSize backupCount maxAge =
     \<lparr>lEncoder = getEncoder textFormat,
      lWriter = (if writerType = ''file'' then getFileWriter filePath rotateSize backupCount maxAge else ConsoleWriter),
      lLevel = getLogLevel logLevel\<rparr>"

text \<open>The name of a level is read back as the level.\<close>

fun levelName :: "Level \<Rightarrow> string" where
  "levelName DebugLevel = ''DEBUG''"
| "levelName InfoLevel = ''INFO''"
| "levelName WarnLevel = ''WARN''"
| "levelName ErrorLevel = ''ERROR''"
| "levelName FatalLevel = ''FATAL''"

lemma getLogLevel_name: "getLogLevel (levelName l) = l"
  by (cases l) (simp_all add: getLogLevel_def)

section \<open>Messages\<close>

text \<open>
  An argument as \<open>fmt\<close> prints it: a plain value or a slice, printed between brackets with spaces. \<open>zap\<close>
  prints the arguments of \<open>Debug\<close> and its like with \<open>fmt.Sprint\<close>, which puts a space between operands
  when neither is a string; \<open>zapPrint\<close> is its case of one operand. A call is the level with the operands.
\<close>

datatype arg = Arg string | Slice "arg list"

fun printArg :: "arg \<Rightarrow> string" and printArgs :: "arg list \<Rightarrow> string" where
  "printArg (Arg t) = t"
| "printArg (Slice xs) = ''['' @ printArgs xs @ '']''"
| "printArgs [] = []"
| "printArgs [x] = printArg x"
| "printArgs (x # xs) = printArg x @ '' '' @ printArgs xs"

datatype zap_call = ZapPrint Level "arg list" | ZapFormat Level string "arg list"

definition Debug :: "arg list \<Rightarrow> zap_call" where
  "Debug args = ZapPrint DebugLevel [Slice args]"

definition LogInfo :: "arg list \<Rightarrow> zap_call" where
  "LogInfo args = ZapPrint InfoLevel [Slice args]"

definition Warn :: "arg list \<Rightarrow> zap_call" where
  "Warn args = ZapPrint WarnLevel [Slice args]"

definition LogError :: "arg list \<Rightarrow> zap_call" where
  "LogError args = ZapPrint ErrorLevel [Slice args]"

definition Fatal :: "arg list \<Rightarrow> zap_call" where
  "Fatal args = ZapPrint FatalLevel [Slice args]"

definition Debugf :: "string \<Rightarrow> arg list \<Rightarrow> zap_call" where
  "Debugf format args = ZapFormat DebugLevel format args"

definition Infof :: "string \<Rightarrow> arg list \<Rightarrow> zap_call" where
  "Infof format args = ZapFormat InfoLevel format args"

definition Warnf :: "string \<Rightarrow> arg list \<Rightarrow> zap_call" where
  "Warnf format args = ZapFormat WarnLevel format args"

definition Errorf :: "string \<Rightarrow> arg list \<Rightarrow> zap_call" where
  "Errorf format args = ZapFormat ErrorLevel format args"

definition Fatalf :: "string \<Rightarrow> arg list \<Rightarrow> zap_call" where
  "Fatalf format args = ZapFormat FatalLevel format args"

text \<open>
  What becomes of a call: \<open>zap\<close> drops the levels below the configured one, and ends the process after a
  message of the level fatal, written or not. \<open>sprint\<close> and \<open>sprintf\<close> are the functions of \<open>fmt\<close>.
\<close>

fun zapLevel :: "zap_call \<Rightarrow> Level" where
  "zapLevel (ZapPrint l xs) = l"
| "zapLevel (ZapFormat l t xs) = l"

fun zapText :: "(arg list \<Rightarrow> string) \<Rightarrow> (string \<Rightarrow> arg list \<Rightarrow> string) \<Rightarrow> zap_call \<Rightarrow> string" where
  "zapText sprint sprintf (ZapPrint l xs) = sprint xs"
| "zapText sprint sprintf (ZapFormat l t xs) = sprintf t xs"

definition zapWrite ::
    "(arg list \<Rightarrow> string) \<Rightarrow> (string \<Rightarrow> arg list \<Rightarrow> string) \<Rightarrow> logger \<Rightarrow> zap_call \<Rightarrow> string option \<times> bool" where
  "zapWrite sprint sprintf lg c =
     (if lLevel lg \<le> zapLevel c then Some (zapText sprint sprintf c) else None, zapLevel c = FatalLevel)"

text \<open>
  With the usual level \<open>WARN\<close> the messages about single peers are not written, and a message without a
  format is written between brackets.
\<close>

lemma warn_filters:
  assumes "lLevel lg = getLogLevel ''WARN''"
  shows "fst (zapWrite sprint sprintf lg (Infof t xs)) = None" "fst (zapWrite sprint sprintf lg (Debugf t xs)) = None"
    "fst (zapWrite sprint sprintf lg (Warnf t xs)) = Some (sprintf t xs)"
  using assms by (simp_all add: zapWrite_def getLogLevel_def Infof_def Debugf_def Warnf_def less_eq_Level_def)

text \<open>A higher level writes less.\<close>

lemma level_filters_antimono:
  assumes "lLevel lg \<le> lLevel lg'" "fst (zapWrite sprint sprintf lg' c) = Some t"
  shows "fst (zapWrite sprint sprintf lg c) = Some t"
  using assms by (auto simp: zapWrite_def split: if_splits)

lemma message_in_brackets:
  assumes "\<And>x. sprint [x] = printArg x"
  shows "zapText sprint sprintf (LogError [Arg a, Arg b]) = ''['' @ a @ '' '' @ b @ '']''"
  using assms by (simp add: LogError_def)

end
