(* ===== verification/Cpu.thy ===== *)
theory Cpu
  imports GoStrings Float64
begin

text \<open>
  The CPU statistics of \<open>src/util/cpu\<close>: the readers of the files under \<open>/proc\<close> and \<open>/sys/fs/cgroup\<close>
  (\<open>utils.go\<close>, \<open>cgroup.go\<close>), the usage of the control group (\<open>cgroup_cpu.go\<close>), the fallback on the
  library \<open>gopsutil\<close> (\<open>psutil_cpu.go\<close>) and the sampling (\<open>stat.go\<close>). The files are an argument: \<open>fs\<close>
  gives the contents of a path, or the error of opening it, at the time it is read. The library
  \<open>gopsutil\<close> and \<open>strconv.ParseFloat\<close> are arguments as well.
\<close>

section \<open>Readers\<close>

type_synonym fsys = "string \<Rightarrow> string + bytes"

datatype cerr = OSErr string | NumError num_err | Msg string | ErrEOF | ErrExt string

definition readFile :: "fsys \<Rightarrow> string \<Rightarrow> cerr + string" where
  "readFile fs path = (case fs path of Inl err \<Rightarrow> Inl (OSErr err) | Inr contents \<Rightarrow> Inr (TrimSpace contents))"

definition parseUint :: "string \<Rightarrow> cerr + nat" where
  "parseUint s =
     (case ParseUint64 s of
        Inr v \<Rightarrow> Inr v
      | Inl err \<Rightarrow>
          (case ParseInt64 s of
             (intValue, intErr) \<Rightarrow>
               if intErr = None \<and> intValue < 0 then Inr 0
               else if intErr \<noteq> None \<and> intErr = Some ErrRange \<and> intValue < 0 then Inr 0
               else Inl (NumError err)))"

text \<open>
  The loop \<open>for i := min; i <= max; i++\<close> over the variable of type \<open>int\<close>: \<open>None\<close> is a loop that does
  not end, which is what happens when \<open>max\<close> is the largest integer.
\<close>

partial_function (option) setRange :: "int \<Rightarrow> int \<Rightarrow> (int, bool) gomap \<Rightarrow> (int, bool) gomap option" where
  "setRange i mx m = (if i \<le> mx then setRange (i64 (i + 1)) mx (gm_set i True m) else Some m)"

fun parseItem :: "string \<Rightarrow> (int, bool) gomap \<Rightarrow> (unit + (int, bool) gomap) option" where
  "parseItem r m =
     (if CHR ''-'' \<notin> set r then
        (case Atoi r of (v, None) \<Rightarrow> Some (Inr (gm_set v True m)) | (v, Some _) \<Rightarrow> Some (Inl ()))
      else
        (case (Atoi (SplitN2 CHR ''-'' r ! 0), Atoi (SplitN2 CHR ''-'' r ! 1)) of
           ((mn, None), (mx, None)) \<Rightarrow>
             if mx < mn then Some (Inl ()) else map_option Inr (setRange mn mx m)
         | _ \<Rightarrow> Some (Inl ())))"

fun parseItems :: "string list \<Rightarrow> (int, bool) gomap \<Rightarrow> (unit + (int, bool) gomap) option" where
  "parseItems [] m = Some (Inr m)"
| "parseItems (r # rs) m =
     (case parseItem r m of
        None \<Rightarrow> None
      | Some (Inl e) \<Rightarrow> Some (Inl e)
      | Some (Inr m1) \<Rightarrow> parseItems rs m1)"

definition ParseUintList :: "string \<Rightarrow> (cerr + (int, bool) gomap) option" where
  "ParseUintList val =
     (if val = [] then Some (Inr [])
      else case parseItems (Split CHR '','' val) [] of
             None \<Rightarrow> None
           | Some (Inl _) \<Rightarrow> Some (Inl (Msg (''os/stat: invalid format: '' @ val)))
           | Some (Inr m) \<Rightarrow> Some (Inr m))"

text \<open>The loop of \<open>readLinesOffsetN\<close> over the lines that end in a newline; \<open>Trim\<close> removes just that newline.\<close>

fun readLoop :: "int \<Rightarrow> int \<Rightarrow> int \<Rightarrow> string list \<Rightarrow> string list" where
  "readLoop i offset k [] = []"
| "readLoop i offset k (line # rest) =
     (if i < i64 (k + offset) \<or> k < 0
      then (if i < offset then readLoop (i + 1) offset k rest else line # readLoop (i + 1) offset k rest)
      else [])"

definition readLinesOffsetN :: "fsys \<Rightarrow> string \<Rightarrow> int \<Rightarrow> int \<Rightarrow> string list \<times> cerr option" where
  "readLinesOffsetN fs filename offset k =
     (case fs filename of
        Inl err \<Rightarrow> ([[]], Some (OSErr err))
      | Inr contents \<Rightarrow> (readLoop 0 (i64 offset) k (fullLines contents), None))"

definition readLines :: "fsys \<Rightarrow> string \<Rightarrow> string list \<times> cerr option" where
  "readLines fs filename = readLinesOffsetN fs filename 0 (-1)"

section \<open>Control groups\<close>

definition cgroupRootDir :: string where
  "cgroupRootDir = ''/sys/fs/cgroup''"

type_synonym cgroup = "(string, string) gomap"

definition setAll :: "(string \<Rightarrow> string) \<Rightarrow> string list \<Rightarrow> cgroup \<Rightarrow> cgroup" where
  "setAll f ks m = foldl (\<lambda>m k. gm_set k (f k) m) m ks"

definition cgroupLine :: "string list \<Rightarrow> cgroup \<Rightarrow> cgroup" where
  "cgroupLine col m =
     (let dir = col ! 2; c = col ! 1
      in if dir \<noteq> ''/'' then
           (let m1 = gm_set c (pathJoin [cgroupRootDir, c]) m
            in if CHR '','' \<in> set c then setAll (\<lambda>k. pathJoin [cgroupRootDir, k]) (Split CHR '','' c) m1 else m1)
         else
           (let m1 = gm_set c (pathJoin [cgroupRootDir, c, dir]) m
            in if CHR '','' \<in> set c then setAll (\<lambda>k. pathJoin [cgroupRootDir, k, dir]) (Split CHR '','' c) m1 else m1))"

fun cgroupLoop :: "string list \<Rightarrow> cgroup \<Rightarrow> cerr + cgroup" where
  "cgroupLoop [] m = Inr m"
| "cgroupLoop (line # rest) m =
     (let col = Split CHR '':'' (TrimSpace line)
      in if length col \<noteq> 3 then Inl (Msg (''invalid cgroup format '' @ line @ [CHR 0x0A]))
         else cgroupLoop rest (cgroupLine col m))"

definition currentcGroup :: "fsys \<Rightarrow> int \<Rightarrow> cerr + cgroup" where
  "currentcGroup fs pid =
     (case fs (''/proc/'' @ FormatInt pid @ ''/cgroup'') of
        Inl err \<Rightarrow> Inl (OSErr err)
      | Inr contents \<Rightarrow> cgroupLoop (fullLines contents) [])"

text \<open>Reading a missing key of a Go map of strings gives the empty string.\<close>

definition cgroupFile :: "cgroup \<Rightarrow> string \<Rightarrow> string \<Rightarrow> string" where
  "cgroupFile c ctl file = pathJoin [case gm_get c ctl of None \<Rightarrow> [] | Some d \<Rightarrow> d, file]"

definition bindE :: "'e + 'a \<Rightarrow> ('a \<Rightarrow> 'e + 'b) \<Rightarrow> 'e + 'b" where
  "bindE m f = (case m of Inl e \<Rightarrow> Inl e | Inr x \<Rightarrow> f x)"

definition CPUCFSQuotaUs :: "fsys \<Rightarrow> cgroup \<Rightarrow> cerr + int" where
  "CPUCFSQuotaUs fs c =
     bindE (readFile fs (cgroupFile c ''cpu'' ''cpu.cfs_quota_us'')) (\<lambda>data.
       case ParseInt64 data of (v, None) \<Rightarrow> Inr v | (v, Some e) \<Rightarrow> Inl (NumError e))"

definition CPUCFSPeriodUs :: "fsys \<Rightarrow> cgroup \<Rightarrow> cerr + nat" where
  "CPUCFSPeriodUs fs c = bindE (readFile fs (cgroupFile c ''cpu'' ''cpu.cfs_period_us'')) parseUint"

definition CPUAcctUsage :: "fsys \<Rightarrow> cgroup \<Rightarrow> cerr + nat" where
  "CPUAcctUsage fs c = bindE (readFile fs (cgroupFile c ''cpuacct'' ''cpuacct.usage'')) parseUint"

fun nonzeroUints :: "string list \<Rightarrow> cerr + nat list" where
  "nonzeroUints [] = Inr []"
| "nonzeroUints (v # vs) =
     bindE (parseUint v) (\<lambda>u. bindE (nonzeroUints vs) (\<lambda>us. Inr (if u \<noteq> 0 then u # us else us)))"

definition CPUAcctUsagePerCPU :: "fsys \<Rightarrow> cgroup \<Rightarrow> cerr + nat list" where
  "CPUAcctUsagePerCPU fs c =
     bindE (readFile fs (cgroupFile c ''cpuacct'' ''cpuacct.usage_percpu'')) (\<lambda>data. nonzeroUints (Fields data))"

text \<open>The order in which \<open>range\<close> visits the map is not fixed; only the number of the elements is used.\<close>

definition CPUSetCPUs :: "fsys \<Rightarrow> cgroup \<Rightarrow> (cerr + 64 word list) option" where
  "CPUSetCPUs fs c =
     (case readFile fs (cgroupFile c ''cpuset'' ''cpuset.cpus'') of
        Inl e \<Rightarrow> Some (Inl e)
      | Inr data \<Rightarrow>
          (case ParseUintList data of
             None \<Rightarrow> None
           | Some (Inl e) \<Rightarrow> Some (Inl e)
           | Some (Inr cpus) \<Rightarrow> Some (Inr (map (\<lambda>k. word_of_int (fst k)) cpus))))"

section \<open>The usage of the control group\<close>

record cgroupCPU =
  frequency :: "64 word"
  quota :: f64
  cores :: "64 word"
  preSystem :: "64 word"
  preTotal :: "64 word"

definition clockTicksPerSecond :: "64 word" where
  "clockTicksPerSecond = 100"

fun sumTicks :: "64 word \<Rightarrow> string list \<Rightarrow> cerr + 64 word" where
  "sumTicks acc [] = Inr acc"
| "sumTicks acc (i # is) =
     (case ParseUint64 i of Inl e \<Rightarrow> Inl (NumError e) | Inr v \<Rightarrow> sumTicks (acc + of_nat v) is)"

fun statLoop :: "string list \<Rightarrow> (cerr + 64 word) res" where
  "statLoop [] = Inr (Inl ErrEOF)"
| "statLoop (line # rest) =
     (let parts = Fields line
      in if parts = [] then Inl IndexOutOfRange
         else if parts ! 0 = ''cpu'' then
           (if length parts < 8 then Inr (Inl (Msg ''bad format of cpu stats''))
            else case sumTicks 0 (take 7 (drop 1 parts)) of
                   Inl e \<Rightarrow> Inr (Inl e)
                 | Inr tot \<Rightarrow> Inr (Inr ((tot * 1000000000) div clockTicksPerSecond)))
         else statLoop rest)"

definition systemCPUUsage :: "fsys \<Rightarrow> (cerr + 64 word) res" where
  "systemCPUUsage fs =
     (case fs ''/proc/stat'' of Inl err \<Rightarrow> Inr (Inl (OSErr err)) | Inr contents \<Rightarrow> statLoop (fullLines contents))"

definition totalCPUUsage :: "fsys \<Rightarrow> int \<Rightarrow> cerr + 64 word" where
  "totalCPUUsage fs pid = bindE (currentcGroup fs pid) (\<lambda>cg. bindE (CPUAcctUsage fs cg) (\<lambda>v. Inr (of_nat v)))"

definition perCPUUsage :: "fsys \<Rightarrow> int \<Rightarrow> cerr + nat list" where
  "perCPUUsage fs pid = bindE (currentcGroup fs pid) (CPUAcctUsagePerCPU fs)"

definition cpuSets :: "fsys \<Rightarrow> int \<Rightarrow> (cerr + 64 word list) option" where
  "cpuSets fs pid = (case currentcGroup fs pid of Inl e \<Rightarrow> Some (Inl e) | Inr cg \<Rightarrow> CPUSetCPUs fs cg)"

definition cpuQuota :: "fsys \<Rightarrow> int \<Rightarrow> cerr + int" where
  "cpuQuota fs pid = bindE (currentcGroup fs pid) (CPUCFSQuotaUs fs)"

definition cpuPeriod :: "fsys \<Rightarrow> int \<Rightarrow> cerr + nat" where
  "cpuPeriod fs pid = bindE (currentcGroup fs pid) (CPUCFSPeriodUs fs)"

text \<open>\<open>strings.Replace(value, "MHz", "", 1)\<close>: the first occurrence goes away.\<close>

fun dropMHz :: "string \<Rightarrow> string" where
  "dropMHz [] = []"
| "dropMHz (c # cs) = (if take 3 (c # cs) = ''MHz'' then drop 3 (c # cs) else c # dropMHz cs)"

fun cpuFreqLoop :: "(string \<Rightarrow> f64 option) \<Rightarrow> (f64 \<Rightarrow> int) \<Rightarrow> string list \<Rightarrow> 64 word" where
  "cpuFreqLoop parseFloat oor [] = 0"
| "cpuFreqLoop parseFloat oor (line # rest) =
     (let fields = Split CHR '':'' line
      in if length fields < 2 then cpuFreqLoop parseFloat oor rest
         else (let key = TrimSpace (fields ! 0); val = TrimSpace (fields ! 1)
               in if key = ''cpu MHz'' \<or> key = ''clock'' then
                    (case parseFloat (dropMHz val) of
                       Some t \<Rightarrow> word_of_int (fToUint64 oor (fmul (fmul t (fOfInt 1000)) (fOfInt 1000)))
                     | None \<Rightarrow> cpuFreqLoop parseFloat oor rest)
                  else cpuFreqLoop parseFloat oor rest))"

definition cpuFreq :: "(string \<Rightarrow> f64 option) \<Rightarrow> (f64 \<Rightarrow> int) \<Rightarrow> fsys \<Rightarrow> 64 word" where
  "cpuFreq parseFloat oor fs =
     (case readLines fs ''/proc/cpuinfo'' of
        (_, Some err) \<Rightarrow> 0
      | (ls, None) \<Rightarrow> cpuFreqLoop parseFloat oor ls)"

definition cpuMaxFreq :: "(string \<Rightarrow> f64 option) \<Rightarrow> (f64 \<Rightarrow> int) \<Rightarrow> fsys \<Rightarrow> 64 word" where
  "cpuMaxFreq parseFloat oor fs =
     (let feq = cpuFreq parseFloat oor fs
      in case readFile fs ''/sys/devices/system/cpu/cpu0/cpufreq/cpuinfo_max_freq'' of
           Inl _ \<Rightarrow> feq
         | Inr data \<Rightarrow> (case parseUint data of Inr cfeq \<Rightarrow> of_nat cfeq | Inl _ \<Rightarrow> feq))"

text \<open>What is outside the program: the process, the machine's conversions and the libraries.\<close>

record cpu_env =
  pidOf :: int
  oorOf :: "f64 \<Rightarrow> int"
  parseFloatOf :: "string \<Rightarrow> f64 option"
  pscpuCounts :: "string + int"
  pscpuPercent :: "string + f64 list"
  pscpuInfo :: "string + f64 list"

definition coresOf :: "cpu_env \<Rightarrow> fsys \<Rightarrow> cerr + int" where
  "coresOf ce fs =
     (case pscpuCounts ce of
        Inr k \<Rightarrow> if k = 0 then bindE (perCPUUsage fs (pidOf ce)) (\<lambda>cpus. Inr (int (length cpus))) else Inr k
      | Inl _ \<Rightarrow> bindE (perCPUUsage fs (pidOf ce)) (\<lambda>cpus. Inr (int (length cpus))))"

definition quotaOf :: "cpu_env \<Rightarrow> fsys \<Rightarrow> f64 \<Rightarrow> cerr + f64" where
  "quotaOf ce fs q =
     (case cpuQuota fs (pidOf ce) of
        Inl _ \<Rightarrow> Inr q
      | Inr cq \<Rightarrow>
          if cq = -1 then Inr q
          else bindE (cpuPeriod fs (pidOf ce)) (\<lambda>period.
                 let limit = fdiv (fOfInt cq) (fOfInt (int period)) in Inr (if fless limit q then limit else q)))"

definition newCgroupCPU :: "cpu_env \<Rightarrow> fsys \<Rightarrow> (cerr + cgroupCPU) res option" where
  "newCgroupCPU ce fs =
     (case coresOf ce fs of
        Inl e \<Rightarrow> Some (Inr (Inl e))
      | Inr k \<Rightarrow>
          (case cpuSets fs (pidOf ce) of
             None \<Rightarrow> None
           | Some (Inl e) \<Rightarrow> Some (Inr (Inl e))
           | Some (Inr sets) \<Rightarrow>
               (case quotaOf ce fs (fOfInt (int (length sets))) of
                  Inl e \<Rightarrow> Some (Inr (Inl e))
                | Inr q \<Rightarrow>
                    (case systemCPUUsage fs of
                       Inl p \<Rightarrow> Some (Inl p)
                     | Inr (Inl e) \<Rightarrow> Some (Inr (Inl e))
                     | Inr (Inr sysU) \<Rightarrow>
                         (case totalCPUUsage fs (pidOf ce) of
                            Inl e \<Rightarrow> Some (Inr (Inl e))
                          | Inr tot \<Rightarrow>
                              Some (Inr (Inr \<lparr>frequency = cpuMaxFreq (parseFloatOf ce) (oorOf ce) fs, quota = q,
                                cores = word_of_int k, preSystem = sysU, preTotal = tot\<rparr>)))))))"

definition usageOf :: "(f64 \<Rightarrow> int) \<Rightarrow> 64 word \<Rightarrow> 64 word \<Rightarrow> cgroupCPU \<Rightarrow> int" where
  "usageOf oor tot system cpu =
     (if system \<noteq> preSystem cpu then
        fToUint64 oor (fdiv (fOfInt (uint ((tot - preTotal cpu) * cores cpu * 1000)))
                            (fmul (fOfInt (uint (system - preSystem cpu))) (quota cpu)))
      else 0)"

definition cgroupUsage :: "cpu_env \<Rightarrow> fsys \<Rightarrow> cgroupCPU \<Rightarrow> (cgroupCPU \<times> (cerr + int)) res" where
  "cgroupUsage ce fs cpu =
     (case totalCPUUsage fs (pidOf ce) of
        Inl e \<Rightarrow> Inr (cpu, Inl e)
      | Inr tot \<Rightarrow>
          (case systemCPUUsage fs of
             Inl p \<Rightarrow> Inl p
           | Inr (Inl e) \<Rightarrow> Inr (cpu, Inl e)
           | Inr (Inr system) \<Rightarrow>
               Inr (cpu\<lparr>preSystem := system, preTotal := tot\<rparr>, Inr (usageOf (oorOf ce) tot system cpu))))"

record Info =
  Frequency :: "64 word"
  Quota :: f64

definition cgroupInfo :: "cgroupCPU \<Rightarrow> Info" where
  "cgroupInfo cpu = \<lparr>Frequency = frequency cpu, Quota = quota cpu\<rparr>"

section \<open>The fallback and the sampling\<close>

definition psutilUsage :: "cpu_env \<Rightarrow> (cerr + int) res" where
  "psutilUsage ce =
     (case pscpuPercent ce of
        Inl e \<Rightarrow> Inr (Inl (ErrExt e))
      | Inr [] \<Rightarrow> Inl IndexOutOfRange
      | Inr (x # _) \<Rightarrow> Inr (Inr (fToUint64 (oorOf ce) (fmul x (fOfInt 10)))))"

definition newPsutilCPU :: "cpu_env \<Rightarrow> cerr option res" where
  "newPsutilCPU ce =
     (case psutilUsage ce of Inl p \<Rightarrow> Inl p | Inr (Inl e) \<Rightarrow> Inr (Some e) | Inr (Inr _) \<Rightarrow> Inr None)"

definition psutilInfo :: "cpu_env \<Rightarrow> Info res" where
  "psutilInfo ce =
     (case pscpuInfo ce of
        Inl _ \<Rightarrow> Inr \<lparr>Frequency = 0, Quota = Fin 0\<rparr>
      | Inr mhz \<Rightarrow>
          (case pscpuCounts ce of
             Inl _ \<Rightarrow> Inr \<lparr>Frequency = 0, Quota = Fin 0\<rparr>
           | Inr k \<Rightarrow>
               (case mhz of
                  [] \<Rightarrow> Inl IndexOutOfRange
                | x # _ \<Rightarrow> Inr \<lparr>Frequency = word_of_int (fToUint64 (oorOf ce) x), Quota = fOfInt k\<rparr>)))"

datatype CPU = CgroupCPU cgroupCPU | PsutilCPU

record cpu_stat =
  stats :: CPU
  usage :: int

definition initStat :: "cpu_env \<Rightarrow> fsys \<Rightarrow> cpu_stat res option" where
  "initStat ce fs =
     (case newCgroupCPU ce fs of
        None \<Rightarrow> None
      | Some (Inl p) \<Rightarrow> Some (Inl p)
      | Some (Inr (Inr cpu)) \<Rightarrow> Some (Inr \<lparr>stats = CgroupCPU cpu, usage = 0\<rparr>)
      | Some (Inr (Inl _)) \<Rightarrow>
          (case newPsutilCPU ce of
             Inl p \<Rightarrow> Some (Inl p)
           | Inr (Some e) \<Rightarrow> Some (Inl (PanicValue ''cgroup cpu init failed''))
           | Inr None \<Rightarrow> Some (Inr \<lparr>stats = PsutilCPU, usage = 0\<rparr>)))"

definition Usage :: "cpu_env \<Rightarrow> fsys \<Rightarrow> CPU \<Rightarrow> (CPU \<times> (cerr + int)) res" where
  "Usage ce fs c =
     (case c of
        CgroupCPU cpu \<Rightarrow> (case cgroupUsage ce fs cpu of Inl p \<Rightarrow> Inl p | Inr (cpu1, u) \<Rightarrow> Inr (CgroupCPU cpu1, u))
      | PsutilCPU \<Rightarrow> (case psutilUsage ce of Inl p \<Rightarrow> Inl p | Inr u \<Rightarrow> Inr (PsutilCPU, u)))"

text \<open>One tick of the sampling goroutine; a sample of zero or an error keeps the last value.\<close>

definition sample :: "cpu_env \<Rightarrow> fsys \<Rightarrow> cpu_stat \<Rightarrow> cpu_stat res" where
  "sample ce fs st =
     (case Usage ce fs (stats st) of
        Inl p \<Rightarrow> Inl p
      | Inr (c, Inr u) \<Rightarrow> Inr (st\<lparr>stats := c, usage := if u \<noteq> 0 then u else usage st\<rparr>)
      | Inr (c, Inl _) \<Rightarrow> Inr (st\<lparr>stats := c\<rparr>))"

definition ReadStat :: "cpu_stat \<Rightarrow> int" where
  "ReadStat st = usage st"

definition GetInfo :: "cpu_env \<Rightarrow> cpu_stat \<Rightarrow> Info res" where
  "GetInfo ce st = (case stats st of CgroupCPU cpu \<Rightarrow> Inr (cgroupInfo cpu) | PsutilCPU \<Rightarrow> psutilInfo ce)"


section \<open>Parsing\<close>

lemma ParseUint64_showNat: "ParseUint64 (showNat k) = (if k < 2 ^ 64 then Inr k else Inl ErrRange)"
  by (auto simp: ParseUint64_def parse_showNat_all)

text \<open>
  \<open>parseUint\<close> on the decimal text of any integer: a negative number reads as zero, a number of 64
  bits as itself, and a larger number is a range error.
\<close>

theorem parseUint_correct:
  "parseUint (FormatInt i) =
     (if i < 0 then Inr 0 else if i < 2 ^ 64 then Inr (nat i) else Inl (NumError ErrRange))"
proof (cases "i < 0")
  case True
  have "ParseUint64 (FormatInt i) = Inl ErrSyntax"
    using True sign_not_digit(1) by (simp add: FormatInt_def ParseUint64_def)
  moreover have "fst (ParseInt64 (FormatInt i)) < 0 \<and>
      (snd (ParseInt64 (FormatInt i)) = None \<or> snd (ParseInt64 (FormatInt i)) = Some ErrRange)"
    using True by (auto simp: FormatInt_def ParseInt64_def Let_def ParseUint64_showNat)
  ultimately show ?thesis using True by (auto simp: parseUint_def split: prod.splits)
next
  case False
  show ?thesis
  proof (cases "i < 2 ^ 64")
    case True
    then show ?thesis using False by (simp add: parseUint_def FormatInt_def ParseUint64_showNat nat_less_iff)
  next
    case big: False
    then have "2 ^ 64 \<le> nat i" by (simp add: le_nat_iff)
    then show ?thesis
      using False big showNat_hd
      by (simp add: parseUint_def FormatInt_def ParseUint64_showNat ParseInt64_def Let_def)
  qed
qed

text \<open>A range of a list: one number, or the two ends of a range.\<close>

definition itemText :: "nat \<times> nat option \<Rightarrow> string" where
  "itemText r = (case r of (lo, None) \<Rightarrow> showNat lo | (lo, Some hi) \<Rightarrow> showNat lo @ CHR ''-'' # showNat hi)"

definition itemSet :: "nat \<times> nat option \<Rightarrow> int set" where
  "itemSet r = (case r of (lo, None) \<Rightarrow> {int lo} | (lo, Some hi) \<Rightarrow> {int lo..int hi})"

definition itemOk :: "nat \<times> nat option \<Rightarrow> bool" where
  "itemOk r \<longleftrightarrow> (case r of (lo, None) \<Rightarrow> lo < 2 ^ 63 | (lo, Some hi) \<Rightarrow> lo \<le> hi \<and> hi < 2 ^ 63 - 1)"

lemma setRange_total:
  assumes "gm_ok m" "in_i64 i" "in_i64 mx" "mx < 2 ^ 63 - 1"
  shows "\<exists>m'. setRange i mx m = Some m' \<and> gm_ok m' \<and> dom (gm_get m') = dom (gm_get m) \<union> {i..mx}"
  using assms(1,2)
proof (induction "nat (mx + 1 - i)" arbitrary: i m)
  case 0
  then show ?case by (subst setRange.simps) auto
next
  case (Suc k)
  then have le: "i \<le> mx" by linarith
  have s: "i64 (i + 1) = i + 1" "in_i64 (i + 1)" using le Suc.prems(2) assms(4) by (auto simp: in_i64_def intro!: i64_id)
  have "k = nat (mx + 1 - (i + 1))" using Suc.hyps(2) by linarith
  from Suc.hyps(1) [OF this gm_ok_set [OF Suc.prems(1)] s(2), of i True]
  obtain m' where "setRange (i + 1) mx (gm_set i True m) = Some m'" "gm_ok m'"
      "dom (gm_get m') = dom (gm_get (gm_set i True m)) \<union> {i + 1..mx}" by blast
  then show ?case using le s by (subst setRange.simps) (auto simp: gm_get_set)
qed

lemma setRange_diverges:
  assumes "setRange i mx m = Some m'" "in_i64 i"
  shows "mx \<noteq> 2 ^ 63 - 1"
proof -
  have "in_i64 i \<longrightarrow> mx \<noteq> 2 ^ 63 - 1"
  proof (rule setRange.raw_induct [where P = "\<lambda>i mx m r. in_i64 i \<longrightarrow> mx \<noteq> 2 ^ 63 - 1", OF _ assms(1)])
    fix f :: "int \<Rightarrow> int \<Rightarrow> (int, bool) gomap \<Rightarrow> (int, bool) gomap option" and i mx m r
    assume IH: "\<And>i mx m r. f i mx m = Some r \<Longrightarrow> in_i64 i \<longrightarrow> mx \<noteq> 2 ^ 63 - 1"
      and body: "(if i \<le> mx then f (i64 (i + 1)) mx (gm_set i True m) else Some m) = Some r"
    show "in_i64 i \<longrightarrow> mx \<noteq> 2 ^ 63 - 1"
    proof (cases "i \<le> mx")
      case True
      then have "f (i64 (i + 1)) mx (gm_set i True m) = Some r" using body by simp
      then show ?thesis using IH in_i64_i64 by blast
    qed (auto simp: in_i64_def)
  qed
  then show ?thesis using assms(2) by blast
qed

lemma minus_not_in_showNat: "CHR ''-'' \<notin> set (showNat k)" "CHR '','' \<notin> set (showNat k)"
  using showNat_no_char by (auto simp: is_digit_def)

lemma parseItem_text:
  assumes "itemOk r" "gm_ok m"
  shows "\<exists>m'. parseItem (itemText r) m = Some (Inr m') \<and> gm_ok m' \<and> dom (gm_get m') = dom (gm_get m) \<union> itemSet r"
proof (cases r)
  case (Pair lo hi)
  show ?thesis
  proof (cases hi)
    case None
    then show ?thesis
      using assms Pair minus_not_in_showNat
      by (simp add: itemText_def itemOk_def itemSet_def Atoi_showNat gm_ok_set gm_get_set)
  next
    case (Some h)
    then have b: "lo \<le> h" "h < 2 ^ 63 - 1" using assms(1) Pair by (auto simp: itemOk_def)
    then have a: "Atoi (showNat lo) = (int lo, None)" "Atoi (showNat h) = (int h, None)"
      by (auto intro!: Atoi_showNat)
    have "in_i64 (int lo)" "in_i64 (int h)" "int h < 2 ^ 63 - 1" using b by (auto simp: in_i64_def)
    from setRange_total [OF assms(2) this] show ?thesis
      using Pair Some a b by (auto simp: itemText_def itemSet_def SplitN2_Cons minus_not_in_showNat)
  qed
qed

lemma parseItems_text:
  assumes "\<forall>r \<in> set rs. itemOk r" "gm_ok m"
  shows "\<exists>m'. parseItems (map itemText rs) m = Some (Inr m') \<and> gm_ok m' \<and>
    dom (gm_get m') = dom (gm_get m) \<union> (\<Union>r \<in> set rs. itemSet r)"
  using assms
proof (induction rs arbitrary: m)
  case (Cons r rs)
  obtain m1 where m1: "parseItem (itemText r) m = Some (Inr m1)" "gm_ok m1" "dom (gm_get m1) = dom (gm_get m) \<union> itemSet r"
    using parseItem_text [of r m] Cons.prems by auto
  with Cons.IH [OF _ m1(2)] Cons.prems(1) show ?case
    by (auto simp del: parseItem.simps)
qed simp

text \<open>
  C27: \<open>ParseUintList\<close> reads the lists the kernel writes: for any list of numbers and ranges below the
  largest integer, in any order and with overlaps, it ends and its result holds exactly the numbers
  of the list, each once.
\<close>

theorem ParseUintList_correct:
  assumes "rs \<noteq> []" and "\<forall>r \<in> set rs. itemOk r"
  shows "\<exists>m. ParseUintList (joinWith CHR '','' (map itemText rs)) = Some (Inr m) \<and>
    dom (gm_get m) = (\<Union>r \<in> set rs. itemSet r) \<and> length m = card (\<Union>r \<in> set rs. itemSet r)"
proof -
  have no: "\<forall>x \<in> set (map itemText rs). CHR '','' \<notin> set x"
    using minus_not_in_showNat by (auto simp: itemText_def split: option.splits)
  have ne: "itemText r \<noteq> []" for r by (simp add: itemText_def split: prod.splits option.splits)
  have "joinWith CHR '','' (map itemText rs) \<noteq> []"
    using assms(1) ne by (cases rs rule: remdups_adj.cases) auto
  moreover have "Split CHR '','' (joinWith CHR '','' (map itemText rs)) = map itemText rs"
    using Split_join [OF _ no] assms(1) by simp
  moreover obtain m where "parseItems (map itemText rs) [] = Some (Inr m)" "gm_ok m"
      "dom (gm_get m) = dom (gm_get ([] :: (int, bool) gomap)) \<union> (\<Union>r \<in> set rs. itemSet r)"
    using parseItems_text [OF assms(2) gm_ok_empty] by blast
  ultimately show ?thesis
    using card_dom_gm_get [of m] by (simp add: ParseUintList_def gm_get_empty [abs_def])
qed

theorem ParseUintList_correct_witness:
  "\<exists>m. ParseUintList ''0,3-4'' = Some (Inr m) \<and> dom (gm_get m) = {0, 3, 4}"
proof -
  have "\<exists>m. ParseUintList (joinWith CHR '','' (map itemText [(0, None), (3, Some 4)])) = Some (Inr m) \<and>
      dom (gm_get m) = (\<Union>r \<in> set [(0 :: nat, None), (3, Some 4)]. itemSet r) \<and>
      length m = card (\<Union>r \<in> set [(0 :: nat, None), (3, Some 4)]. itemSet r)"
    by (rule ParseUintList_correct) (simp_all add: itemOk_def)
  moreover have "joinWith CHR '','' (map itemText [(0, None), (3, Some 4)]) = ''0,3-4''"
    by code_simp
  moreover have "(\<Union>r \<in> set [(0 :: nat, None), (3, Some 4)]. itemSet r) = {0, 3, 4}"
    by (auto simp: itemSet_def)
  ultimately show ?thesis by auto
qed

text \<open>
  The loop over a range does not end when the upper end is the largest integer: the counter wraps
  around and stays below it.
\<close>

theorem ParseUintList_can_hang:
  "ParseUintList ''7-9223372036854775807'' = None"
proof -
  let ?m = "9223372036854775807 :: nat"
  have t: "''7-9223372036854775807'' = showNat 7 @ CHR ''-'' # showNat ?m"
    by (simp add: showNat.simps digit_char_eval)
  have a: "Atoi (showNat 7) = (7, None)" "Atoi (showNat ?m) = (2 ^ 63 - 1, None)"
    by (simp_all add: Atoi_showNat)
  have "setRange 7 (2 ^ 63 - 1) [] = None"
    using setRange_diverges [of 7 "2 ^ 63 - 1" "[]"] by (cases "setRange 7 (2 ^ 63 - 1) []") (auto simp: in_i64_def)
  then have "parseItem (showNat 7 @ CHR ''-'' # showNat ?m) [] = None"
    using a by (simp add: SplitN2_Cons minus_not_in_showNat)
  moreover have "Split CHR '','' (showNat 7 @ CHR ''-'' # showNat ?m) = [showNat 7 @ CHR ''-'' # showNat ?m]"
    by (rule Split_single) (use minus_not_in_showNat in auto)
  ultimately show ?thesis unfolding t ParseUintList_def by (simp del: parseItem.simps)
qed


section \<open>Reading files\<close>

lemma readLoop_spec:
  assumes "0 \<le> off" "k < 0 \<or> k + off < 2 ^ 63" "0 \<le> i"
  shows "readLoop i off k ls = (if k < 0 then drop (nat (off - i)) ls
    else take (nat (k + off - max i off)) (drop (nat (off - i)) ls))"
  using assms(3)
proof (induction ls arbitrary: i)
  case (Cons l ls)
  have w: "i64 (k + off) = k + off" if "\<not> k < 0" using that assms by (auto simp: in_i64_def intro!: i64_id)
  show ?case
  proof (cases "i < off")
    case True
    then have "nat (off - i) = Suc (nat (off - (i + 1)))" "max i off = max (i + 1) off" by auto
    then show ?thesis using Cons.IH [of "i + 1"] Cons.prems True w by auto
  next
    case False
    have "nat (k + off - i) = Suc (nat (k + off - (i + 1)))" if "i < k + off" using that by linarith
    then show ?thesis using Cons.IH [of "i + 1"] Cons.prems False w by (auto simp: max_def)
  qed
qed simp

text \<open>
  \<open>readLinesOffsetN\<close> gives the lines its comment promises, of those that end in a newline: from the
  offset on, at most \<open>k\<close> of them, or all for a negative \<open>k\<close>. A text after the last newline is lost.
\<close>

theorem readLinesOffsetN_correct:
  assumes "0 \<le> off" and "off < 2 ^ 63" and "k < 0 \<or> k + off < 2 ^ 63"
    and "\<forall>l \<in> set ls. CHR 0x0A \<notin> set l" and "CHR 0x0A \<notin> set rest"
    and "fs file = Inr (concat (map (\<lambda>l. l @ [CHR 0x0A]) ls) @ rest)"
  shows "readLinesOffsetN fs file off k = (if k < 0 then drop (nat off) ls else take (nat k) (drop (nat off) ls), None)"
proof -
  have "i64 off = off" using assms(1,2) by (auto simp: in_i64_def intro!: i64_id)
  then show ?thesis
    using assms(6) readLoop_spec [OF assms(1,3), of 0] assms(1)
    by (auto simp: readLinesOffsetN_def fullLines_unlines [OF assms(4,5)])
qed

theorem readLinesOffsetN_correct_witness:
  "readLinesOffsetN (\<lambda>_. Inr (''a'' @ [CHR 0x0A] @ ''b'' @ [CHR 0x0A] @ ''c'')) ''f'' 1 3 = ([''b''], None)"
  using readLinesOffsetN_correct [of 1 3 "[''a'', ''b'']" "''c''"
      "\<lambda>_. Inr (''a'' @ [CHR 0x0A] @ ''b'' @ [CHR 0x0A] @ ''c'')" "''f''"]
  by simp

lemma gm_get_setAll: "gm_get (setAll f ks m) k = (if k \<in> set ks then Some (f k) else gm_get m k)"
  unfolding setAll_def by (induction ks arbitrary: m) (auto simp: gm_get_set)

lemma pathJoin_slash: "pathJoin [cgroupRootDir, k, ''/''] = pathJoin [cgroupRootDir, k]"
  using pathClean_trailing(2) [of cgroupRootDir] pathClean_trailing(2) [of "cgroupRootDir @ CHR ''/'' # k"]
  by (cases "k = []") (simp_all add: pathJoin_def Let_def cgroupRootDir_def)

lemma gm_get_cgroupLine:
  "gm_get (cgroupLine [h, c, d] m) k =
     (if k = c \<or> k \<in> set (Split CHR '','' c) then Some (pathJoin [cgroupRootDir, k]) else gm_get m k)"
  using Split_single [of "CHR '',''" c]
  by (auto simp: cgroupLine_def Let_def gm_get_setAll gm_get_set pathJoin_slash)

text \<open>The lines of \<open>/proc/<pid>/cgroup\<close>: hierarchy, controllers and directory.\<close>

definition cgText :: "string \<times> string \<times> string \<Rightarrow> string" where
  "cgText l = (case l of (h, c, d) \<Rightarrow> joinWith CHR '':'' [h, c, d])"

text \<open>A well-formed line: no colon in its parts, one line, and no white space at its ends.\<close>

definition cgOk :: "string \<times> string \<times> string \<Rightarrow> bool" where
  "cgOk l \<longleftrightarrow> (case l of (h, c, d) \<Rightarrow>
     list_all (\<lambda>x. CHR '':'' \<notin> set x \<and> CHR 0x0A \<notin> set x) [h, c, d] \<and> TrimSpace (cgText l) = cgText l)"

lemma cgText_parse:
  assumes "cgOk (h, c, d)"
  shows "Split CHR '':'' (TrimSpace (cgText (h, c, d))) = [h, c, d]" "CHR 0x0A \<notin> set (cgText (h, c, d))"
  using assms Split_join [of "[h, c, d]" "CHR '':''"] by (auto simp: cgOk_def cgText_def)

lemma cgroupLoop_spec:
  assumes "\<forall>l \<in> set ls. cgOk l"
  shows "\<exists>m'. cgroupLoop (map cgText ls) m = Inr m' \<and> (\<forall>k. gm_get m' k =
    (if \<exists>(h, c, d) \<in> set ls. k = c \<or> k \<in> set (Split CHR '','' c) then Some (pathJoin [cgroupRootDir, k]) else gm_get m k))"
  using assms
proof (induction ls arbitrary: m)
  case (Cons l ls)
  obtain h c d where l: "l = (h, c, d)" by (cases l)
  have "cgroupLoop (map cgText (l # ls)) m = cgroupLoop (map cgText ls) (cgroupLine [h, c, d] m)"
    using Cons.prems cgText_parse(1) [of h c d] l by simp
  with Cons.IH [of "cgroupLine [h, c, d] m"] Cons.prems l show ?case
    by (auto simp: gm_get_cgroupLine)
qed simp

text \<open>
  C29: The directory of every controller is found: from a well-formed \<open>/proc/<pid>/cgroup\<close> each
  controller that is mounted, alone or together with others, is read from its directory under
  \<open>/sys/fs/cgroup\<close>, inside and outside of a container alike; other names are not set.
\<close>

theorem cgroup_paths:
  assumes "fs (''/proc/'' @ FormatInt pid @ ''/cgroup'') = Inr (concat (map (\<lambda>l. cgText l @ [CHR 0x0A]) ls))"
    and "\<forall>l \<in> set ls. cgOk l"
  shows "\<exists>m. currentcGroup fs pid = Inr m \<and> (\<forall>k. gm_get m k =
    (if \<exists>(h, c, d) \<in> set ls. k = c \<or> k \<in> set (Split CHR '','' c) then Some (pathJoin [cgroupRootDir, k]) else None))"
proof -
  have "\<forall>l \<in> set (map cgText ls). CHR 0x0A \<notin> set l" using assms(2) cgText_parse(2) by fastforce
  from fullLines_unlines [OF this, of "[]"]
  have "fullLines (concat (map (\<lambda>l. cgText l @ [CHR 0x0A]) ls)) = map cgText ls" by (simp add: comp_def)
  then show ?thesis
    using assms(1) cgroupLoop_spec [OF assms(2), of "[]", unfolded gm_get_empty] by (simp add: currentcGroup_def)
qed

theorem cgroup_paths_witness:
  "\<exists>m. currentcGroup (\<lambda>_. Inr (''3:cpu,cpuacct:/docker'' @ [CHR 0x0A])) 42 = Inr m \<and>
     gm_get m ''cpuacct'' = Some ''/sys/fs/cgroup/cpuacct''"
proof -
  let ?ls = "[(''3'', ''cpu,cpuacct'', ''/docker'')]" and ?fs = "\<lambda>_ :: string. Inr (''3:cpu,cpuacct:/docker'' @ [CHR 0x0A]) :: string + bytes"
  have "\<exists>m. currentcGroup ?fs 42 = Inr m \<and> (\<forall>k. gm_get m k =
      (if \<exists>(h, c, d) \<in> set ?ls. k = c \<or> k \<in> set (Split CHR '','' c) then Some (pathJoin [cgroupRootDir, k]) else None))"
    by (rule cgroup_paths) (simp_all add: cgText_def cgOk_def space_eval)
  moreover have "pathJoin [cgroupRootDir, ''cpuacct''] = ''/sys/fs/cgroup/cpuacct''" by code_simp
  ultimately show ?thesis by auto
qed


section \<open>The usage\<close>

lemma fullLines_Cons: "CHR 0x0A \<notin> set line \<Longrightarrow> fullLines (line @ CHR 0x0A # rest) = line # fullLines rest"
  by (simp add: fullLines_def Split_Cons)

lemma sumTicks_showNat:
  "\<forall>v \<in> set vs. v < 2 ^ 64 \<Longrightarrow> sumTicks acc (map showNat vs) = Inr (acc + of_nat (sum_list vs))"
  by (induction vs arbitrary: acc) (auto simp: ParseUint64_showNat add.assoc)

text \<open>
  The system time in nanoseconds from the first line of \<open>/proc/stat\<close>: the sum of its first seven
  numbers, in ticks of a hundredth of a second, converted in 64-bit arithmetic. The conversion is
  exact while the product with the nanoseconds of a second fits into 64 bits, and wraps around from
  then on.
\<close>

theorem systemCPUUsage_correct:
  assumes "fs ''/proc/stat'' = Inr (line @ CHR 0x0A # rest)" and "CHR 0x0A \<notin> set line"
    and "Fields line = ''cpu'' # map showNat vs @ others" and "length vs = 7" and "\<forall>v \<in> set vs. v < 2 ^ 64"
  shows "\<exists>w. systemCPUUsage fs = Inr (Inr w) \<and> unat w = sum_list vs * 10 ^ 9 mod 2 ^ 64 div 100 \<and>
    (sum_list vs * 10 ^ 9 < 2 ^ 64 \<longrightarrow> unat w = sum_list vs * 10 ^ 7)"
proof -
  let ?w = "(of_nat (sum_list vs) * 1000000000) div 100 :: 64 word"
  have "systemCPUUsage fs = Inr (Inr ?w)"
    using assms sumTicks_showNat [OF assms(5), of 0]
    by (simp add: systemCPUUsage_def fullLines_Cons clockTicksPerSecond_def Let_def)
  moreover have "unat ?w = sum_list vs * 10 ^ 9 mod 2 ^ 64 div 100"
    by (simp add: unat_div unat_word_ariths unat_of_nat mod_mult_left_eq)
  moreover have "s * 10 ^ 9 mod 2 ^ 64 div 100 = s * 10 ^ 7" if "s * 10 ^ 9 < 2 ^ 64" for s :: nat
    using that by (simp add: mod_less)
  ultimately show ?thesis by auto
qed

theorem systemCPUUsage_correct_witness:
  "\<exists>w. systemCPUUsage (\<lambda>_. Inr (''cpu  4 1 1 1 1 1 1 9'' @ [CHR 0x0A])) = Inr (Inr w) \<and> unat w = 100000000"
proof -
  have s: "showNat 4 = ''4''" "showNat (Suc 0) = ''1''" by code_simp+
  have "\<exists>w. systemCPUUsage (\<lambda>_. Inr (''cpu  4 1 1 1 1 1 1 9'' @ [CHR 0x0A])) = Inr (Inr w) \<and>
      unat w = sum_list [4, 1, 1, 1, 1, 1, 1] * 10 ^ 9 mod 2 ^ 64 div 100 \<and>
      (sum_list [4, 1, 1, 1, 1, 1, 1 :: nat] * 10 ^ 9 < 2 ^ 64 \<longrightarrow> unat w = sum_list [4, 1, 1, 1, 1, 1, 1] * 10 ^ 7)"
    by (rule systemCPUUsage_correct [where line = "''cpu  4 1 1 1 1 1 1 9''" and others = "[''9'']"])
      (simp_all add: space_eval s)
  then show ?thesis by simp
qed

text \<open>
  C28: The sample of the control group is what it should be: while the counters do not wrap around, the
  value is the share of the quota that was used since the last sample, in tenths of a percent,
  truncated, up to the rounding of the floating-point operations; the sample becomes the new
  reference point.
\<close>

theorem usage_correct:
  assumes q: "quota cpu = Fin q" "0 < q" "q \<le> 2 ^ 16"
    and t: "totalCPUUsage fs (pidOf ce) = Inr tot" "unat (preTotal cpu) \<le> unat tot"
    and s: "systemCPUUsage fs = Inr (Inr system)" "unat (preSystem cpu) < unat system"
    and N: "N = (unat tot - unat (preTotal cpu)) * unat (cores cpu) * 1000" "N < 2 ^ 53"
    and D: "D = unat system - unat (preSystem cpu)" "D < 2 ^ 53"
    and x: "x = of_nat N / (of_nat D * q)" "x \<le> 2 ^ 40"
  shows "\<exists>u. cgroupUsage ce fs cpu = Inr (cpu\<lparr>preSystem := system, preTotal := tot\<rparr>, Inr u) \<and>
    x - 1 - 1 / 2 ^ 11 < of_int u \<and> of_int u \<le> x + 1 / 2 ^ 11"
proof -
  have ut: "unat (tot - preTotal cpu) = unat tot - unat (preTotal cpu)"
    using t(2) by (simp add: unat_sub word_le_nat_alt)
  have us: "unat (system - preSystem cpu) = D"
    using s(2) D(1) by (simp add: unat_sub word_le_nat_alt)
  have "unat ((tot - preTotal cpu) * cores cpu * 1000) = N"
    using N ut by (simp add: unat_word_ariths mod_mult_left_eq)
  then have n: "uint ((tot - preTotal cpu) * cores cpu * 1000) = int N" by (metis uint_nat)
  have d: "uint (system - preSystem cpu) = int D" by (metis us uint_nat)
  have ne: "system \<noteq> preSystem cpu" using s(2) by auto
  have Dpos: "0 < (of_nat D :: rat)" unfolding of_nat_0_less_iff using s(2) by (simp add: D(1))
  have "of_nat D \<le> (2 :: rat) ^ 53" using D(2) by (metis less_imp_le of_nat_le_iff of_nat_numeral of_nat_power)
  then have "of_nat D * q \<le> 2 ^ 53 * 2 ^ 16" using q by (intro mult_mono) auto
  then have z: "\<bar>of_nat D * q\<bar> \<le> 2 ^ 70" "0 < of_nat D * q" using Dpos q(2) by auto
  note E = r64.quotient_error [of "of_nat N" "of_nat D * q", OF _ z(2), folded x(1)]
  have xn: "0 \<le> x" using x(1) z(2) by simp
  have "\<bar>of_nat N / rnd (of_nat D * q)\<bar> \<le> 2 ^ 70" using E(1,2) x(2) by simp
  then have v: "fdiv (fOfInt (int N)) (fmul (fOfInt (int D)) (quota cpu)) = Fin (rnd (of_nat N / rnd (of_nat D * q)))"
    using N(2) D(2) q(1) z(1) E(1) by (simp add: fOfInt_small mkF_small)
  have err: "\<bar>rnd (of_nat N / rnd (of_nat D * q)) - x\<bar> \<le> 1 / 2 ^ 11" using E(3) x(2) by simp
  let ?u = "trunc (rnd (of_nat N / rnd (of_nat D * q)))"
  have b: "x - 1 - 1 / 2 ^ 11 < of_int ?u" "of_int ?u \<le> x + 1 / 2 ^ 11"
    using trunc_near [OF err xn] by simp_all
  have "0 \<le> ?u" using trunc_near_nonneg [OF err xn] by simp
  moreover have "(of_int ?u :: rat) \<le> of_int (2 ^ 64 - 1)" using b(2) x(2) by simp
  then have "?u \<le> 2 ^ 64 - 1" by (simp only: of_int_le_iff)
  ultimately have "usageOf (oorOf ce) tot system cpu = ?u"
    using ne by (simp add: usageOf_def n d v fToInt_def)
  then show ?thesis using t(1) s(1) b by (auto simp: cgroupUsage_def)
qed


definition demoFs :: fsys where
  "demoFs p =
     (if p = ''/proc/42/cgroup'' then Inr (''3:cpu,cpuacct:/docker'' @ [CHR 0x0A])
      else if p = ''/sys/fs/cgroup/cpuacct/cpuacct.usage'' then Inr (''30000000'' @ [CHR 0x0A])
      else if p = ''/proc/stat'' then Inr (''cpu  4 1 1 1 1 1 1 9'' @ [CHR 0x0A])
      else Inl ''no such file'')"

definition demoCpuEnv :: cpu_env where
  "demoCpuEnv = \<lparr>pidOf = 42, oorOf = \<lambda>_. 0, parseFloatOf = \<lambda>_. None, pscpuCounts = Inr 2,
     pscpuPercent = Inr [], pscpuInfo = Inr []\<rparr>"

lemma demo_total: "totalCPUUsage demoFs 42 = Inr 30000000"
proof -
  have "FormatInt 42 = ''42''" by (simp add: FormatInt_def showNat.simps digit_char_eval)
  then have "currentcGroup demoFs 42 = Inr [(''cpu,cpuacct'', ''/sys/fs/cgroup/cpu,cpuacct''),
      (''cpu'', ''/sys/fs/cgroup/cpu''), (''cpuacct'', ''/sys/fs/cgroup/cpuacct'')]"
    by (simp add: currentcGroup_def demoFs_def fullLines_def Let_def space_eval cgroupLine_def
      setAll_def gm_set_def pathJoin_def pathClean_def cgroupRootDir_def)
  moreover have "TrimSpace (''30000000'' @ [CHR 0x0A]) = ''30000000''" by (simp add: space_eval)
  ultimately show ?thesis
    by (simp add: totalCPUUsage_def CPUAcctUsage_def bindE_def cgroupFile_def gm_get_def pathJoin_def Let_def pathClean_def
      readFile_def demoFs_def parseUint_def ParseUint64_def is_digit_def digit_val_def)
qed

lemma demo_system: "systemCPUUsage demoFs = Inr (Inr 100000000)"
  by (simp add: systemCPUUsage_def demoFs_def fullLines_def Let_def space_eval ParseUint64_def
    is_digit_def digit_val_def clockTicksPerSecond_def)

theorem usage_correct_witness:
  "\<exists>u. cgroupUsage demoCpuEnv demoFs \<lparr>frequency = 0, quota = Fin 2, cores = 2, preSystem = 0, preTotal = 0\<rparr> =
     Inr (\<lparr>frequency = 0, quota = Fin 2, cores = 2, preSystem = 100000000, preTotal = 30000000\<rparr>, Inr u) \<and>
     299 \<le> u \<and> u \<le> 300"
proof -
  let ?c = "\<lparr>frequency = 0, quota = Fin 2, cores = 2, preSystem = 0, preTotal = 0\<rparr> :: cgroupCPU"
  have "\<exists>u. cgroupUsage demoCpuEnv demoFs ?c =
      Inr (?c\<lparr>preSystem := 100000000, preTotal := 30000000\<rparr>, Inr u) \<and>
      300 - 1 - 1 / 2 ^ 11 < (of_int u :: rat) \<and> of_int u \<le> (300 :: rat) + 1 / 2 ^ 11"
    by (rule usage_correct [where q = 2 and N = 60000000000 and D = 100000000])
      (simp_all add: demo_total demo_system demoCpuEnv_def)
  then obtain u where u: "cgroupUsage demoCpuEnv demoFs ?c =
      Inr (?c\<lparr>preSystem := 100000000, preTotal := 30000000\<rparr>, Inr u)"
      "300 - 1 - 1 / 2 ^ 11 < (of_int u :: rat)" "of_int u \<le> (300 :: rat) + 1 / 2 ^ 11" by blast
  have "of_int 298 < (of_int u :: rat)" "(of_int u :: rat) < of_int 301" using u(2,3) by simp_all
  then have "298 < u" "u < 301" by (simp_all only: of_int_less_iff)
  then show ?thesis using u(1) by auto
qed

end
