(* ===== verification/Web.thy ===== *)
theory Web
  imports GoStrings Client
begin

text \<open>
  The part of \<open>net/http\<close> the handlers use, requests and the writer of the response, and the helpers
  of \<open>src/util\<close> (\<open>other.go\<close>, \<open>system.go\<close>, \<open>ip.go\<close>). The parser of URLs, the file system, the
  network interfaces and the encoders are arguments.
\<close>

section \<open>Requests and responses\<close>

record request =
  rqMethod :: string
  rqUpgrade :: string
  rqOrigin :: string
  rqQuery :: "(string \<times> string) list"
  rqBody :: "string + bytes"

text \<open>\<open>Query().Get\<close> gives the first value of a key, or the empty string.\<close>

definition queryGet :: "request \<Rightarrow> string \<Rightarrow> string" where
  "queryGet rq k = (case map_of (rqQuery rq) k of None \<Rightarrow> [] | Some v \<Rightarrow> v)"

definition queryHas :: "request \<Rightarrow> string \<Rightarrow> bool" where
  "queryHas rq k \<longleftrightarrow> map_of (rqQuery rq) k \<noteq> None"

text \<open>
  The writer: the first status that is set counts, a write without a status sets 200, and headers
  that are set after the status are not sent.
\<close>

record respw =
  rwStatus :: "nat option"
  rwHeaders :: "(string, string) gomap"
  rwBody :: bytes

definition newWriter :: respw where
  "newWriter = \<lparr>rwStatus = None, rwHeaders = [], rwBody = []\<rparr>"

definition WriteHeader :: "nat \<Rightarrow> respw \<Rightarrow> respw" where
  "WriteHeader code w = (if rwStatus w = None then w\<lparr>rwStatus := Some code\<rparr> else w)"

definition rwWrite :: "bytes \<Rightarrow> respw \<Rightarrow> respw" where
  "rwWrite b w = (let w1 = WriteHeader 200 w in w1\<lparr>rwBody := rwBody w1 @ b\<rparr>)"

definition setHeader :: "string \<Rightarrow> string \<Rightarrow> respw \<Rightarrow> respw" where
  "setHeader k v w = (if rwStatus w = None then w\<lparr>rwHeaders := gm_set k v (rwHeaders w)\<rparr> else w)"

text \<open>The status the client sees when the handler has returned.\<close>

definition finalStatus :: "respw \<Rightarrow> nat" where
  "finalStatus w = (case rwStatus w of None \<Rightarrow> 200 | Some s \<Rightarrow> s)"

section \<open>The helpers\<close>

definition SetHeaderJson :: "respw \<Rightarrow> respw" where
  "SetHeaderJson w = setHeader ''Content-Type'' ''application/json; charset=utf-8'' w"

definition SetOriginAllowAll :: "respw \<Rightarrow> respw" where
  "SetOriginAllowAll w = setHeader ''Access-Control-Allow-Origin'' ''*'' w"

definition GetDomain :: "(string \<Rightarrow> string + string) \<Rightarrow> string \<Rightarrow> string" where
  "GetDomain parseHost uri = (case parseHost uri of Inl err \<Rightarrow> [] | Inr host \<Rightarrow> Split CHR '':'' host ! 0)"

definition GetVersionNum :: "string \<Rightarrow> int res" where
  "GetVersionNum ver =
     (let digs = Split CHR ''.'' ver
      in if length digs < 2 then Inl IndexOutOfRange
         else Inr (i64 (i64 (fst (Atoi (digs ! 0)) * 10) + fst (Atoi (digs ! 1)))))"

text \<open>
  \<open>WriteCustomStatusCode\<close> writes the header and the body of a close frame to the connection and does
  not look at the results; it does not close the connection.
\<close>

definition WriteCustomStatusCode :: "(nat \<Rightarrow> string \<Rightarrow> bytes \<times> bytes) \<Rightarrow> conn \<Rightarrow> nat \<Rightarrow> string \<Rightarrow> cworld \<Rightarrow> cworld" where
  "WriteCustomStatusCode closeFrame c code reason w =
     (case closeFrame code reason of (hdr, body) \<Rightarrow> w\<lparr>net := net w @ [RawWrite c hdr, RawWrite c body]\<rparr>)"

definition WriteVersion :: "(SignalVerResp \<Rightarrow> string + bytes) \<Rightarrow> int \<Rightarrow> respw \<Rightarrow> respw" where
  "WriteVersion marshal version w =
     (case marshal \<lparr>svAction = [], svVer = version\<rparr> of Inl err \<Rightarrow> w | Inr b \<Rightarrow> rwWrite b w)"

text \<open>\<open>os.Stat\<close> fails or not; the error says whether the file exists all the same.\<close>

datatype stat_result = StatOk | StatErr bool

definition Exists :: "(string \<Rightarrow> stat_result) \<Rightarrow> string \<Rightarrow> bool" where
  "Exists osStat path =
     (case osStat path of StatOk \<Rightarrow> True | StatErr isExist \<Rightarrow> if isExist then True else False)"

record ifaddr =
  isIPNet :: bool
  isLoopback :: bool
  isIPv4 :: bool
  ipString :: string

fun firstIP :: "ifaddr list \<Rightarrow> string res" where
  "firstIP [] = Inl (PanicValue ''cannot get internal ip'')"
| "firstIP (a # as) =
     (if isIPNet a \<and> \<not> isLoopback a then (if isIPv4 a then Inr (ipString a) else firstIP as) else firstIP as)"

definition GetInternalIP :: "string + ifaddr list \<Rightarrow> string res" where
  "GetInternalIP addrs = (case addrs of Inl err \<Rightarrow> Inr [] | Inr as \<Rightarrow> firstIP as)"

section \<open>Properties\<close>

lemma rwWrite_simps [simp]:
  "rwBody (rwWrite b w) = rwBody w @ b" "rwHeaders (rwWrite b w) = rwHeaders w"
  "rwStatus (rwWrite b w) = Some (finalStatus w)"
  by (auto simp: rwWrite_def WriteHeader_def Let_def finalStatus_def split: option.splits)

lemma WriteHeader_simps [simp]:
  "rwBody (WriteHeader c w) = rwBody w" "rwHeaders (WriteHeader c w) = rwHeaders w"
  "rwStatus w = None \<Longrightarrow> rwStatus (WriteHeader c w) = Some c"
  by (simp_all add: WriteHeader_def)

lemma setHeader_simps [simp]:
  "rwBody (setHeader k v w) = rwBody w" "rwStatus (setHeader k v w) = rwStatus w"
  by (simp_all add: setHeader_def)

text \<open>
  The version number is ten times the major plus the minor version, for every version of two or
  more parts; so it does not tell all versions apart, for example 1.10 and 2.0.
\<close>

theorem GetVersionNum_correct:
  assumes "a < 2 ^ 59" and "b < 2 ^ 59"
  shows "GetVersionNum (showNat a @ CHR ''.'' # showNat b @ CHR ''.'' # rest) = Inr (int (10 * a + b)) \<and>
    GetVersionNum (showNat a @ CHR ''.'' # showNat b) = Inr (int (10 * a + b)) \<and>
    GetVersionNum ''1.10'' = GetVersionNum ''2.0''"
proof -
  have d: "CHR ''.'' \<notin> set (showNat k)" for k using showNat_no_char by (simp add: is_digit_def)
  have at: "Atoi (showNat a) = (int a, None)" "Atoi (showNat b) = (int b, None)"
    using assms by (auto intro!: Atoi_showNat)
  have "i64 (i64 (int a * 10) + int b) = int a * 10 + int b"
    using assms by (simp add: i64_id in_i64_def)
  then have 1: "GetVersionNum (showNat a @ CHR ''.'' # showNat b @ CHR ''.'' # rest) = Inr (int (10 * a + b))"
      "GetVersionNum (showNat a @ CHR ''.'' # showNat b) = Inr (int (10 * a + b))"
    by (simp_all add: GetVersionNum_def Let_def Split_Cons Split_single d at)
  have "GetVersionNum ''1.10'' = Inr 20" "GetVersionNum ''2.0'' = Inr 20"
    by (simp_all add: GetVersionNum_def Atoi_def ParseInt64_def ParseUint64_def is_digit_def digit_val_def Let_def i64_def)
  then show ?thesis using 1 by simp
qed

theorem GetVersionNum_correct_witness: "GetVersionNum (showNat 4 @ CHR ''.'' # showNat 6 @ CHR ''.'' # ''3'') = Inr 46"
  using GetVersionNum_correct [of 4 6 "''3''"] by simp

text \<open>
  The address that is picked is the first one of an interface that is an IPv4 network and not the
  loopback; without one the program stops, and if the interfaces cannot be listed the address is
  empty.
\<close>

theorem GetInternalIP_correct:
  "GetInternalIP (Inr as) =
     (case filter (\<lambda>a. isIPNet a \<and> \<not> isLoopback a \<and> isIPv4 a) as of
        [] \<Rightarrow> Inl (PanicValue ''cannot get internal ip'')
      | a # _ \<Rightarrow> Inr (ipString a))"
proof -
  have "firstIP as = (case filter (\<lambda>a. isIPNet a \<and> \<not> isLoopback a \<and> isIPv4 a) as of
      [] \<Rightarrow> Inl (PanicValue ''cannot get internal ip'') | a # _ \<Rightarrow> Inr (ipString a))"
    by (induction as) auto
  then show ?thesis by (simp add: GetInternalIP_def)
qed

end
