(* ===== verification/Crypto.thy ===== *)
theory Crypto
  imports Prelude
begin

text \<open>
  The parts of Go's packages \<open>crypto/md5\<close>, \<open>crypto/hmac\<close> and \<open>encoding/hex\<close> that the check of a
  peer's token uses: the digest of RFC 1321, the keyed digest of RFC 2104 and lower-case
  hexadecimal digits. A message is shorter than \<open>2 ^ 61\<close> bytes, so that its length in bits fits into
  64 bits.
\<close>

unbundle bit_operations_syntax

section \<open>MD5\<close>

type_synonym w32 = "32 word"

definition md5K :: "w32 list" where
  "md5K = [0xd76aa478, 0xe8c7b756, 0x242070db, 0xc1bdceee, 0xf57c0faf, 0x4787c62a, 0xa8304613, 0xfd469501,
    0x698098d8, 0x8b44f7af, 0xffff5bb1, 0x895cd7be, 0x6b901122, 0xfd987193, 0xa679438e, 0x49b40821,
    0xf61e2562, 0xc040b340, 0x265e5a51, 0xe9b6c7aa, 0xd62f105d, 0x02441453, 0xd8a1e681, 0xe7d3fbc8,
    0x21e1cde6, 0xc33707d6, 0xf4d50d87, 0x455a14ed, 0xa9e3e905, 0xfcefa3f8, 0x676f02d9, 0x8d2a4c8a,
    0xfffa3942, 0x8771f681, 0x6d9d6122, 0xfde5380c, 0xa4beea44, 0x4bdecfa9, 0xf6bb4b60, 0xbebfbc70,
    0x289b7ec6, 0xeaa127fa, 0xd4ef3085, 0x04881d05, 0xd9d4d039, 0xe6db99e5, 0x1fa27cf8, 0xc4ac5665,
    0xf4292244, 0x432aff97, 0xab9423a7, 0xfc93a039, 0x655b59c3, 0x8f0ccc92, 0xffeff47d, 0x85845dd1,
    0x6fa87e4f, 0xfe2ce6e0, 0xa3014314, 0x4e0811a1, 0xf7537e82, 0xbd3af235, 0x2ad7d2bb, 0xeb86d391]"

definition md5S :: "nat list" where
  "md5S = concat (map (\<lambda>r. concat (replicate 4 r)) [[7, 12, 17, 22], [5, 9, 14, 20], [4, 11, 16, 23], [6, 10, 15, 21]])"

definition rotl32 :: "nat \<Rightarrow> w32 \<Rightarrow> w32" where
  "rotl32 k x = push_bit k x OR drop_bit (32 - k) x"

definition byteOf :: "nat \<Rightarrow> char" where
  "byteOf k = char_of (k mod 256)"

fun leBytes :: "nat \<Rightarrow> nat \<Rightarrow> bytes" where
  "leBytes 0 k = []"
| "leBytes (Suc j) k = byteOf k # leBytes j (k div 256)"

fun leNat :: "bytes \<Rightarrow> nat" where
  "leNat [] = 0"
| "leNat (b # bs) = of_char b + 256 * leNat bs"

fun chunks :: "nat \<Rightarrow> nat \<Rightarrow> 'a list \<Rightarrow> 'a list list" where
  "chunks 0 k xs = []"
| "chunks (Suc j) k xs = take k xs # chunks j k (drop k xs)"

definition md5Round :: "w32 list \<Rightarrow> nat \<Rightarrow> w32 \<times> w32 \<times> w32 \<times> w32 \<Rightarrow> w32 \<times> w32 \<times> w32 \<times> w32" where
  "md5Round M i st =
     (case st of (a, b, c, d) \<Rightarrow>
        let (f, g) =
          (if i < 16 then ((b AND c) OR (NOT b AND d), i)
           else if i < 32 then ((d AND b) OR (NOT d AND c), (5 * i + 1) mod 16)
           else if i < 48 then (b XOR c XOR d, (3 * i + 5) mod 16)
           else (c XOR (b OR NOT d), (7 * i) mod 16))
        in (d, b + rotl32 (md5S ! i) (f + a + md5K ! i + M ! g), b, c))"

definition md5Block :: "w32 \<times> w32 \<times> w32 \<times> w32 \<Rightarrow> bytes \<Rightarrow> w32 \<times> w32 \<times> w32 \<times> w32" where
  "md5Block st blk =
     (let M = map (\<lambda>ws. of_nat (leNat ws)) (chunks 16 4 blk)
      in case (st, fold (md5Round M) [0..<64] st) of
           ((a, b, c, d), (a', b', c', d')) \<Rightarrow> (a + a', b + b', c + c', d + d'))"

definition md5Pad :: "bytes \<Rightarrow> bytes" where
  "md5Pad m = m @ [byteOf 128] @ replicate ((119 - length m mod 64) mod 64) (byteOf 0) @ leBytes 8 (8 * length m)"

definition MD5 :: "bytes \<Rightarrow> bytes" where
  "MD5 m =
     (let p = md5Pad m
      in case foldl md5Block (0x67452301, 0xefcdab89, 0x98badcfe, 0x10325476) (chunks (length p div 64) 64 p) of
           (a, b, c, d) \<Rightarrow> leBytes 4 (unat a) @ leBytes 4 (unat b) @ leBytes 4 (unat c) @ leBytes 4 (unat d))"

section \<open>HMAC and hexadecimal digits\<close>

definition xorByte :: "nat \<Rightarrow> char \<Rightarrow> char" where
  "xorByte k c = byteOf ((of_char c :: nat) XOR k)"

definition HMAC_MD5 :: "bytes \<Rightarrow> bytes \<Rightarrow> bytes" where
  "HMAC_MD5 key m =
     (let k0 = (if 64 < length key then MD5 key else key);
          k = k0 @ replicate (64 - length k0) (byteOf 0)
      in MD5 (map (xorByte 0x5c) k @ MD5 (map (xorByte 0x36) k @ m)))"

definition hexDigit :: "nat \<Rightarrow> char" where
  "hexDigit d = ''0123456789abcdef'' ! d"

definition hexEncode :: "bytes \<Rightarrow> string" where
  "hexEncode bs = concat (map (\<lambda>b. [hexDigit ((of_char b :: nat) div 16), hexDigit ((of_char b :: nat) mod 16)]) bs)"

lemma length_leBytes [simp]: "length (leBytes j k) = j"
  by (induction j arbitrary: k) simp_all

lemma length_MD5 [simp]: "length (MD5 m) = 16"
  by (simp add: MD5_def Let_def split: prod.splits)

lemma length_HMAC [simp]: "length (HMAC_MD5 k m) = 16"
  by (simp add: HMAC_MD5_def Let_def)

lemma length_hexEncode [simp]: "length (hexEncode bs) = 2 * length bs"
  by (induction bs) (simp_all add: hexEncode_def)

text \<open>The digest pads to whole blocks, so no byte of the message is left out.\<close>

lemma md5Pad_blocks: "length (md5Pad m) mod 64 = 0"
proof -
  define r where "r = length m mod 64"
  have r: "length m = 64 * (length m div 64) + r" "r < 64" by (simp_all add: r_def)
  have "(119 - r) mod 64 = (if r < 56 then 55 - r else 119 - r)"
    using r(2) by (auto simp: mod_if)
  then have "\<exists>q. length m + (1 + ((119 - r) mod 64 + 8)) = 64 * q"
    using r by (intro exI [of _ "length m div 64 + (if r < 56 then 1 else 2)"]) auto
  then show ?thesis by (auto simp: md5Pad_def r_def)
qed

lemma hexDigit_ne: "d < 16 \<Longrightarrow> hexDigit d \<noteq> CHR ''-''"
proof -
  have "\<forall>d \<in> set [0..<16]. hexDigit d \<noteq> CHR ''-''" by code_simp
  then show "d < 16 \<Longrightarrow> hexDigit d \<noteq> CHR ''-''" by simp
qed

lemma hexEncode_no_minus: "CHR ''-'' \<notin> set (hexEncode bs)"
proof -
  have "(of_char b :: nat) div 16 < 16" for b
    using nat_of_char_less_256 [of b] by (simp add: less_mult_imp_div_less)
  then have "hexDigit ((of_char b :: nat) div 16) \<noteq> CHR ''-''" "hexDigit ((of_char b :: nat) mod 16) \<noteq> CHR ''-''" for b
    using hexDigit_ne by simp_all
  then show ?thesis by (auto simp: hexEncode_def dest: sym)
qed

end
