(* ===== verification/Stats.thy ===== *)
theory Stats
  imports Web Cpu Handler
begin

text \<open>
  The status pages and the load average of \<open>src/handler/stats.go\<close>. The pages read the hub of the
  clients, the hub of the nodes and the load; the load average \<open>G_CPU\<close> is an exponential moving
  average of the samples of theory Cpu, computed in floating point and truncated to an integer every
  half second. It decides whether the server accepts peers and messages.

  The theorems say that the average stays between the samples up to the truncation, that it settles
  at the samples from above and stops at most three units short from below, and what the pages
  answer.
\<close>

section \<open>The load average\<close>

definition HEALTH_CHECK_CPU_LIMIT :: int where
  "HEALTH_CHECK_CPU_LIMIT = 60"

definition decay :: f64 where
  "decay = mkF (7 / 10)"

text \<open>One tick of \<open>cpuproc\<close>: the new value of \<open>G_CPU\<close> from the old one and the sample.\<close>

definition cpuproc :: "(f64 \<Rightarrow> int) \<Rightarrow> int \<Rightarrow> int \<Rightarrow> int" where
  "cpuproc oor sampled prevCPU =
     fToInt64 oor (fadd (fmul (fOfInt prevCPU) decay) (fmul (fOfInt sampled) (fsub (Fin 1) decay)))"

fun cpuprocs :: "(f64 \<Rightarrow> int) \<Rightarrow> int list \<Rightarrow> int \<Rightarrow> int" where
  "cpuprocs oor [] g = g"
| "cpuprocs oor (u # us) g = cpuprocs oor us (cpuproc oor u g)"

definition dW :: rat where
  "dW = 6305039478318694 / 2 ^ 53"

lemma decay_eq: "decay = Fin dW"
proof -
  have "expo (7 / 10) = -1" by (rule expo_eq) (simp_all add: power_int_def)
  moreover have "roundEven (7 / 10 * 2 ^ 53) = 6305039478318694" by (rule roundEven_near) simp
  ultimately have "rnd (7 / 10) = dW" by (simp add: rnd_def Let_def dW_def power_int_def power_one_over)
  then show ?thesis by (simp add: decay_def mkF_def dW_def)
qed

lemma decay_rest: "fsub (Fin 1) decay = Fin (1 - dW)"
proof -
  have "expo (1 - dW) = -2" by (rule expo_eq) (simp_all add: power_int_def dW_def power_one_over)
  moreover have "(1 - dW) * 2 ^ 54 = of_int 5404319552844596" by (simp add: dW_def)
  then have "roundEven ((1 - dW) * 2 ^ 54) = 5404319552844596" by (metis roundEven_of_int)
  ultimately have "rnd (1 - dW) = 1 - dW" by (simp add: rnd_def Let_def dW_def power_int_def power_one_over)
  then show ?thesis by (simp add: fsub_def decay_eq mkF_def) (simp add: dW_def)
qed

lemma dW_bounds: "0 < dW" "dW < 1" "7 / 10 - 1 / 2 ^ 53 \<le> dW" "dW \<le> 7 / 10"
  by (simp_all add: dW_def)

text \<open>The value before the truncation is the exact mean up to a very small error.\<close>

lemma cpuproc_mean:
  assumes g: "0 \<le> g" "g \<le> 2 ^ 40" and u: "0 \<le> u" "u \<le> 2 ^ 40"
  obtains v :: rat where "cpuproc oor u g = trunc v" "\<bar>v - (of_int g * dW + of_int u * (1 - dW))\<bar> \<le> 1 / 2 ^ 11" "0 \<le> trunc v"
proof -
  have b: "0 \<le> (of_int k :: rat)" "(of_int k :: rat) \<le> 2 ^ 40" if "0 \<le> k" "k \<le> 2 ^ 40" for k :: int
    using that of_int_le_iff [of k "2 ^ 40", where 'a = rat] by simp_all
  let ?m = "of_int g * dW + of_int u * (1 - dW)"
  let ?v = "rnd (rnd (of_int g * dW) + rnd (of_int u * (1 - dW)))"
  have err: "\<bar>?v - ?m\<bar> \<le> 1 / 2 ^ 11"
    using r64.mean_error [OF b [OF g] b [OF u], of dW "1 - dW"] dW_bounds by simp
  have prod: "\<bar>of_int k * e\<bar> \<le> 2 ^ 40" if "0 \<le> k" "k \<le> 2 ^ 40" "0 \<le> e" "e \<le> 1" for k :: int and e :: rat
    using mult_mono [OF b(2) [OF that(1,2)] that(4)] b(1) [OF that(1,2)] that(3) by (simp add: abs_mult)
  have p: "\<bar>of_int g * dW\<bar> \<le> 2 ^ 40" "\<bar>of_int u * (1 - dW)\<bar> \<le> 2 ^ 40"
    using prod [OF g, of dW] prod [OF u, of "1 - dW"] dW_bounds by auto
  have "\<bar>rnd (of_int g * dW) + rnd (of_int u * (1 - dW))\<bar> \<le> 2 ^ 70"
    using r64.bounded [OF p(1)] r64.bounded [OF p(2)] by (simp add: abs_le_iff)
  then have f: "fadd (fmul (fOfInt g) decay) (fmul (fOfInt u) (fsub (Fin 1) decay)) = Fin ?v"
    using g u p by (simp add: fOfInt_small decay_rest [unfolded decay_eq] decay_eq mkF_small)
  have nn: "0 \<le> ?m" using b [OF g] b [OF u] dW_bounds by simp
  have le: "?m \<le> 2 ^ 41" using p by (simp add: abs_le_iff)
  have t: "0 \<le> trunc ?v" using trunc_near_nonneg [OF err nn] by simp
  have "(of_int (trunc ?v) :: rat) \<le> of_int (2 ^ 63 - 1)" using trunc_near(2) [OF err nn] le by simp
  then have "trunc ?v \<le> 2 ^ 63 - 1" by (simp only: of_int_le_iff)
  then have "cpuproc oor u g = trunc ?v" using t by (simp add: cpuproc_def f fToInt_def)
  then show thesis using err t by (rule that)
qed

text \<open>One tick: the bounds, and the step towards the sample from above and from below.\<close>

text \<open>An integer bound on the exact mean is a bound on the new average.\<close>

lemma cpuproc_cmp:
  assumes g: "0 \<le> g" "g \<le> 2 ^ 40" and u: "0 \<le> u" "u \<le> 2 ^ 40" and x: "x = of_int g * dW + of_int u * (1 - dW)"
  shows "x + 1 / 2 ^ 11 < of_int k \<Longrightarrow> cpuproc oor u g < k" "of_int k \<le> x - 1 / 2 ^ 11 \<Longrightarrow> k \<le> cpuproc oor u g"
    "0 \<le> cpuproc oor u g"
proof -
  obtain v where v: "cpuproc oor u g = trunc v" "\<bar>v - (of_int g * dW + of_int u * (1 - dW))\<bar> \<le> 1 / 2 ^ 11" "0 \<le> trunc v"
    by (rule cpuproc_mean [OF g u, of oor])
  have nn: "0 \<le> x" using g u dW_bounds by (simp add: x)
  note T = trunc_near [OF v(2) [folded x] nn, folded v(1)]
  show "0 \<le> cpuproc oor u g" using v by simp
  show "cpuproc oor u g < k" if "x + 1 / 2 ^ 11 < of_int k"
  proof -
    have "(of_int (cpuproc oor u g) :: rat) < of_int k" using T(2) that by (rule le_less_trans) simp
    then show ?thesis by (simp only: of_int_less_iff)
  qed
  show "k \<le> cpuproc oor u g" if "of_int k \<le> x - 1 / 2 ^ 11"
  proof -
    have "of_int (k - 1) < (of_int (cpuproc oor u g) :: rat)" using T(1) that by simp
    then show ?thesis unfolding of_int_less_iff by simp
  qed
qed

lemma mean_less: "u < g \<Longrightarrow> of_int g * dW + of_int u * (1 - dW) + 1 / 2 ^ 11 < of_int g" for u g :: int
proof -
  assume "u < g"
  then have "of_int (u - g) \<le> (of_int (-1) :: rat)" unfolding of_int_le_iff by simp
  then have "(of_int u - of_int g) * (1 - dW) \<le> -1 * (1 - dW)" using dW_bounds by (intro mult_right_mono) auto
  then show ?thesis using dW_bounds by (simp add: algebra_simps)
qed

lemma mean_greater: "g + 3 < u \<Longrightarrow> of_int (g + 1) \<le> of_int g * dW + of_int u * (1 - dW) - 1 / 2 ^ 11" for u g :: int
proof -
  assume "g + 3 < u"
  then have "of_int 4 \<le> (of_int (u - g) :: rat)" unfolding of_int_le_iff by simp
  then have "4 * (1 - dW) \<le> (of_int u - of_int g) * (1 - dW)" using dW_bounds by (intro mult_right_mono) auto
  then show ?thesis using dW_bounds by (simp add: algebra_simps)
qed

lemma mean_floor:
  assumes k: "1 \<le> k" and lo: "lo - k \<le> g" "lo \<le> u"
  shows "of_int (lo - k) \<le> of_int g * dW + of_int u * (1 - dW) - 1 / 2 ^ 11"
proof -
  have "(of_int (lo - k) :: rat) \<le> of_int g" "(of_int lo :: rat) \<le> of_int u" using lo by (simp_all only: of_int_le_iff)
  then have "of_int (lo - k) * dW + of_int lo * (1 - dW) \<le> of_int g * dW + of_int u * (1 - dW)"
    using dW_bounds by (intro add_mono mult_right_mono) auto
  then have "of_int lo - of_int k * dW \<le> of_int g * dW + of_int u * (1 - dW)" by (simp add: algebra_simps)
  moreover have "1 * (1 - dW) \<le> of_int k * (1 - dW)" using k dW_bounds by (intro mult_right_mono) auto
  ultimately show ?thesis using dW_bounds by (simp add: algebra_simps)
qed

lemma mean_max: "of_int g * dW + of_int u * (1 - dW) \<le> (of_int (max g u) :: rat)" for u g :: int
proof -
  have "(of_int g :: rat) \<le> of_int (max g u)" "(of_int u :: rat) \<le> of_int (max g u)" by (simp_all only: of_int_le_iff max.cobounded1 max.cobounded2)
  then have "of_int g * dW + of_int u * (1 - dW) \<le> of_int (max g u) * dW + of_int (max g u) * (1 - dW)"
    using dW_bounds by (intro add_mono mult_right_mono) auto
  then show ?thesis by (simp add: algebra_simps)
qed

lemma cpuproc_step:
  assumes g: "0 \<le> g" "g \<le> 2 ^ 40" and u: "0 \<le> u" "u \<le> 2 ^ 40"
  shows "0 \<le> cpuproc oor u g" "cpuproc oor u g \<le> max g u"
    "u < g \<Longrightarrow> cpuproc oor u g < g" "g + 3 < u \<Longrightarrow> g < cpuproc oor u g"
    "k \<le> 3 \<Longrightarrow> 1 \<le> k \<Longrightarrow> lo - k \<le> g \<Longrightarrow> lo \<le> u \<Longrightarrow> lo - k \<le> cpuproc oor u g"
proof -
  note C = cpuproc_cmp [OF g u refl, where oor = oor]
  show "0 \<le> cpuproc oor u g" by (rule C(3))
  have "of_int g * dW + of_int u * (1 - dW) + 1 / 2 ^ 11 < (of_int (max g u + 1) :: rat)" using mean_max [of g u] by simp
  from C(1) [OF this] show "cpuproc oor u g \<le> max g u" by simp
  show "cpuproc oor u g < g" if "u < g" by (rule C(1) [OF mean_less [OF that]])
  show "g < cpuproc oor u g" if "g + 3 < u" using C(2) [OF mean_greater [OF that]] by simp
  show "lo - k \<le> cpuproc oor u g" if "1 \<le> k" "lo - k \<le> g" "lo \<le> u" by (rule C(2) [OF mean_floor [OF that]])
qed


text \<open>
  C26: The load average follows the load: whatever the rounding does, when all samples of a period are
  between two bounds, then after as many ticks as the average was outside of them it is not above
  the upper bound and at most three units below the lower one, and it stays there; it is never
  negative and never above both the start and the samples.
\<close>

theorem load_average_settles:
  assumes g: "0 \<le> g" "g \<le> 2 ^ 40" and b: "0 \<le> lo" "hi \<le> 2 ^ 40"
    and us: "\<forall>u \<in> set us. lo \<le> u \<and> u \<le> hi" and len: "g - hi \<le> int (length us)" "lo - g \<le> int (length us)"
  shows "lo - 3 \<le> cpuprocs oor us g \<and> cpuprocs oor us g \<le> hi \<and>
    0 \<le> cpuprocs oor us g \<and> cpuprocs oor us g \<le> max g hi"
proof -
  have "min (lo - 3) (g + int (length us)) \<le> cpuprocs oor us g \<and> cpuprocs oor us g \<le> max hi (g - int (length us)) \<and>
      0 \<le> cpuprocs oor us g"
    using g us
  proof (induction us arbitrary: g)
    case (Cons u us)
    have u: "0 \<le> u" "u \<le> hi" "lo \<le> u" "u \<le> 2 ^ 40" using Cons.prems(3) b by auto
    note S = cpuproc_step [OF Cons.prems(1,2) u(1,4), where oor = oor]
    let ?g = "cpuproc oor u g"
    have g': "0 \<le> ?g" "?g \<le> 2 ^ 40" using S(1,2) Cons.prems u by auto
    have up: "max hi (?g - int (length us)) \<le> max hi (g - int (length (u # us)))"
      using S(2,3) u by (cases "g \<le> hi") auto
    have "min (lo - 3) (g + 1) \<le> ?g"
      using S(4) S(5) [where k = 3 and lo = lo] u by (cases "lo - 3 \<le> g") auto
    then have "min (lo - 3) (g + int (length (u # us))) \<le> min (lo - 3) (?g + int (length us))" by auto
    moreover have "\<forall>u \<in> set us. lo \<le> u \<and> u \<le> hi" using Cons.prems(3) by simp
    ultimately show ?case using Cons.IH [OF g'] up by fastforce
  qed auto
  then show ?thesis using len by auto
qed

theorem load_average_settles_witness:
  "297 \<le> cpuprocs (\<lambda>_. 0) (replicate 700 300) 900 \<and> cpuprocs (\<lambda>_. 0) (replicate 700 300) 900 \<le> 300"
  using load_average_settles [of 900 300 300 "replicate 700 300" "\<lambda>_. 0"] by simp


section \<open>The pages\<close>

record CertInfo =
  certName :: string
  certExpireAt :: int

record SignalInfo =
  siVersion :: string
  CurrentConnections :: int
  TotalConnections :: int
  NumInstance :: int
  RateLimit :: int
  SecurityEnabled :: bool
  NumGoroutine :: int
  NumPerMap :: "nat list"
  CpuUsage :: int
  RedisConnected :: bool
  InternalIp :: string
  CertInfos :: "CertInfo list"

definition checkStatsToken :: "string \<Rightarrow> request \<Rightarrow> bool" where
  "checkStatsToken StatsToken rq = (if StatsToken = [] then True else queryGet rq ''token'' = StatsToken)"

definition HealthCheck :: "int \<Rightarrow> respw \<Rightarrow> respw" where
  "HealthCheck G_CPU w =
     (let cpuUsage = G_CPU sdiv 10
      in if HEALTH_CHECK_CPU_LIMIT \<le> cpuUsage
         then rwWrite (''service overloaded, cpu '' @ FormatInt cpuUsage) (WriteHeader 503 w)
         else rwWrite (''service normal, cpu '' @ FormatInt cpuUsage) (WriteHeader 200 w))"

text \<open>
  \<open>StatsHandler\<close> updates the value \<open>info\<close> that its closure keeps; \<open>marshal\<close> is the encoder, \<open>goroutines\<close>
  the number the runtime reports and \<open>addrs\<close> the interfaces of the machine.
\<close>

definition StatsHandler ::
    "(SignalInfo \<Rightarrow> string + bytes) \<Rightarrow> string \<Rightarrow> CertInfo list \<Rightarrow> int \<Rightarrow> string + ifaddr list \<Rightarrow> int \<Rightarrow>
     'x sys \<Rightarrow> request \<Rightarrow> SignalInfo \<Rightarrow> respw \<Rightarrow> (SignalInfo \<times> respw) res" where
  "StatsHandler marshal token certs goroutines addrs G_CPU st rq info w =
     (if \<not> checkStatsToken token rq then Inr (info, WriteHeader 403 w)
      else
        (let cur = (if IsAlive (rds (hb st)) then GetClientCount (hb st) else 0);
             info1 = info\<lparr>CertInfos := certs, NumGoroutine := goroutines, NumPerMap := GetClientNumPerMap (hb st),
               RedisConnected := IsAlive (rds (hb st)), CurrentConnections := cur,
               TotalConnections := i64 (cur + GetTotalNumClient (nh st)),
               NumInstance := i64 (GetNumNode (nh st) + 1), CpuUsage := G_CPU sdiv 10\<rparr>
         in case GetInternalIP addrs of
              Inl p \<Rightarrow> Inl p
            | Inr ip \<Rightarrow>
                (let info2 = info1\<lparr>InternalIp := ip\<rparr>; w1 = SetOriginAllowAll w
                 in case marshal info2 of
                      Inl err \<Rightarrow> Inr (info2, WriteHeader 500 w1)
                    | Inr b \<Rightarrow> Inr (info2, rwWrite b w1))))"

definition VersionHandler :: "string \<Rightarrow> string \<Rightarrow> request \<Rightarrow> respw \<Rightarrow> respw" where
  "VersionHandler token version rq w =
     (if \<not> checkStatsToken token rq then WriteHeader 403 w else rwWrite version (SetOriginAllowAll w))"

definition CountHandler :: "string \<Rightarrow> 'x sys \<Rightarrow> request \<Rightarrow> respw \<Rightarrow> respw" where
  "CountHandler token st rq w =
     (if \<not> checkStatsToken token rq then WriteHeader 403 w
      else (let w1 = SetOriginAllowAll w
            in if IsAlive (rds (hb st)) then rwWrite (FormatInt (GetClientCount (hb st))) w1 else rwWrite ''0'' w1))"

definition TotalCountHandler :: "string \<Rightarrow> 'x sys \<Rightarrow> request \<Rightarrow> respw \<Rightarrow> respw" where
  "TotalCountHandler token st rq w =
     (if \<not> checkStatsToken token rq then WriteHeader 403 w
      else rwWrite (FormatInt (i64 (GetClientCount (hb st) + GetTotalNumClient (nh st)))) (SetOriginAllowAll w))"

text \<open>The status of a page without a text, and what \<open>GetClientCount\<close> counts.\<close>

lemma forbidden:
  assumes "token \<noteq> []" "queryGet rq ''token'' \<noteq> token"
  shows "\<not> checkStatsToken token rq"
  using assms by (simp add: checkStatsToken_def)

lemma GetClientCount_exact:
  assumes "hub_ok h" "int (card (dom (GetClient h))) < 2 ^ 63"
  shows "GetClientCount h = int (card (dom (GetClient h)))"
proof -
  have m: "cmap_ok (Clients h)" using assms(1) by (simp add: hub_ok_def)
  have "CountNoLock (Clients h) = card (dom (GetClient h))"
    using cm.count_card [OF m] by (simp add: GetClient_def [abs_def])
  then show ?thesis using assms(2) by (simp add: GetClientCount_def i64_id in_i64_def)
qed




end
