(* ===== verification/Server.thy ===== *)
theory Server
  imports RateLimit Crypto Stats
begin

text \<open>
  The server of \<open>src/main.go\<close>: the configuration, the checks every request goes through, the three
  ways a peer talks to the server (POST, long polling, websocket), the reading goroutine of a
  websocket, the removal of expired clients and the periodic report to Redis. A request runs on the
  whole state of the node; \<open>pollingHandler\<close> can wait for a message, so it has two parts, and so has
  \<open>wsHandler\<close>, whose reading goroutine runs by itself.
\<close>

section \<open>State and environment\<close>

definition VERSION :: string where
  "VERSION = ''4.6.3''"

definition CHECK_CLIENT_INTERVAL :: int where
  "CHECK_CLIENT_INTERVAL = 6 * 60"

definition KEEP_LIVE_INTERVAL :: int where
  "KEEP_LIVE_INTERVAL = 7"

definition REJECT_JOIN_CPU_Threshold :: int where
  "REJECT_JOIN_CPU_Threshold = 720"

definition REJECT_MSG_CPU_Threshold :: int where
  "REJECT_MSG_CPU_Threshold = 770"

record portTLS =
  Port :: string
  Cert :: string
  Key :: string

record config =
  limitEnabled :: bool
  limitRate :: int
  securityEnabled :: bool
  maxTimeStampAge :: int
  securityToken :: string
  statsEnabled :: bool
  StatsToken :: string

record 'x server =
  sy :: "'x sys"
  conf :: config
  limiter :: "bucket option"
  G_CPU :: int

text \<open>
  What is outside of the program: the environment of the handlers, the choice of \<open>sync.Pool\<close>, the
  clock in nanoseconds, the decoders and the encoder of the version message, the close frames and
  the replies of the websocket library to control messages. The last field is the state in which a
  handler that panics leaves the server.
\<close>

record ('x, 'd) senv =
  sE :: "('x, 'd) env"
  sPick :: nat
  sNow :: int
  sUnmarshal :: "bytes \<Rightarrow> string + 'd SignalMsg"
  sUnmarshalList :: "bytes \<Rightarrow> string + 'd SignalMsg list"
  sVerMarshal :: "SignalVerResp \<Rightarrow> string + bytes"
  sCloseFrame :: "nat \<Rightarrow> string \<Rightarrow> bytes \<times> bytes"
  sControl :: "netev list \<Rightarrow> conn \<Rightarrow> bytes \<Rightarrow> netev list"
  sCrashed :: "'x server \<Rightarrow> 'x server"

definition updHb :: "('x hub \<Rightarrow> 'x hub) \<Rightarrow> 'x server \<Rightarrow> 'x server" where
  "updHb f s = s\<lparr>sy := (sy s)\<lparr>hb := f (hb (sy s))\<rparr>\<rparr>"

definition updCw :: "(cworld \<Rightarrow> cworld) \<Rightarrow> 'x server \<Rightarrow> 'x server" where
  "updCw f s = updHb (\<lambda>h. h\<lparr>cw := f (cw h)\<rparr>) s"

abbreviation cwOf :: "'x server \<Rightarrow> cworld" where
  "cwOf s \<equiv> cw (hb (sy s))"

abbreviation cliOf :: "'x server \<Rightarrow> cref \<Rightarrow> client" where
  "cliOf s r \<equiv> obj (cwOf s) r"

section \<open>Configuration and start\<close>

record viper =
  GetBool :: "string \<Rightarrow> bool"
  viperInt64 :: "string \<Rightarrow> int"
  GetString :: "string \<Rightarrow> string"

definition setupConfigFromViper :: "viper \<Rightarrow> 'x server \<Rightarrow> 'x server" where
  "setupConfigFromViper v s = s\<lparr>conf :=
     \<lparr>limitEnabled = GetBool v ''ratelimit.enable'', limitRate = viperInt64 v ''ratelimit.max_rate'',
      securityEnabled = GetBool v ''security.enable'', maxTimeStampAge = viperInt64 v ''security.maxTimeStampAge'',
      securityToken = GetString v ''security.token'', statsEnabled = GetBool v ''stats.enable'',
      StatsToken = GetString v ''stats.token''\<rparr>\<rparr>"

text \<open>
  The address under which other nodes know this one. The verb \<open>%s\<close> prints a struct of strings as its
  fields between braces.
\<close>

definition printTLS :: "portTLS \<Rightarrow> string" where
  "printTLS p = ''{'' @ Port p @ '' '' @ Cert p @ '' '' @ Key p @ ''}''"

definition selfAddress :: "string \<Rightarrow> string list \<Rightarrow> portTLS list \<Rightarrow> string" where
  "selfAddress selfIp signalPorts signalPortsTLS =
     (case signalPorts of
        p # _ \<Rightarrow> selfIp @ '':'' @ p
      | [] \<Rightarrow> (case signalPortsTLS of t # _ \<Rightarrow> selfIp @ '':'' @ printTLS t | [] \<Rightarrow> selfIp))"

text \<open>The start of \<open>main\<close>: the limiter is made here and only here, and the security settings are checked.\<close>

definition startMain :: "int \<Rightarrow> 'x server \<Rightarrow> 'x server res" where
  "startMain now s =
     (let c = conf s;
          s1 = (if limitEnabled c
                then s\<lparr>limiter := Some (NewBucketWithQuantum 1000000000 (limitRate c) (limitRate c) now)\<rparr> else s)
      in if securityEnabled c \<and> (maxTimeStampAge c = 0 \<or> securityToken c = [])
         then Inl (PanicValue ''maxTimeStampAge or token is empty when security on'')
         else if securityEnabled c \<and> 8 < length (securityToken c)
         then Inl (PanicValue ''security token is larger than 8'')
         else Inr s1)"

text \<open>
  The ports that are served with TLS and the certificates whose
  expiry the status page shows, with the reading, decoding and parsing of a certificate as argument;
  and the pages that are registered.
\<close>

definition tlsPorts :: "(string \<Rightarrow> stat_result) \<Rightarrow> portTLS list \<Rightarrow> portTLS list" where
  "tlsPorts osStat ps = filter (\<lambda>p. Port p \<noteq> [] \<and> Exists osStat (Cert p) \<and> Exists osStat (Key p)) ps"

fun collectCerts :: "(string \<Rightarrow> string + CertInfo) \<Rightarrow> portTLS list \<Rightarrow> CertInfo list" where
  "collectCerts readCert [] = []"
| "collectCerts readCert (p # ps) =
     (case readCert (Cert p) of Inl err \<Rightarrow> collectCerts readCert ps | Inr info \<Rightarrow> info # collectCerts readCert ps)"

datatype page = CommonPage | CountPage | TotalCountPage | VersionPage | InfoPage SignalInfo | HealthPage

definition startInfo :: "config \<Rightarrow> SignalInfo" where
  "startInfo c = \<lparr>siVersion = VERSION, CurrentConnections = 0, TotalConnections = 0, NumInstance = 0,
     RateLimit = (if limitEnabled c then limitRate c else 0), SecurityEnabled = securityEnabled c, NumGoroutine = 0,
     NumPerMap = [], CpuUsage = 0, RedisConnected = False, InternalIp = [], CertInfos = []\<rparr>"

definition routes :: "config \<Rightarrow> (string \<times> page) list" where
  "routes c =
     [(''/ws'', CommonPage), (''/wss'', CommonPage), (''/'', CommonPage)] @
     (if statsEnabled c
      then [(''/count'', CountPage), (''/total_count'', TotalCountPage), (''/version'', VersionPage),
            (''/info'', InfoPage (startInfo c))] else []) @
     [(''/health_check'', HealthPage)]"

section \<open>The checks\<close>

definition checkToken :: "config \<Rightarrow> int \<Rightarrow> string \<Rightarrow> string \<Rightarrow> bool" where
  "checkToken c now pid queryToken =
     (let token = Split CHR ''-'' queryToken
      in if length token < 2 then False
         else
           (let sign = token ! 0; tsStr = token ! 1
            in case ParseInt64 tsStr of
                 (ts, Some err) \<Rightarrow> False
               | (ts, None) \<Rightarrow>
                   if ts < i64 (now - maxTimeStampAge c) \<or> i64 (now + maxTimeStampAge c) < ts then False
                   else (let realSign = take 8 (hexEncode (HMAC_MD5 (securityToken c) (tsStr @ pid)))
                         in sign = realSign)))"

definition commonCheck :: "('x, 'd) senv \<Rightarrow> 'x server \<Rightarrow> ('x server \<times> bool) outcome" where
  "commonCheck S s =
     (if REJECT_JOIN_CPU_Threshold < G_CPU s then Ret (s, False)
      else if \<not> IsAlive (rds (hb (sy s))) then Ret (s, False)
      else if limitEnabled (conf s) then
        (case limiter s of
           None \<Rightarrow> Panics NilDereference
         | Some tb \<Rightarrow>
             obind (liftR (TakeAvailable tb (sNow S) 1)) (\<lambda>(tb1, got). Ret (s\<lparr>limiter := Some tb1\<rparr>, got \<noteq> 0)))
      else Ret (s, True))"

definition authorized :: "('x, 'd) senv \<Rightarrow> request \<Rightarrow> 'x server \<Rightarrow> bool" where
  "authorized S rq s \<longleftrightarrow>
     \<not> (securityEnabled (conf s) \<and>
        \<not> checkToken (conf s) (eUnix (sE S)) (queryGet rq ''id'') (queryGet rq ''token''))"

definition badId :: "string \<Rightarrow> bool" where
  "badId pid \<longleftrightarrow> pid = [] \<or> length pid < 6"

text \<open>\<open>client.NewPollingPeerClient\<close> followed by \<open>hub.DoRegister\<close>, and the same for a websocket.\<close>

definition joinPolling :: "('x, 'd) senv \<Rightarrow> string \<Rightarrow> 'x server \<Rightarrow> cref \<times> 'x server" where
  "joinPolling S pid s =
     (case NewPollingPeerClient (sPick S) (eUnix (sE S)) pid (cwOf s) of
        (r, w) \<Rightarrow> (r, updHb (\<lambda>h. DoRegister (eApi (sE S)) r (h\<lparr>cw := w\<rparr>)) s))"

definition joinWs :: "('x, 'd) senv \<Rightarrow> string \<Rightarrow> conn \<Rightarrow> 'x server \<Rightarrow> cref \<times> 'x server" where
  "joinWs S pid c s =
     (case NewWebsocketPeerClient (sPick S) (eUnix (sE S)) pid c (cwOf s) of
        (r, w) \<Rightarrow> (r, updHb (\<lambda>h. DoRegister (eApi (sE S)) r (h\<lparr>cw := w\<rparr>)) s))"

section \<open>POST\<close>

fun runHandlers :: "('x, 'd) env \<Rightarrow> 'd handler list \<Rightarrow> 'x sys \<Rightarrow> 'x sys outcome" where
  "runHandlers E [] st = Ret st"
| "runHandlers E (hdr # hdrs) st = obind (Handle E hdr st) (runHandlers E hdrs)"

definition postBody :: "('x, 'd) senv \<Rightarrow> request \<Rightarrow> cref \<Rightarrow> 'x server \<Rightarrow> respw \<Rightarrow> ('x server \<times> respw) outcome" where
  "postBody S rq r s w =
     (case rqBody rq of
        Inl err \<Rightarrow> Ret (s, WriteHeader 400 w)
      | Inr b \<Rightarrow>
          (case NewPostHandler (sUnmarshalList S) b r of
             Inl err \<Rightarrow> Ret (s, w)
           | Inr hdrs \<Rightarrow> obind (runHandlers (sE S) hdrs (sy s)) (\<lambda>st. Ret (s\<lparr>sy := st\<rparr>, w))))"

definition versionNum :: int where
  "versionNum = (case GetVersionNum VERSION of Inl p \<Rightarrow> 0 | Inr k \<Rightarrow> k)"

definition postHandler :: "('x, 'd) senv \<Rightarrow> request \<Rightarrow> 'x server \<Rightarrow> respw \<Rightarrow> ('x server \<times> respw) outcome" where
  "postHandler S rq s w =
     obind (commonCheck S s) (\<lambda>(s1, ok).
       if \<not> ok then Ret (s1, WriteHeader 503 w)
       else
         (let pid = queryGet rq ''id''; isHello = queryHas rq ''hello''
          in if badId pid then Ret (s1, WriteHeader 401 w)
             else if \<not> authorized S rq s1 then Ret (s1, WriteHeader 401 w)
             else case GetClient (hb (sy s1)) pid of
                    Some r \<Rightarrow> if \<not> IsPolling (cliOf s1 r) then Ret (s1, WriteHeader 409 w) else postBody S rq r s1 w
                  | None \<Rightarrow>
                      (case joinPolling S pid s1 of
                         (r, s2) \<Rightarrow>
                           if isHello then Ret (s2, WriteVersion (sVerMarshal S) versionNum w)
                           else postBody S rq r s2 w)))"


section \<open>Long polling\<close>

text \<open>
  The loop over the messages that were in the queue when the length was read; the queue can have
  changed since then, because another request of the same peer may read from it.
\<close>

fun drain :: "nat \<Rightarrow> bytes chan \<Rightarrow> (bytes list \<times> bytes chan) outcome" where
  "drain 0 q = Ret ([], q)"
| "drain (Suc i) q =
     (case chan_recv q of
        Received m q1 \<Rightarrow> obind (drain i q1) (\<lambda>(ms, q2). Ret (m # ms, q2))
      | RecvClosed \<Rightarrow> Ret ([], q)
      | RecvBlocks \<Rightarrow> Blocks)"

text \<open>The body: a comma after every message, and the last byte overwritten by the closing bracket.\<close>

definition pollBody :: "bytes list \<Rightarrow> bytes" where
  "pollBody ms = butlast (''['' @ concat (map (\<lambda>m. m @ '','') ms)) @ '']''"

definition setQueue :: "cref \<Rightarrow> bytes chan \<Rightarrow> 'x server \<Rightarrow> 'x server" where
  "setQueue r q s = updCw (setObj r ((cliOf s r)\<lparr>MsgQueue := Some q\<rparr>)) s"

definition queueLen :: "client \<Rightarrow> nat" where
  "queueLen c = (case MsgQueue c of None \<Rightarrow> 0 | Some q \<Rightarrow> chan_len q)"

definition drainQueue :: "nat \<Rightarrow> cref \<Rightarrow> 'x server \<Rightarrow> respw \<Rightarrow> ('x server \<times> respw) outcome" where
  "drainQueue msgLen r s w =
     (case MsgQueue (cliOf s r) of
        None \<Rightarrow> Blocks
      | Some q \<Rightarrow> obind (drain msgLen q) (\<lambda>(ms, q1). Ret (setQueue r q1 s, rwWrite (pollBody ms) (SetHeaderJson w))))"

datatype 'x poll = Answered "'x server" respw | Waiting "'x server" respw cref

definition pollQueue :: "('x, 'd) senv \<Rightarrow> cref \<Rightarrow> 'x server \<Rightarrow> respw \<Rightarrow> 'x poll outcome" where
  "pollQueue S r s w =
     (let msgLen = queueLen (cliOf s r)
      in if 0 < msgLen then obind (drainQueue msgLen r s w) (\<lambda>(s1, w1). Ret (Answered s1 w1))
         else Ret (Waiting (updCw (UpdateTs (eUnix (sE S)) r) s) w r))"

definition pollingHandler :: "('x, 'd) senv \<Rightarrow> request \<Rightarrow> 'x server \<Rightarrow> respw \<Rightarrow> 'x poll outcome" where
  "pollingHandler S rq s w =
     obind (commonCheck S s) (\<lambda>(s1, ok).
       if \<not> ok then Ret (Answered s1 (WriteHeader 503 w))
       else
         (let pid = queryGet rq ''id''
          in if badId pid then Ret (Answered s1 (WriteHeader 401 w))
             else if \<not> authorized S rq s1 then Ret (Answered s1 (WriteHeader 401 w))
             else case GetClient (hb (sy s1)) pid of
                    Some r \<Rightarrow>
                      if \<not> IsPolling (cliOf s1 r) then Ret (Answered s1 (WriteHeader 409 w)) else pollQueue S r s1 w
                  | None \<Rightarrow> (case joinPolling S pid s1 of (r, s2) \<Rightarrow> pollQueue S r s2 w)))"

text \<open>
  What ends the waiting: 120 seconds, a message or the closing of the queue, or the peer goes away.
  The state is the one at that time; \<open>Blocks\<close> means that the event has not happened.
\<close>

datatype poll_event = PollTimeout | PollMsg | PollGone

definition leave :: "('x, 'd) senv \<Rightarrow> string \<Rightarrow> cref \<Rightarrow> 'x server \<Rightarrow> 'x server outcome" where
  "leave S pid r s =
     (case DoUnregister (eApi (sE S)) pid (hb (sy s)) of
        (h, False) \<Rightarrow> Ret (updHb (\<lambda>_. h) s)
      | (h, True) \<Rightarrow> obind (Close (eWs (sE S)) r (cw h)) (\<lambda>(w, _). Ret (updHb (\<lambda>_. h\<lparr>cw := w\<rparr>) s)))"

definition pollingResume ::
    "('x, 'd) senv \<Rightarrow> poll_event \<Rightarrow> string \<Rightarrow> cref \<Rightarrow> 'x server \<Rightarrow> respw \<Rightarrow> ('x server \<times> respw) outcome" where
  "pollingResume S ev pid r s w =
     (case ev of
        PollTimeout \<Rightarrow> Ret (s, w)
      | PollMsg \<Rightarrow>
          (case MsgQueue (cliOf s r) of
             None \<Rightarrow> Blocks
           | Some q \<Rightarrow>
               (case chan_recv q of
                  Received m q1 \<Rightarrow> Ret (setQueue r q1 s, rwWrite (''['' @ m @ '']'') (SetHeaderJson w))
                | RecvClosed \<Rightarrow> Ret (s, w)
                | RecvBlocks \<Rightarrow> Blocks))
      | PollGone \<Rightarrow>
          if IsPolling (cliOf s r) then obind (leave S pid r s) (\<lambda>s1. Ret (s1, w)) else Ret (s, w))"

section \<open>Websockets\<close>

text \<open>The messages that wait in the polling queue are sent over the new connection; errors are ignored.\<close>

fun sendEach :: "ws_env \<Rightarrow> cref \<Rightarrow> nat \<Rightarrow> cworld \<Rightarrow> cworld outcome" where
  "sendEach env r 0 w = Ret w"
| "sendEach env r (Suc i) w =
     (case MsgQueue (obj w r) of
        None \<Rightarrow> Blocks
      | Some q \<Rightarrow>
          (case chan_recv q of
             Received m q1 \<Rightarrow>
               obind (SendDataWs env r m (setObj r ((obj w r)\<lparr>MsgQueue := Some q1\<rparr>) w)) (\<lambda>(w1, _, _). sendEach env r i w1)
           | RecvClosed \<Rightarrow> Ret w
           | RecvBlocks \<Rightarrow> Blocks))"

definition closeQueue :: "cref \<Rightarrow> cworld \<Rightarrow> cworld outcome" where
  "closeQueue r w =
     (case MsgQueue (obj w r) of
        None \<Rightarrow> Panics CloseOfNil
      | Some q \<Rightarrow>
          (case chan_close q of
             Inl p \<Rightarrow> Panics p
           | Inr q1 \<Rightarrow> Ret (setObj r ((obj w r)\<lparr>MsgQueue := Some q1\<rparr>) w)))"

definition switchToWs :: "('x, 'd) senv \<Rightarrow> cref \<Rightarrow> conn \<Rightarrow> cworld \<Rightarrow> cworld outcome" where
  "switchToWs S r c w =
     (let w1 = setObj r ((obj w r)\<lparr>IsPolling := False, Conn := Some c\<rparr>) w
      in obind (sendEach (eWs (sE S)) r (queueLen (obj w1 r)) w1) (\<lambda>w2.
           obind (closeQueue r w2) (\<lambda>w3. Ret (UpdateTs (eUnix (sE S)) r w3))))"

definition reject :: "('x, 'd) senv \<Rightarrow> conn \<Rightarrow> nat \<Rightarrow> string \<Rightarrow> 'x server \<Rightarrow> 'x server" where
  "reject S c code reason s = updCw (WriteCustomStatusCode (sCloseFrame S) c code reason) s"

text \<open>After the registration: the common check, the version message and the start of the reader.\<close>

definition wsStart :: "('x, 'd) senv \<Rightarrow> conn \<Rightarrow> cref \<Rightarrow> 'x server \<Rightarrow> ('x server \<times> cref option) outcome" where
  "wsStart S c r s =
     obind (commonCheck S s) (\<lambda>(s1, ok).
       if \<not> ok then Ret (reject S c 5000 ''check failed'' s1, None)
       else obind (SendMsgVersion (eWs (sE S)) (sVerMarshal S) versionNum r (cwOf s1)) (\<lambda>(w, _).
              Ret (updCw (\<lambda>_. w) s1, Some r)))"

text \<open>\<open>upgrade\<close> is the result of \<open>ws.UpgradeHTTP\<close>; the result names the client whose reader is started.\<close>

definition wsHandler ::
    "('x, 'd) senv \<Rightarrow> string + conn \<Rightarrow> request \<Rightarrow> 'x server \<Rightarrow> ('x server \<times> cref option) outcome" where
  "wsHandler S upgrade rq s =
     (let pid = queryGet rq ''id''
      in case upgrade of
           Inl err \<Rightarrow> Ret (s, None)
         | Inr c \<Rightarrow>
             if badId pid then Ret (reject S c 4000 ''id is not valid'' s, None)
             else if \<not> authorized S rq s then Ret (reject S c 4000 ''token is not valid'' s, None)
             else case GetClient (hb (sy s)) pid of
                    Some r \<Rightarrow>
                      if \<not> IsPolling (cliOf s r) then Ret (reject S c 4000 ''ws already exist'' s, None)
                      else obind (switchToWs S r c (cwOf s)) (\<lambda>w. wsStart S c r (updCw (\<lambda>_. w) s))
                  | None \<Rightarrow> (case joinWs S pid c s of (r, s1) \<Rightarrow> wsStart S c r s1))"

datatype opcode = OpText | OpBinary | OpContinuation | OpClose | OpPing | OpPong

definition IsControl :: "opcode \<Rightarrow> bool" where
  "IsControl op \<longleftrightarrow> op \<in> {OpClose, OpPing, OpPong}"

definition cleanPayload :: "bytes \<Rightarrow> bytes" where
  "cleanPayload p = TrimSpace (map (\<lambda>b. if b = CHR 0x0A then CHR '' '' else b) p)"

definition wsControl :: "('x, 'd) senv \<Rightarrow> conn \<Rightarrow> cref \<Rightarrow> bytes \<Rightarrow> 'x server \<Rightarrow> 'x server" where
  "wsControl S c r payload s =
     (let s1 = updCw (UpdateTs (eUnix (sE S)) r) s;
          s2 = updHb (\<lambda>h. h\<lparr>rds := fst (UpdateLocalPeerExpiration (eApi (sE S)) (PeerId (cliOf s1 r)) (rds h))\<rparr>) s1
      in updCw (\<lambda>w. w\<lparr>net := net w @ sControl S (net w) c payload\<rparr>) s2)"

text \<open>
  The loop over one batch of messages: \<open>True\<close> in the result says that the peer closed the
  connection; an overload or a dead Redis drops the rest of the batch.
\<close>

fun wsBatch ::
    "('x, 'd) senv \<Rightarrow> int \<Rightarrow> conn \<Rightarrow> cref \<Rightarrow> (opcode \<times> bytes) list \<Rightarrow> 'x server \<Rightarrow> ('x server \<times> bool) outcome" where
  "wsBatch S cpuUsage c r [] s = Ret (s, False)"
| "wsBatch S cpuUsage c r ((op, payload) # ms) s =
     (if IsControl op then
        (if op = OpClose then Ret (updCw (\<lambda>w. w\<lparr>net := net w @ [ConnClosed c]\<rparr>) s, True)
         else wsBatch S cpuUsage c r ms (wsControl S c r payload s))
      else if REJECT_MSG_CPU_Threshold < cpuUsage then Ret (s, False)
      else if \<not> IsAlive (rds (hb (sy s))) then Ret (s, False)
      else case NewHandler (sUnmarshal S) (cleanPayload payload) r of
             Inl err \<Rightarrow> wsBatch S cpuUsage c r ms s
           | Inr hdr \<Rightarrow> obind (Handle (sE S) hdr (sy s)) (\<lambda>st. wsBatch S cpuUsage c r ms (s\<lparr>sy := st\<rparr>)))"

text \<open>
  One round of the reader: \<open>None\<close> is a read error, which ends it. Whatever ends the reader, the
  deferred function takes the client away, also after a panic of a handler, from which it recovers;
  \<open>sCrashed\<close> gives the state such a handler leaves behind. The result says whether the reader goes on.
\<close>

definition wsRead ::
    "('x, 'd) senv \<Rightarrow> string \<Rightarrow> conn \<Rightarrow> cref \<Rightarrow> (opcode \<times> bytes) list option \<Rightarrow> 'x server \<Rightarrow> ('x server \<times> bool) outcome" where
  "wsRead S pid c r msgs s =
     (case msgs of
        None \<Rightarrow> obind (leave S pid r s) (\<lambda>s1. Ret (s1, False))
      | Some ms \<Rightarrow>
          (case wsBatch S (G_CPU s) c r ms s of
             Ret (s1, False) \<Rightarrow> Ret (s1, True)
           | Ret (s1, True) \<Rightarrow> obind (leave S pid r s1) (\<lambda>s2. Ret (s2, False))
           | Blocks \<Rightarrow> Blocks
           | Panics p \<Rightarrow> obind (leave S pid r (sCrashed S s)) (\<lambda>s1. Ret (s1, False))))"

datatype 'x served = ServedWs "'x server" "cref option" | ServedHttp "'x poll"

definition commonHandler ::
    "('x, 'd) senv \<Rightarrow> string + conn \<Rightarrow> request \<Rightarrow> 'x server \<Rightarrow> respw \<Rightarrow> 'x served outcome" where
  "commonHandler S upgrade rq s w =
     (if rqUpgrade rq = ''websocket'' then obind (wsHandler S upgrade rq s) (\<lambda>(s1, rd). Ret (ServedWs s1 rd))
      else
        (let w1 = SetOriginAllowAll w
         in if rqMethod rq = ''GET'' then obind (pollingHandler S rq s w1) (\<lambda>res. Ret (ServedHttp res))
            else if rqMethod rq = ''POST'' then
              obind (postHandler S rq s w1) (\<lambda>(s1, w2). Ret (ServedHttp (Answered s1 w2)))
            else Ret (ServedHttp (Answered s w1))))"

section \<open>The periodic goroutines\<close>

record sweep_count =
  wsCountRemoved :: nat
  httpCountRemoved :: nat
  wsCount :: nat
  httpCount :: nat

definition countRemoved :: "bool \<Rightarrow> sweep_count \<Rightarrow> sweep_count" where
  "countRemoved polling n =
     (if polling then n\<lparr>httpCountRemoved := Suc (httpCountRemoved n)\<rparr> else n\<lparr>wsCountRemoved := Suc (wsCountRemoved n)\<rparr>)"

definition countKept :: "bool \<Rightarrow> sweep_count \<Rightarrow> sweep_count" where
  "countKept polling n =
     (if polling then n\<lparr>httpCount := Suc (httpCount n)\<rparr> else n\<lparr>wsCount := Suc (wsCount n)\<rparr>)"

definition sweepClient ::
    "('x, 'd) senv \<Rightarrow> int \<Rightarrow> cref \<Rightarrow> 'x server \<times> sweep_count \<Rightarrow> ('x server \<times> sweep_count) outcome" where
  "sweepClient S now r sn =
     (case sn of
        (s, n) \<Rightarrow>
          if IsExpired now (cliOf s r) then
            (case DoUnregister (eApi (sE S)) (PeerId (cliOf s r)) (hb (sy s)) of
               (h, False) \<Rightarrow> Ret (updHb (\<lambda>_. h) s, n)
             | (h, True) \<Rightarrow>
                 obind (Close (eWs (sE S)) r (cw h)) (\<lambda>(w, _).
                   Ret (updHb (\<lambda>_. h\<lparr>cw := w\<rparr>) s, countRemoved (IsPolling (obj w r)) n)))
          else Ret (s, countKept (IsPolling (cliOf s r)) n))"

fun sweepShard ::
    "('x, 'd) senv \<Rightarrow> int \<Rightarrow> (string \<times> cref) list \<Rightarrow> 'x server \<times> sweep_count \<Rightarrow> ('x server \<times> sweep_count) outcome" where
  "sweepShard S now [] sn = Ret sn"
| "sweepShard S now ((k, r) # vals) sn = obind (sweepClient S now r sn) (sweepShard S now vals)"

text \<open>The loop over the shards; \<open>clock i\<close> is the time when shard \<open>i\<close> is looked at.\<close>

fun sweepShards ::
    "('x, 'd) senv \<Rightarrow> (nat \<Rightarrow> int) \<Rightarrow> nat list \<Rightarrow> 'x server \<times> sweep_count \<Rightarrow> ('x server \<times> sweep_count) outcome" where
  "sweepShards S clock [] sn = Ret sn"
| "sweepShards S clock (i # is) sn =
     obind (liftR (GetChanByShard (Clients (hb (sy (fst sn)))) i)) (\<lambda>vals.
       obind (sweepShard S (clock i) vals sn) (sweepShards S clock is))"

definition checkConns :: "('x, 'd) senv \<Rightarrow> (nat \<Rightarrow> int) \<Rightarrow> 'x server \<Rightarrow> ('x server \<times> sweep_count) outcome" where
  "checkConns S clock s =
     sweepShards S clock [0..<SHARD_COUNT] (s, \<lparr>wsCountRemoved = 0, httpCountRemoved = 0, wsCount = 0, httpCount = 0\<rparr>)"

definition keepAlive :: "('x, 'd) senv \<Rightarrow> 'x server \<Rightarrow> 'x server" where
  "keepAlive S s =
     (if IsAlive (rds (hb (sy s)))
      then updHb (\<lambda>h. h\<lparr>rds := fst (UpdateClientCount (eApi (sE S)) (GetClientCount h) (rds h))\<rparr>) s
      else s)"


section \<open>The invariant\<close>

text \<open>When the rate limit is on, there is a limiter, and the interval of a limiter is not zero.\<close>

definition limiter_ok :: "'x server \<Rightarrow> bool" where
  "limiter_ok s \<longleftrightarrow>
     (limitEnabled (conf s) \<longrightarrow> limiter s \<noteq> None) \<and> (\<forall>tb. limiter s = Some tb \<longrightarrow> fillInterval tb \<noteq> 0)"

definition server_ok :: "'x server \<Rightarrow> bool" where
  "server_ok s \<longleftrightarrow> sys_ok (sy s) \<and> limiter_ok s"

lemma updHb_simps [simp]:
  "conf (updHb f s) = conf s" "limiter (updHb f s) = limiter s" "G_CPU (updHb f s) = G_CPU s"
  "hb (sy (updHb f s)) = f (hb (sy s))" "filt (sy (updHb f s)) = filt (sy s)" "nh (sy (updHb f s)) = nh (sy s)"
  by (simp_all add: updHb_def)

lemma updCw_simps [simp]:
  "conf (updCw f s) = conf s" "limiter (updCw f s) = limiter s" "G_CPU (updCw f s) = G_CPU s"
  "hb (sy (updCw f s)) = (hb (sy s))\<lparr>cw := f (cwOf s)\<rparr>" "filt (sy (updCw f s)) = filt (sy s)" "nh (sy (updCw f s)) = nh (sy s)"
  by (simp_all add: updCw_def)

lemma GetClient_cw [simp]: "GetClient (h\<lparr>cw := w\<rparr>) = GetClient h"
  by (simp add: GetClient_def [abs_def])

lemma GetClient_rds [simp]: "GetClient (h\<lparr>rds := x\<rparr>) = GetClient h"
  by (simp add: GetClient_def [abs_def])

lemma limiter_ok_updHb [simp]: "limiter_ok (updHb f s) \<longleftrightarrow> limiter_ok s"
  by (simp add: limiter_ok_def)

lemma limiter_ok_updCw [simp]: "limiter_ok (updCw f s) \<longleftrightarrow> limiter_ok s"
  by (simp add: limiter_ok_def)

lemma limiter_ok_sy [simp]: "limiter_ok (s\<lparr>sy := st\<rparr>) \<longleftrightarrow> limiter_ok s"
  by (simp add: limiter_ok_def)

lemma server_ok_updHb: "server_ok s \<Longrightarrow> hub_ok (f (hb (sy s))) \<Longrightarrow> server_ok (updHb f s)"
  by (simp add: server_ok_def sys_ok_def)

lemma server_ok_updCw: "server_ok s \<Longrightarrow> hub_ok ((hb (sy s))\<lparr>cw := f (cwOf s)\<rparr>) \<Longrightarrow> server_ok (updCw f s)"
  by (simp add: server_ok_def sys_ok_def)

lemma server_ok_hub: "server_ok s \<Longrightarrow> hub_ok (hb (sy s))"
  by (simp add: server_ok_def sys_ok_def)

lemma hub_ok_net [simp]: "hub_ok (h\<lparr>cw := (cw h)\<lparr>net := N\<rparr>\<rparr>) \<longleftrightarrow> hub_ok h"
  by (simp add: hub_ok_def)

lemma takeAvailable_returns:
  assumes "fillInterval tb \<noteq> 0"
  shows "\<exists>tb1 got. TakeAvailable tb now k = Inr (tb1, got) \<and> fillInterval tb1 = fillInterval tb"
  using assms
  by (auto simp: TakeAvailable_def takeAvailable_def currentTick_def adjustavailableTokens_def Let_def)

lemma commonCheck_spec:
  assumes "limiter_ok s"
  obtains s1 ok where "commonCheck S s = Ret (s1, ok)" "sy s1 = sy s" "conf s1 = conf s" "limiter_ok s1" "G_CPU s1 = G_CPU s"
    "ok \<Longrightarrow> G_CPU s \<le> 720 \<and> IsAlive (rds (hb (sy s)))"
proof (cases "720 < G_CPU s \<or> \<not> IsAlive (rds (hb (sy s))) \<or> \<not> limitEnabled (conf s)")
  case True
  then show thesis
    using that [of s "\<not> (720 < G_CPU s \<or> \<not> IsAlive (rds (hb (sy s))))"] assms
    by (auto simp: commonCheck_def REJECT_JOIN_CPU_Threshold_def)
next
  case False
  then obtain tb where tb: "limiter s = Some tb" "fillInterval tb \<noteq> 0"
    using assms by (auto simp: limiter_ok_def split: option.splits)
  obtain tb1 got where t: "TakeAvailable tb (sNow S) 1 = Inr (tb1, got)" "fillInterval tb1 = fillInterval tb"
    using takeAvailable_returns [OF tb(2)] by blast
  show thesis
    by (rule that [of "s\<lparr>limiter := Some tb1\<rparr>" "got \<noteq> 0"])
      (use False tb t in \<open>auto simp: commonCheck_def REJECT_JOIN_CPU_Threshold_def limiter_ok_def\<close>)
qed

text \<open>A new client keeps the invariant, and the clients that are registered are not touched.\<close>

lemma hub_ok_new:
  assumes ok: "hub_ok h" and g: "poolGet pick (cw h) = (r, w1)" and c: "client_ok c"
  shows "hub_ok (h\<lparr>cw := setObj r c w1\<rparr>)" "r < length (heap (setObj r c w1))" "r \<notin> set (pool (setObj r c w1))"
    "obj (setObj r c w1) r = c" "net (setObj r c w1) = net (cw h)"
    "\<And>p q. GetClient h p = Some q \<Longrightarrow> q \<noteq> r \<and> obj (setObj r c w1) q = obj (cw h) q"
proof -
  have w: "cworld_ok (cw h)" using ok by (simp add: hub_ok_def)
  note N = new_client [OF w g c]
  have D: "q < length (heap (cw h))" "q \<notin> set (pool (cw h))" "PeerId (obj (cw h) q) = p"
    if "GetClient h p = Some q" for p q
    using hub_okD [OF ok that] by auto
  show other: "q \<noteq> r \<and> obj (setObj r c w1) q = obj (cw h) q" if "GetClient h p = Some q" for p q
  proof -
    have "q \<noteq> r" using D(1,2) [OF that] N(9) by auto
    then show ?thesis using N(5) D(1) [OF that] by blast
  qed
  show "hub_ok (h\<lparr>cw := setObj r c w1\<rparr>)"
    unfolding hub_ok_def
  proof (intro conjI allI impI)
    show "cmap_ok (Clients (h\<lparr>cw := setObj r c w1\<rparr>))" "cworld_ok (cw (h\<lparr>cw := setObj r c w1\<rparr>))"
      using ok N(1) by (simp_all add: hub_ok_def)
    fix p q assume "cmGet (Clients (h\<lparr>cw := setObj r c w1\<rparr>)) p = Some q"
    then have q: "GetClient h p = Some q" by (simp add: GetClient_def)
    have "q < length (heap (cw h))" "q \<notin> set (pool (setObj r c w1))" using D [OF q] N(6) by auto
    then show "q < length (heap (cw (h\<lparr>cw := setObj r c w1\<rparr>)))" "q \<notin> set (pool (cw (h\<lparr>cw := setObj r c w1\<rparr>)))"
        "PeerId (obj (cw (h\<lparr>cw := setObj r c w1\<rparr>)) q) = p"
      using other [OF q] D(3) [OF q] N(7) by auto
  qed
qed (use new_client [OF _ g c] ok in \<open>auto simp: hub_ok_def\<close>)

lemma joinPolling_spec:
  assumes ok: "server_ok s"
  obtains r s1 where "joinPolling S p s = (r, s1)" "server_ok s1" "GetClient (hb (sy s1)) = (GetClient (hb (sy s)))(p \<mapsto> r)"
    "cliOf s1 r = \<lparr>Conn = None, PeerId = p, Timestamp = eUnix (sE S), IsPolling = True,
       MsgQueue = Some (make_chan POLLING_QUEUE_SIZE)\<rparr>"
    "\<And>q r'. GetClient (hb (sy s)) q = Some r' \<Longrightarrow> r' \<noteq> r \<and> cliOf s1 r' = cliOf s r'"
    "conf s1 = conf s" "G_CPU s1 = G_CPU s"
proof -
  let ?h = "hb (sy s)"
  let ?c = "\<lparr>Conn = None, PeerId = p, Timestamp = eUnix (sE S), IsPolling = True,
    MsgQueue = Some (make_chan POLLING_QUEUE_SIZE)\<rparr>"
  obtain r w1 where g: "poolGet (sPick S) (cw ?h) = (r, w1)" by fastforce
  note N = hub_ok_new [OF server_ok_hub [OF ok] g client_ok_new(2) [where C = None and p = p and t = "eUnix (sE S)"]]
  let ?h1 = "?h\<lparr>cw := setObj r ?c w1\<rparr>"
  have r: "r < length (heap (cw ?h1))" "r \<notin> set (pool (cw ?h1))" using N(2,3) by simp_all
  note R = DoRegister_spec [OF N(1) r, of "eApi (sE S)"]
  have j: "joinPolling S p s = (r, updHb (\<lambda>h. DoRegister (eApi (sE S)) r (h\<lparr>cw := setObj r ?c w1\<rparr>)) s)"
    using g by (simp add: joinPolling_def NewPollingPeerClient_def)
  show thesis
    by (rule that [OF j]) (use R N ok in \<open>auto intro!: server_ok_updHb\<close>)
qed

lemma joinWs_spec:
  assumes ok: "server_ok s"
  obtains r s1 where "joinWs S p c s = (r, s1)" "server_ok s1" "GetClient (hb (sy s1)) = (GetClient (hb (sy s)))(p \<mapsto> r)"
    "cliOf s1 r = \<lparr>Conn = Some c, PeerId = p, Timestamp = eUnix (sE S), IsPolling = False, MsgQueue = None\<rparr>"
    "\<And>q r'. GetClient (hb (sy s)) q = Some r' \<Longrightarrow> r' \<noteq> r \<and> cliOf s1 r' = cliOf s r'"
    "conf s1 = conf s" "G_CPU s1 = G_CPU s" "net (cwOf s1) = net (cwOf s)" "r < length (heap (cwOf s1))"
proof -
  let ?h = "hb (sy s)"
  let ?c = "\<lparr>Conn = Some c, PeerId = p, Timestamp = eUnix (sE S), IsPolling = False, MsgQueue = None\<rparr>"
  obtain r w1 where g: "poolGet (sPick S) (cw ?h) = (r, w1)" by fastforce
  note N = hub_ok_new [OF server_ok_hub [OF ok] g client_ok_new(1) [where c = c and p = p and t = "eUnix (sE S)" and Q = None]]
  let ?h1 = "?h\<lparr>cw := setObj r ?c w1\<rparr>"
  have r: "r < length (heap (cw ?h1))" "r \<notin> set (pool (cw ?h1))" using N(2,3) by simp_all
  note R = DoRegister_spec [OF N(1) r, of "eApi (sE S)"]
  have j: "joinWs S p c s = (r, updHb (\<lambda>h. DoRegister (eApi (sE S)) r (h\<lparr>cw := setObj r ?c w1\<rparr>)) s)"
    using g by (simp add: joinWs_def NewWebsocketPeerClient_def)
  show thesis
    by (rule that [OF j]) (use R N ok in \<open>auto intro!: server_ok_updHb\<close>)
qed


section \<open>Every request is served\<close>

text \<open>What a request does to the table of clients: nothing, or it adds its own id, which is a good one.\<close>

definition joined :: "string \<Rightarrow> 'x server \<Rightarrow> 'x server \<Rightarrow> bool" where
  "joined p s s1 \<longleftrightarrow> GetClient (hb (sy s1)) = GetClient (hb (sy s)) \<or>
     \<not> badId p \<and> GetClient (hb (sy s)) p = None \<and> (\<exists>r. GetClient (hb (sy s1)) = (GetClient (hb (sy s)))(p \<mapsto> r))"

lemma joined_same: "GetClient (hb (sy s1)) = GetClient (hb (sy s)) \<Longrightarrow> joined p s s1"
  by (simp add: joined_def)

lemma joined_new:
  "\<not> badId p \<Longrightarrow> GetClient (hb (sy s)) p = None \<Longrightarrow> GetClient (hb (sy s1)) = (GetClient (hb (sy s)))(p \<mapsto> r) \<Longrightarrow> joined p s s1"
  by (auto simp: joined_def)

lemma keeps_server_ok: "server_ok s \<Longrightarrow> keeps (sy s) st \<Longrightarrow> server_ok (s\<lparr>sy := st\<rparr>)"
  by (simp add: server_ok_def keeps_def)

lemma runHandlers_keeps:
  assumes "env_ok E" "sys_ok st" "valid st cli"
  shows "\<exists>st'. runHandlers E (map (\<lambda>m. NewHandlerMsg m cli) ms) st = Ret st' \<and> keeps st st'"
  using assms(2,3)
proof (induction ms arbitrary: st)
  case Nil
  then show ?case by (simp add: keeps_refl)
next
  case (Cons m ms)
  obtain st1 where 1: "Handle E (NewHandlerMsg m cli) st = Ret st1" "keeps st st1"
    using Handle_keeps [OF assms(1) Cons.prems] by blast
  obtain st2 where "runHandlers E (map (\<lambda>m. NewHandlerMsg m cli) ms) st1 = Ret st2" "keeps st1 st2"
    using Cons.IH [OF keeps_ok [OF 1(2)] valid_keeps [OF 1(2) Cons.prems(2)]] by blast
  then show ?case using 1 keeps_trans by auto
qed

lemma postBody_spec:
  assumes "env_ok (sE S)" "server_ok s" "r < length (heap (cwOf s))"
  shows "\<exists>s1 w1. postBody S rq r s w = Ret (s1, w1) \<and> server_ok s1 \<and> GetClient (hb (sy s1)) = GetClient (hb (sy s))"
proof (cases "rqBody rq")
  case (Inr b)
  have ok: "sys_ok (sy s)" using assms(2) by (simp add: server_ok_def)
  show ?thesis
  proof (cases "sUnmarshalList S b")
    case (Inl e)
    then show ?thesis using Inr assms by (simp add: postBody_def NewPostHandler_def)
  next
    case ms: (Inr ms)
    obtain st where "runHandlers (sE S) (map (\<lambda>m. NewHandlerMsg m r) ms) (sy s) = Ret st" "keeps (sy s) st"
      using runHandlers_keeps [OF assms(1) ok assms(3)] by blast
    then show ?thesis using Inr ms keeps_server_ok [OF assms(2)] by (auto simp: postBody_def NewPostHandler_def keeps_def)
  qed
qed (use assms in \<open>simp add: postBody_def\<close>)

lemma chan_recv_Cons: "chbuf q = m # ms \<Longrightarrow> chan_recv q = Received m (q\<lparr>chbuf := ms\<rparr>)"
  by (simp add: chan_recv_def)

text \<open>Reading what is there never blocks, and gives everything in order.\<close>

lemma drain_all: "drain (length (chbuf q)) q = Ret (chbuf q, q\<lparr>chbuf := []\<rparr>)"
proof (induction "chbuf q" arbitrary: q)
  case (Cons m ms)
  have "chan_recv q = Received m (q\<lparr>chbuf := ms\<rparr>)" using Cons.hyps(2) [symmetric] by (rule chan_recv_Cons)
  moreover have "drain (length ms) (q\<lparr>chbuf := ms\<rparr>) = Ret (ms, q\<lparr>chbuf := []\<rparr>)"
    using Cons.hyps(1) [of "q\<lparr>chbuf := ms\<rparr>"] by simp
  ultimately show ?case using Cons.hyps(2) [symmetric] by simp
qed simp

lemma hub_ok_setObj:
  assumes "hub_ok h" "client_ok c" "PeerId c = PeerId (obj (cw h) r)"
  shows "hub_ok (h\<lparr>cw := setObj r c (cw h)\<rparr>)"
proof (rule hub_ok_cw [OF assms(1)])
  show "cworld_ok (setObj r c (cw h))" using assms(1,2) by (simp add: hub_ok_def cworld_ok_setObj)
  show "PeerId (obj (setObj r c (cw h)) q) = PeerId (obj (cw h) q)" for q
    using assms(3) by (cases "r < length (heap (cw h))") (auto simp: obj_setObj, simp add: setObj_def obj_def not_less list_update_beyond)
qed simp_all

lemma polling_client:
  assumes "server_ok s" "r < length (heap (cwOf s))" "IsPolling (cliOf s r)"
  obtains q where "MsgQueue (cliOf s r) = Some q" "queue_ok q" "queue (cwOf s) r = chbuf q" "queueLen (cliOf s r) = length (chbuf q)"
proof -
  have "cworld_ok (cwOf s)" using server_ok_hub [OF assms(1)] by (simp add: hub_ok_def)
  then have "client_ok (cliOf s r)" using cworld_ok_obj assms(2) by blast
  then obtain q where "MsgQueue (cliOf s r) = Some q" "queue_ok q"
    using assms(3) by (auto simp: client_ok_def split: option.splits)
  then show thesis using that by (simp add: queue_def queueLen_def chan_len_def)
qed

lemma server_ok_setQueue:
  assumes "server_ok s" "IsPolling (cliOf s r)" "queue_ok q"
  shows "server_ok (setQueue r q s)"
  unfolding setQueue_def
  by (rule server_ok_updCw [OF assms(1)], rule hub_ok_setObj [OF server_ok_hub [OF assms(1)]])
    (use assms in \<open>simp_all add: client_ok_def\<close>)

lemma server_ok_UpdateTs:
  assumes "server_ok s" "r < length (heap (cwOf s))"
  shows "server_ok (updCw (UpdateTs t r) s)"
proof -
  have "cworld_ok (cwOf s)" using server_ok_hub [OF assms(1)] by (simp add: hub_ok_def)
  then have "client_ok ((cliOf s r)\<lparr>Timestamp := t\<rparr>)"
    using cworld_ok_obj [OF _ assms(2)] by (simp add: client_ok_def)
  then show ?thesis
    by (intro server_ok_updCw [OF assms(1)]) (auto simp: UpdateTs_def intro!: hub_ok_setObj server_ok_hub [OF assms(1)])
qed

fun pollServer :: "'x poll \<Rightarrow> 'x server" where
  "pollServer (Answered s w) = s"
| "pollServer (Waiting s w r) = s"

lemma pollQueue_spec:
  assumes ok: "server_ok s" and r: "r < length (heap (cwOf s))" and p: "IsPolling (cliOf s r)"
  shows "\<exists>res. pollQueue S r s w = Ret res \<and> server_ok (pollServer res) \<and>
    GetClient (hb (sy (pollServer res))) = GetClient (hb (sy s)) \<and>
    (if queue (cwOf s) r = [] then res = Waiting (updCw (UpdateTs (eUnix (sE S)) r) s) w r
     else res = Answered (pollServer res) (rwWrite (pollBody (queue (cwOf s) r)) (SetHeaderJson w)) \<and>
       queue (cwOf (pollServer res)) r = [])"
proof (rule polling_client [OF ok r p])
  fix q assume q: "MsgQueue (cliOf s r) = Some q" "queue_ok q" "queue (cwOf s) r = chbuf q"
    "queueLen (cliOf s r) = length (chbuf q)"
  have "queue_ok (q\<lparr>chbuf := []\<rparr>)" using q(2) by (simp add: queue_ok_def chan_ok_def)
  note so = server_ok_setQueue [OF ok p this]
  have "queue (cwOf (setQueue r (q\<lparr>chbuf := []\<rparr>) s)) r = []"
    using r by (simp add: setQueue_def queue_push)
  then show ?thesis
    using q so server_ok_UpdateTs [OF ok r] drain_all [of q]
    by (auto simp: pollQueue_def Let_def drainQueue_def setQueue_def)
qed

lemma GetClient_server_valid: "server_ok s \<Longrightarrow> GetClient (hb (sy s)) p = Some r \<Longrightarrow> r < length (heap (cwOf s))"
  using hub_okD(1) [OF server_ok_hub] .

lemma checked_ok: "server_ok s \<Longrightarrow> sy s1 = sy s \<Longrightarrow> limiter_ok s1 \<Longrightarrow> server_ok s1"
  by (simp add: server_ok_def)

lemma postHandler_spec:
  assumes E: "env_ok (sE S)" and ok: "server_ok s"
  shows "\<exists>s1 w1. postHandler S rq s w = Ret (s1, w1) \<and> server_ok s1 \<and> joined (queryGet rq ''id'') s s1"
proof -
  have "limiter_ok s" using ok by (simp add: server_ok_def)
  then show ?thesis
  proof (rule commonCheck_spec [of s S])
    fix s1 good
    assume c: "commonCheck S s = Ret (s1, good)" "sy s1 = sy s" "limiter_ok s1"
    note ok1 = checked_ok [OF ok c(2,3)]
    let ?p = "queryGet rq ''id''"
    show ?thesis
    proof (cases "\<not> good \<or> badId ?p \<or> \<not> authorized S rq s1")
      case True
      then show ?thesis using c(1,2) ok1 by (auto simp: postHandler_def Let_def joined_def)
    next
      case False
      show ?thesis
      proof (cases "GetClient (hb (sy s1)) ?p")
        case None
        show ?thesis
        proof (rule joinPolling_spec [OF ok1, of S ?p])
          fix r s2
          assume j: "joinPolling S ?p s1 = (r, s2)" "server_ok s2"
            "GetClient (hb (sy s2)) = (GetClient (hb (sy s1)))(?p \<mapsto> r)"
          have "r < length (heap (cwOf s2))" using GetClient_server_valid [OF j(2), of ?p] j(3) by simp
          from postBody_spec [OF E j(2) this, of rq w] show ?thesis
            using False None c(1,2) j by (auto simp: postHandler_def Let_def joined_def)
        qed
      next
        case (Some r)
        from postBody_spec [OF E ok1 GetClient_server_valid [OF ok1 Some], of rq w] show ?thesis
          using False Some c(1,2) ok1 by (auto simp: postHandler_def Let_def joined_def)
      qed
    qed
  qed
qed

lemma pollingHandler_spec:
  assumes ok: "server_ok s"
  shows "\<exists>res. pollingHandler S rq s w = Ret res \<and> server_ok (pollServer res) \<and> joined (queryGet rq ''id'') s (pollServer res)"
proof -
  have "limiter_ok s" using ok by (simp add: server_ok_def)
  then show ?thesis
  proof (rule commonCheck_spec [of s S])
    fix s1 good
    assume c: "commonCheck S s = Ret (s1, good)" "sy s1 = sy s" "limiter_ok s1"
    note ok1 = checked_ok [OF ok c(2,3)]
    let ?p = "queryGet rq ''id''"
    show ?thesis
    proof (cases "\<not> good \<or> badId ?p \<or> \<not> authorized S rq s1")
      case True
      then show ?thesis using c(1,2) ok1 by (auto simp: pollingHandler_def Let_def joined_def)
    next
      case False
      show ?thesis
      proof (cases "GetClient (hb (sy s1)) ?p")
        case None
        show ?thesis
        proof (rule joinPolling_spec [OF ok1, of S ?p])
          fix r s2
          assume j: "joinPolling S ?p s1 = (r, s2)" "server_ok s2"
            "GetClient (hb (sy s2)) = (GetClient (hb (sy s1)))(?p \<mapsto> r)"
            "cliOf s2 r = \<lparr>Conn = None, PeerId = ?p, Timestamp = eUnix (sE S), IsPolling = True,
               MsgQueue = Some (make_chan POLLING_QUEUE_SIZE)\<rparr>"
          have "r < length (heap (cwOf s2))" using GetClient_server_valid [OF j(2), of ?p] j(3) by simp
          from pollQueue_spec [OF j(2) this, of S w] j(4) show ?thesis
            using False None c(1,2) j(1,3) by (auto simp: pollingHandler_def Let_def joined_def)
        qed
      next
        case (Some r)
        from pollQueue_spec [OF ok1 GetClient_server_valid [OF ok1 Some], of S w] show ?thesis
          using False Some c(1,2) ok1 by (auto simp: pollingHandler_def Let_def joined_def)
      qed
    qed
  qed
qed

text \<open>
  The change from polling to a websocket: every waiting message is written to the new connection
  in order, whatever the writes return.
\<close>

definition written :: "ws_env \<Rightarrow> conn \<Rightarrow> bytes list \<Rightarrow> netev list \<Rightarrow> netev list" where
  "written env c ms N =
     foldl (\<lambda>N m. N @ [(if wsWrite env N c m = None then Written else WriteFailed) c m]) N ms"

lemma sendEach_all:
  assumes "r < length (heap w)" "obj w r = cl" "Conn cl = Some c" "MsgQueue cl = Some q"
  shows "sendEach env r (length (chbuf q)) w =
    Ret ((setObj r (cl\<lparr>MsgQueue := Some (q\<lparr>chbuf := []\<rparr>)\<rparr>) w)\<lparr>net := written env c (chbuf q) (net w)\<rparr>)"
  using assms
proof (induction "chbuf q" arbitrary: q w cl)
  case Nil
  have q: "q\<lparr>chbuf := []\<rparr> = q" using Nil.hyps by (cases q) simp
  have cl: "cl\<lparr>MsgQueue := Some q\<rparr> = cl" using Nil.prems(4) by (cases cl) simp
  have w: "setObj r cl w = w" using Nil.prems(2) by (auto simp: setObj_def obj_def list_update_id)
  show ?case using Nil.hyps by (simp add: q cl w written_def flip: Nil.hyps)
next
  case (Cons m ms)
  let ?q1 = "q\<lparr>chbuf := ms\<rparr>"
  let ?cl1 = "cl\<lparr>MsgQueue := Some ?q1\<rparr>"
  let ?N = "net w @ [(if wsWrite env (net w) c m = None then Written else WriteFailed) c m]"
  let ?w1 = "(setObj r ?cl1 w)\<lparr>net := ?N\<rparr>"
  have recv: "chan_recv q = Received m ?q1" using Cons.hyps(2) [symmetric] by (rule chan_recv_Cons)
  have "\<exists>err fatal. SendDataWs env r m (setObj r ?cl1 w) = Ret (?w1, err, fatal)"
    using Cons.prems by (auto simp: SendDataWs_def obj_setObj split: option.splits)
  then have "sendEach env r (length (chbuf q)) w = sendEach env r (length ms) ?w1"
    using recv Cons.prems Cons.hyps(2) [symmetric] by auto
  also have "\<dots> = Ret ((setObj r (?cl1\<lparr>MsgQueue := Some (?q1\<lparr>chbuf := []\<rparr>)\<rparr>) ?w1)\<lparr>net := written env c (chbuf ?q1) (net ?w1)\<rparr>)"
    using Cons.hyps(1) [of ?q1 ?w1 ?cl1] Cons.prems by (simp add: obj_setObj)
  also have "\<dots> = Ret ((setObj r (cl\<lparr>MsgQueue := Some (q\<lparr>chbuf := []\<rparr>)\<rparr>) w)\<lparr>net := written env c (chbuf q) (net w)\<rparr>)"
    using Cons.hyps(2) [symmetric] by (simp add: setObj_def written_def)
  finally show ?case .
qed


lemma switchToWs_spec:
  assumes ok: "server_ok s" and r: "r < length (heap (cwOf s))" and p: "IsPolling (cliOf s r)"
  obtains w where "switchToWs S r c (cwOf s) = Ret w" "server_ok (updCw (\<lambda>_. w) s)"
    "net w = written (eWs (sE S)) c (queue (cwOf s) r) (net (cwOf s))"
    "\<not> IsPolling (obj w r)" "Conn (obj w r) = Some c" "PeerId (obj w r) = PeerId (cliOf s r)" "queue w r = []"
    "length (heap w) = length (heap (cwOf s))" "\<And>q. q \<noteq> r \<Longrightarrow> obj w q = cliOf s q"
proof (rule polling_client [OF ok r p])
  fix q assume q: "MsgQueue (cliOf s r) = Some q" "queue_ok q" "queue (cwOf s) r = chbuf q"
    "queueLen (cliOf s r) = length (chbuf q)"
  let ?cl = "(cliOf s r)\<lparr>IsPolling := False, Conn := Some c\<rparr>"
  let ?w1 = "setObj r ?cl (cwOf s)"
  let ?N = "written (eWs (sE S)) c (chbuf q) (net (cwOf s))"
  let ?q1 = "q\<lparr>chbuf := [], chclosed := True\<rparr>"
  let ?cl3 = "?cl\<lparr>MsgQueue := Some ?q1, Timestamp := eUnix (sE S)\<rparr>"
  have o: "obj ?w1 r = ?cl" using r by (simp add: obj_setObj)
  have "sendEach (eWs (sE S)) r (length (chbuf q)) ?w1 =
      Ret ((setObj r (?cl\<lparr>MsgQueue := Some (q\<lparr>chbuf := []\<rparr>)\<rparr>) ?w1)\<lparr>net := ?N\<rparr>)"
    using sendEach_all [of r ?w1 ?cl c q] r o q(1) by simp
  moreover have "queueLen (obj ?w1 r) = length (chbuf q)" using o q(1,4) by (simp add: queueLen_def)
  moreover have "chan_close (q\<lparr>chbuf := []\<rparr>) = Inr ?q1" using q(2) by (simp add: chan_close_def queue_ok_def)
  ultimately have sw: "switchToWs S r c (cwOf s) = Ret ((setObj r ?cl3 (cwOf s))\<lparr>net := ?N\<rparr>)"
    using r by (simp add: switchToWs_def Let_def closeQueue_def obj_setObj UpdateTs_def) (simp add: setObj_def)
  have "hub_ok ((hb (sy s))\<lparr>cw := setObj r ?cl3 (cwOf s)\<rparr>)"
    by (rule hub_ok_setObj [OF server_ok_hub [OF ok]]) (simp_all add: client_ok_def)
  then have "hub_ok ((hb (sy s))\<lparr>cw := (setObj r ?cl3 (cwOf s))\<lparr>net := ?N\<rparr>\<rparr>)" by (simp add: hub_ok_def)
  then have so: "server_ok (updCw (\<lambda>_. (setObj r ?cl3 (cwOf s))\<lparr>net := ?N\<rparr>) s)"
    by (intro server_ok_updCw [OF ok]) simp
  show thesis
    by (rule that [OF sw so]) (use r q(3) in \<open>simp_all add: obj_setObj queue_def\<close>)
qed

lemma SendMsgVersion_spec:
  assumes "server_ok s" "r < length (heap (cwOf s))"
  shows "\<exists>w err. SendMsgVersion env marshal v r (cwOf s) = Ret (w, err) \<and> server_ok (updCw (\<lambda>_. w) s) \<and>
    length (heap w) = length (heap (cwOf s)) \<and>
    (\<forall>b. marshal \<lparr>svAction = ''ver'', svVer = v\<rparr> = Inr b \<longrightarrow> \<not> IsPolling (cliOf s r) \<longrightarrow>
      net w = written env (the (Conn (cliOf s r))) [b] (net (cwOf s)) \<and> heap w = heap (cwOf s))"
proof (cases "marshal \<lparr>svAction = ''ver'', svVer = v\<rparr>")
  case (Inl e)
  then show ?thesis using assms server_ok_hub [OF assms(1)] by (auto simp: SendMsgVersion_def intro!: server_ok_updCw)
next
  case (Inr b)
  have w: "cworld_ok (cwOf s)" using server_ok_hub [OF assms(1)] by (simp add: hub_ok_def)
  show ?thesis
  proof (rule SendMessage_hub [OF server_ok_hub [OF assms(1)] assms(2), of env b])
    fix w' err fatal
    assume m: "SendMessage env r b (cwOf s) = Ret (w', err, fatal)" "hub_ok ((hb (sy s))\<lparr>cw := w'\<rparr>)"
      "length (heap w') = length (heap (cwOf s))"
    have "net w' = written env (the (Conn (cliOf s r))) [b] (net (cwOf s)) \<and> heap w' = heap (cwOf s)"
      if "\<not> IsPolling (cliOf s r)"
      using m(1) that by (auto simp: SendMessage_def SendDataWs_def written_def split: option.splits)
    then show ?thesis using Inr m by (auto simp: SendMsgVersion_def intro!: server_ok_updCw [OF assms(1)])
  qed
qed

lemma server_ok_reject: "server_ok s \<Longrightarrow> server_ok (reject S c code reason s)"
  unfolding reject_def WriteCustomStatusCode_def
  by (rule server_ok_updCw) (auto simp: server_ok_hub split: prod.splits)

lemma wsStart_spec:
  assumes ok: "server_ok s" and r: "r < length (heap (cwOf s))"
  shows "\<exists>s1 rd. wsStart S c r s = Ret (s1, rd) \<and> server_ok s1 \<and> GetClient (hb (sy s1)) = GetClient (hb (sy s)) \<and>
    (\<forall>q. rd = Some q \<longrightarrow> q = r)"
proof -
  have "limiter_ok s" using ok by (simp add: server_ok_def)
  then show ?thesis
  proof (rule commonCheck_spec [of s S])
    fix s1 good
    assume k: "commonCheck S s = Ret (s1, good)" "sy s1 = sy s" "limiter_ok s1"
    note ok1 = checked_ok [OF ok k(2,3)]
    obtain w err where "SendMsgVersion (eWs (sE S)) (sVerMarshal S) versionNum r (cwOf s1) = Ret (w, err)"
        "server_ok (updCw (\<lambda>_. w) s1)"
      using SendMsgVersion_spec [OF ok1, of r] r k(2) by metis
    then show ?thesis using k(1,2) server_ok_reject [OF ok1] by (auto simp: wsStart_def reject_def)
  qed
qed

lemma wsHandler_spec:
  assumes ok: "server_ok s"
  shows "\<exists>s1 rd. wsHandler S up rq s = Ret (s1, rd) \<and> server_ok s1 \<and> joined (queryGet rq ''id'') s s1"
proof (cases up)
  case (Inl e)
  then show ?thesis using ok by (simp add: wsHandler_def joined_same)
next
  case (Inr c)
  let ?p = "queryGet rq ''id''"
  note rej = server_ok_reject [OF ok]
  consider "badId ?p \<or> \<not> authorized S rq s"
    | "\<not> badId ?p" "authorized S rq s" "GetClient (hb (sy s)) ?p = None"
    | r where "\<not> badId ?p" "authorized S rq s" "GetClient (hb (sy s)) ?p = Some r" "\<not> IsPolling (cliOf s r)"
    | r where "\<not> badId ?p" "authorized S rq s" "GetClient (hb (sy s)) ?p = Some r" "IsPolling (cliOf s r)"
    by blast
  then show ?thesis
  proof cases
    case 2
    show ?thesis
    proof (rule joinWs_spec [OF ok, of S ?p c])
      fix r s1 assume j: "joinWs S ?p c s = (r, s1)" "server_ok s1" "r < length (heap (cwOf s1))"
        "GetClient (hb (sy s1)) = (GetClient (hb (sy s)))(?p \<mapsto> r)"
      from wsStart_spec [OF j(2,3), of S c] show ?thesis
        using Inr 2 j(1,4) by (auto simp: wsHandler_def Let_def intro!: joined_new)
    qed
  next
    case (4 r)
    note v = GetClient_server_valid [OF ok 4(3)]
    show ?thesis
    proof (rule switchToWs_spec [OF ok v 4(4), of S c])
      fix w assume w: "switchToWs S r c (cwOf s) = Ret w" "server_ok (updCw (\<lambda>_. w) s)" "length (heap w) = length (heap (cwOf s))"
      from wsStart_spec [OF w(2), of r S c] show ?thesis
        using Inr 4 w v by (auto simp: wsHandler_def Let_def intro!: joined_same)
    qed
  qed (use Inr rej in \<open>auto simp: wsHandler_def Let_def reject_def joined_same\<close>)
qed

fun servedServer :: "'x served \<Rightarrow> 'x server" where
  "servedServer (ServedWs s rd) = s"
| "servedServer (ServedHttp res) = pollServer res"

lemma commonHandler_spec:
  assumes "env_ok (sE S)" and "server_ok s"
  shows "\<exists>res. commonHandler S up rq s w = Ret res \<and> server_ok (servedServer res) \<and>
    joined (queryGet rq ''id'') s (servedServer res)"
proof -
  let ?p = "queryGet rq ''id''"
  obtain s1 st where 1: "wsHandler S up rq s = Ret (s1, st)" "server_ok s1" "joined ?p s s1"
    using wsHandler_spec [OF assms(2)] by blast
  obtain res where 2: "pollingHandler S rq s (SetOriginAllowAll w) = Ret res" "server_ok (pollServer res)" "joined ?p s (pollServer res)"
    using pollingHandler_spec [OF assms(2)] by blast
  obtain s3 w3 where 3: "postHandler S rq s (SetOriginAllowAll w) = Ret (s3, w3)" "server_ok s3" "joined ?p s s3"
    using postHandler_spec [OF assms] by blast
  show ?thesis using 1 2 3 assms(2) joined_same [of s s] by (simp add: commonHandler_def Let_def)
qed


section \<open>Leaving and expiry\<close>

lemma leave_drop:
  assumes "PeerId (cliOf s r) = p"
  shows "leave S p r s = obind (dropClient (eWs (sE S)) (eApi (sE S)) r (hb (sy s))) (\<lambda>h. Ret (updHb (\<lambda>_. h) s))"
proof -
  obtain h b where u: "DoUnregister (eApi (sE S)) p (hb (sy s)) = (h, b)" by fastforce
  show ?thesis
  proof (cases b)
    case True
    then show ?thesis
      using assms u by (cases "Close (eWs (sE S)) r (cw h)") (auto simp: leave_def dropClient_def)
  qed (use assms u in \<open>simp add: leave_def dropClient_def\<close>)
qed

lemma leave_spec:
  assumes ok: "server_ok s" and g: "GetClient (hb (sy s)) p = Some r" and p: "p \<noteq> []"
  shows "\<exists>s1. leave S p r s = Ret s1 \<and> server_ok s1 \<and> GetClient (hb (sy s1)) = (GetClient (hb (sy s)))(p := None) \<and>
    heap (cwOf s1) = heap (cwOf s)"
proof -
  note h = server_ok_hub [OF ok]
  obtain h' where "dropClient (eWs (sE S)) (eApi (sE S)) r (hb (sy s)) = Ret h'" "hub_ok h'"
      "heap (cw h') = heap (cwOf s)" "GetClient h' = (GetClient (hb (sy s)))(p := None)"
    using dropClient_spec [OF h g, of "eWs (sE S)" "eApi (sE S)"] p by auto
  then show ?thesis
    using leave_drop [OF hub_okD(3) [OF h g], of S] server_ok_updHb [OF ok, of "\<lambda>_. h'"] by simp
qed


text \<open>The messages of a websocket: the batch is handled to its end, and the table of clients stays as it is.\<close>

text \<open>A poll that was waiting ends safely, whatever ends it, when its client is still registered.\<close>

lemma pollingResume_spec:
  assumes ok: "server_ok s" and g: "GetClient (hb (sy s)) p = Some r" "p \<noteq> []" and res: "pollingResume S ev p r s w = Ret (s1, w1)"
  shows "server_ok s1 \<and> (GetClient (hb (sy s1)) = GetClient (hb (sy s)) \<or> GetClient (hb (sy s1)) = (GetClient (hb (sy s)))(p := None))"
proof (cases ev)
  case PollTimeout
  then show ?thesis using ok res by (simp add: pollingResume_def)
next
  case PollMsg
  then obtain q where q: "MsgQueue (cliOf s r) = Some q" using res by (auto simp: pollingResume_def split: option.splits)
  note r = GetClient_server_valid [OF ok g(1)]
  have co: "client_ok (cliOf s r)"
    using server_ok_hub [OF ok] cworld_ok_obj [OF _ r] by (simp add: hub_ok_def)
  show ?thesis
  proof (cases "chan_recv q")
    case (Received m q1)
    have "client_ok ((cliOf s r)\<lparr>MsgQueue := Some q1\<rparr>)"
      using co q Received by (auto simp: client_ok_def queue_ok_def chan_ok_def chan_recv_def split: list.splits if_splits)
    then have "server_ok (setQueue r q1 s)"
      unfolding setQueue_def by (intro server_ok_updCw [OF ok] hub_ok_setObj server_ok_hub [OF ok]) simp_all
    then show ?thesis using PollMsg q Received res by (auto simp: pollingResume_def setQueue_def)
  qed (use PollMsg q res ok in \<open>auto simp: pollingResume_def\<close>)
next
  case PollGone
  obtain s2 where "leave S p r s = Ret s2" "server_ok s2" "GetClient (hb (sy s2)) = (GetClient (hb (sy s)))(p := None)"
    using leave_spec [OF ok g, of S] by blast
  then show ?thesis using PollGone res ok by (auto simp: pollingResume_def split: if_splits)
qed

lemma wsControl_spec:
  assumes "server_ok s" "r < length (heap (cwOf s))"
  shows "server_ok (wsControl S c r payload s)" "GetClient (hb (sy (wsControl S c r payload s))) = GetClient (hb (sy s))"
    "length (heap (cwOf (wsControl S c r payload s))) = length (heap (cwOf s))"
proof -
  have "server_ok (updCw (UpdateTs t r) s)" for t by (rule server_ok_UpdateTs [OF assms])
  then have h: "hub_ok ((hb (sy s))\<lparr>cw := UpdateTs t r (cwOf s)\<rparr>)" for t using server_ok_hub by fastforce
  show "server_ok (wsControl S c r payload s)"
    using assms(1) h [of "eUnix (sE S)"] by (simp add: server_ok_def sys_ok_def wsControl_def Let_def) (simp add: hub_ok_def)
  show "GetClient (hb (sy (wsControl S c r payload s))) = GetClient (hb (sy s))"
    "length (heap (cwOf (wsControl S c r payload s))) = length (heap (cwOf s))"
    by (simp_all add: wsControl_def Let_def UpdateTs_def)
qed

lemma wsBatch_spec:
  assumes "env_ok (sE S)" "server_ok s" "r < length (heap (cwOf s))"
  shows "\<exists>s1 b. wsBatch S u c r ms s = Ret (s1, b) \<and> server_ok s1 \<and> GetClient (hb (sy s1)) = GetClient (hb (sy s))"
  using assms(2,3)
proof (induction ms arbitrary: s)
  case Nil
  then show ?case by (auto intro: exI [of _ False])
next
  case (Cons m ms)
  obtain op payload where m: "m = (op, payload)" by fastforce
  have net: "server_ok (updCw (\<lambda>w. w\<lparr>net := net w @ [ConnClosed c]\<rparr>) s)"
    by (rule server_ok_updCw [OF Cons.prems(1)]) (simp add: server_ok_hub [OF Cons.prems(1)])
  note C = wsControl_spec [OF Cons.prems, of S c payload]
  have ctl: "\<exists>s1 b. wsBatch S u c r ms (wsControl S c r payload s) = Ret (s1, b) \<and> server_ok s1 \<and>
      GetClient (hb (sy s1)) = GetClient (hb (sy s))"
    using Cons.IH [OF C(1)] C(2,3) Cons.prems(2) by simp
  show ?case
  proof (cases "IsControl op \<or> REJECT_MSG_CPU_Threshold < u \<or> \<not> IsAlive (rds (hb (sy s)))")
    case True
    then show ?thesis using m net ctl Cons.prems(1) by auto
  next
    case False
    show ?thesis
    proof (cases "sUnmarshal S (cleanPayload payload)")
      case (Inl e)
      then show ?thesis using m False Cons.IH [OF Cons.prems] by (simp add: NewHandler_def)
    next
      case (Inr sig)
      have "sys_ok (sy s)" using Cons.prems(1) by (simp add: server_ok_def)
      then obtain st where st: "Handle (sE S) (NewHandlerMsg sig r) (sy s) = Ret st" "keeps (sy s) st"
        using Handle_keeps [OF assms(1)] Cons.prems(2) by blast
      then have "r < length (heap (cwOf (s\<lparr>sy := st\<rparr>)))" "GetClient (hb st) = GetClient (hb (sy s))"
        using Cons.prems(2) by (simp_all add: keeps_def)
      with Cons.IH [OF keeps_server_ok [OF Cons.prems(1) st(2)]] show ?thesis
        using m False Inr st(1) by (simp add: NewHandler_def)
    qed
  qed
qed

lemma wsRead_spec:
  assumes E: "env_ok (sE S)" and ok: "server_ok s" and g: "GetClient (hb (sy s)) p = Some r" "p \<noteq> []"
  shows "\<exists>s1 b. wsRead S p c r msgs s = Ret (s1, b) \<and> server_ok s1 \<and>
    GetClient (hb (sy s1)) = (if b then GetClient (hb (sy s)) else (GetClient (hb (sy s)))(p := None))"
proof (cases msgs)
  case None
  obtain s1 where "leave S p r s = Ret s1" "server_ok s1" "GetClient (hb (sy s1)) = (GetClient (hb (sy s)))(p := None)"
    using leave_spec [OF ok g, of S] by blast
  then show ?thesis using None by (intro exI [of _ s1] exI [of _ False]) (simp add: wsRead_def)
next
  case (Some ms)
  obtain s1 b where 1: "wsBatch S (G_CPU s) c r ms s = Ret (s1, b)" "server_ok s1"
      "GetClient (hb (sy s1)) = GetClient (hb (sy s))"
    using wsBatch_spec [OF E ok GetClient_server_valid [OF ok g(1)], of "G_CPU s" c ms] by blast
  show ?thesis
  proof (cases b)
    case True
    have "GetClient (hb (sy s1)) p = Some r" using 1(3) g(1) by simp
    from leave_spec [OF 1(2) this g(2), of S] obtain s2 where "leave S p r s1 = Ret s2" "server_ok s2"
        "GetClient (hb (sy s2)) = (GetClient (hb (sy s1)))(p := None)" by blast
    then show ?thesis using Some 1 True by (intro exI [of _ s2] exI [of _ False]) (simp add: wsRead_def)
  next
    case False
    then show ?thesis using Some 1 by (intro exI [of _ s1] exI [of _ True]) (simp add: wsRead_def)
  qed
qed

text \<open>
  C7: The reader of a websocket is safe: for a registered client, whatever the peer sends, control
  frames, garbage or any sequence of messages, or when the read fails, a round of the reader ends
  without a panic and without blocking and keeps the invariant; the client is still registered
  exactly if the reader goes on, and all other clients are.
\<close>

theorem reader_safe:
  assumes E: "env_ok (sE S)" and ok: "server_ok s" and g: "GetClient (hb (sy s)) p = Some r" "p \<noteq> []"
  shows "\<exists>s1 b. wsRead S p c r msgs s = Ret (s1, b) \<and> server_ok s1 \<and>
    GetClient (hb (sy s1)) = (if b then GetClient (hb (sy s)) else (GetClient (hb (sy s)))(p := None))"
  using wsRead_spec [OF E ok g] .

lemma sweepClient_spec:
  assumes ok: "server_ok s" and g: "GetClient (hb (sy s)) k = Some r" and k: "k \<noteq> []"
  shows "\<exists>s1 n1. sweepClient S now r (s, n) = Ret (s1, n1) \<and> server_ok s1 \<and> heap (cwOf s1) = heap (cwOf s) \<and>
    GetClient (hb (sy s1)) = (if IsExpired now (cliOf s r) then (GetClient (hb (sy s)))(k := None) else GetClient (hb (sy s))) \<and>
    n1 = (if IsExpired now (cliOf s r) then countRemoved else countKept) (IsPolling (cliOf s r)) n"
proof (cases "IsExpired now (cliOf s r)")
  case True
  note h = server_ok_hub [OF ok]
  note D = hub_okD [OF h g]
  obtain h1 b where u: "DoUnregister (eApi (sE S)) k (hb (sy s)) = (h1, b)" by fastforce
  have b: "b" "cw h1 = cwOf s" using DoUnregister_spec(3,4) [OF h u] g k by auto
  obtain s1 where l: "leave S k r s = Ret s1" "server_ok s1" "GetClient (hb (sy s1)) = (GetClient (hb (sy s)))(k := None)"
      "heap (cwOf s1) = heap (cwOf s)"
    using leave_spec [OF ok g k] by blast
  then obtain w err where c: "Close (eWs (sE S)) r (cwOf s) = Ret (w, err)" "s1 = updHb (\<lambda>_. h1\<lparr>cw := w\<rparr>) s"
    using u b by (cases "Close (eWs (sE S)) r (cwOf s)") (auto simp: leave_def)
  have "IsPolling (obj w r) = IsPolling (cliOf s r)" using l(4) c(2) by (simp add: obj_def)
  then show ?thesis using True D(3) u b c l by (simp add: sweepClient_def)
qed (use assms in \<open>simp add: sweepClient_def\<close>)

definition sweepTotal :: "sweep_count \<Rightarrow> nat" where
  "sweepTotal n = wsCountRemoved n + httpCountRemoved n + wsCount n + httpCount n"

definition sweepRemoved :: "sweep_count \<Rightarrow> nat" where
  "sweepRemoved n = wsCountRemoved n + httpCountRemoved n"

lemma count_simps [simp]:
  "sweepTotal (countRemoved b n) = Suc (sweepTotal n)" "sweepTotal (countKept b n) = Suc (sweepTotal n)"
  "sweepRemoved (countRemoved b n) = Suc (sweepRemoved n)" "sweepRemoved (countKept b n) = sweepRemoved n"
  by (simp_all add: sweepTotal_def sweepRemoved_def countRemoved_def countKept_def)

lemma sweepShard_spec:
  assumes "server_ok s" and "distinct (map fst vals)"
    and "\<And>k r. (k, r) \<in> set vals \<Longrightarrow> GetClient (hb (sy s)) k = Some r \<and> k \<noteq> []"
  shows "\<exists>s1 n1. sweepShard S now vals (s, n) = Ret (s1, n1) \<and> server_ok s1 \<and> heap (cwOf s1) = heap (cwOf s) \<and>
    (\<forall>p. GetClient (hb (sy s1)) p =
      (if \<exists>r. (p, r) \<in> set vals \<and> IsExpired now (cliOf s r) then None else GetClient (hb (sy s)) p)) \<and>
    sweepTotal n1 = sweepTotal n + length vals"
  using assms
proof (induction vals arbitrary: s n)
  case Nil
  then show ?case by simp
next
  case (Cons v vals)
  obtain k r where v: "v = (k, r)" by fastforce
  obtain s1 n1 where 1: "sweepClient S now r (s, n) = Ret (s1, n1)" "server_ok s1" "heap (cwOf s1) = heap (cwOf s)"
      "GetClient (hb (sy s1)) = (if IsExpired now (cliOf s r) then (GetClient (hb (sy s)))(k := None) else GetClient (hb (sy s)))"
      "sweepTotal n1 = Suc (sweepTotal n)"
    using sweepClient_spec [OF Cons.prems(1), of k r S now n] Cons.prems(3) [of k r] v by auto
  have o: "cliOf s1 q = cliOf s q" for q using 1(3) by (simp add: obj_def)
  have "GetClient (hb (sy s1)) k' = Some r' \<and> k' \<noteq> []" if "(k', r') \<in> set vals" for k' r'
  proof -
    have "k' \<noteq> k" using Cons.prems(2) that v by force
    then show ?thesis using Cons.prems(3) [of k' r'] that 1(4) by auto
  qed
  from Cons.IH [OF 1(2) _ this, of n1] Cons.prems(2)
  obtain s2 n2 where 2: "sweepShard S now vals (s1, n1) = Ret (s2, n2)" "server_ok s2" "heap (cwOf s2) = heap (cwOf s1)"
      "\<And>p. GetClient (hb (sy s2)) p =
        (if \<exists>r. (p, r) \<in> set vals \<and> IsExpired now (cliOf s r) then None else GetClient (hb (sy s1)) p)"
      "sweepTotal n2 = sweepTotal n1 + length vals"
    unfolding o by auto
  have "GetClient (hb (sy s2)) p =
      (if \<exists>r. (p, r) \<in> set (v # vals) \<and> IsExpired now (cliOf s r) then None else GetClient (hb (sy s)) p)" for p
    using 2(4) [of p] 1(4) v Cons.prems(3) by (auto split: if_splits)
  then show ?case using 1 2 v by auto
qed


lemma shard_clients:
  assumes "hub_ok h" "i < SHARD_COUNT"
  shows "(k, r) \<in> set (Clients h ! i) \<longleftrightarrow> GetClient h k = Some r \<and> shardIndex k = i"
    and "distinct (map fst (Clients h ! i))"
    and "length (Clients h ! i) = card {p \<in> dom (GetClient h). shardIndex p = i}"
proof -
  have m: "cmap_ok (Clients h)" using assms(1) by (simp add: hub_ok_def)
  then have sh: "gm_ok (Clients h ! i)" using assms(2) by (simp add: cmap_ok_def)
  show 1: "(k, r) \<in> set (Clients h ! i) \<longleftrightarrow> GetClient h k = Some r \<and> shardIndex k = i" for k r
    using gm_get_in [OF sh, of k r] cmap_ok_index [OF m _ assms(2), of k r]
    by (auto simp: GetClient_def cmGet_def GetShard_def)
  show d: "distinct (map fst (Clients h ! i))" using sh by (simp add: gm_ok_def)
  have "set (map fst (Clients h ! i)) = {p \<in> dom (GetClient h). shardIndex p = i}" using 1 by force
  then show "length (Clients h ! i) = card {p \<in> dom (GetClient h). shardIndex p = i}"
    using distinct_card [OF d] by simp
qed

text \<open>The peers of the shards \<open>i # js\<close> are those of shard \<open>i\<close> and, apart from them, those of \<open>js\<close>.\<close>

lemma card_shards_Cons:
  assumes "finite (dom G)" "i \<notin> set js" "\<And>p. shardIndex p \<noteq> i \<Longrightarrow> G1 p = G p"
  shows "card {p \<in> dom G. shardIndex p \<in> set (i # js)} =
    card {p \<in> dom G. shardIndex p = i} + card {p \<in> dom G1. shardIndex p \<in> set js}"
proof -
  have js: "{p \<in> dom G1. shardIndex p \<in> set js} = {p \<in> dom G. shardIndex p \<in> set js}"
    using assms(2,3) by (auto simp: dom_def) (metis option.distinct(1))+
  have "{p \<in> dom G. shardIndex p \<in> set (i # js)} = {p \<in> dom G. shardIndex p = i} \<union> {p \<in> dom G. shardIndex p \<in> set js}"
    by auto
  then show ?thesis unfolding js using assms(1,2) by (simp add: card_Un_disjoint disjoint_iff)
qed

lemma sweepShards_spec:
  assumes "server_ok s" "distinct is" "\<forall>i \<in> set is. i < SHARD_COUNT" "GetClient (hb (sy s)) [] = None"
  shows "\<exists>s1 n1. sweepShards S clock is (s, n) = Ret (s1, n1) \<and> server_ok s1 \<and> heap (cwOf s1) = heap (cwOf s) \<and>
    (\<forall>p. GetClient (hb (sy s1)) p = (case GetClient (hb (sy s)) p of None \<Rightarrow> None | Some r \<Rightarrow>
      if shardIndex p \<in> set is \<and> IsExpired (clock (shardIndex p)) (cliOf s r) then None else Some r)) \<and>
    sweepTotal n1 = sweepTotal n + card {p \<in> dom (GetClient (hb (sy s))). shardIndex p \<in> set is}"
  using assms
proof (induction "is" arbitrary: s n)
  case Nil
  then show ?case by (auto split: option.splits)
next
  case (Cons i js)
  note h = server_ok_hub [OF Cons.prems(1)]
  have i: "i < SHARD_COUNT" "i \<notin> set js" "distinct js" using Cons.prems(2,3) by auto
  note C = shard_clients [OF h i(1)]
  let ?vals = "Clients (hb (sy s)) ! i" and ?G = "GetClient (hb (sy s))"
  have "length (Clients (hb (sy s))) = SHARD_COUNT" using h by (simp add: hub_ok_def cmap_ok_length)
  then have ch: "GetChanByShard (Clients (hb (sy s))) i = Inr ?vals" using i by (simp add: GetChanByShard_def)
  have "?G k = Some r \<and> k \<noteq> []" if "(k, r) \<in> set ?vals" for k r using that C(1) Cons.prems(4) by auto
  from sweepShard_spec [OF Cons.prems(1) C(2) this, of S "clock i" n]
  obtain s1 n1 where 1: "sweepShard S (clock i) ?vals (s, n) = Ret (s1, n1)" "server_ok s1" "heap (cwOf s1) = heap (cwOf s)"
      "\<And>p. GetClient (hb (sy s1)) p =
        (if \<exists>r. (p, r) \<in> set ?vals \<and> IsExpired (clock i) (cliOf s r) then None else ?G p)"
      "sweepTotal n1 = sweepTotal n + length ?vals" by auto
  have o: "cliOf s1 q = cliOf s q" for q using 1(3) by (simp add: obj_def)
  have off: "GetClient (hb (sy s1)) p = ?G p" if "shardIndex p \<noteq> i" for p using 1(4) [of p] C(1) that by auto
  have "GetClient (hb (sy s1)) [] = None" using 1(4) [of "[]"] Cons.prems(4) by simp
  from Cons.IH [OF 1(2) i(3) _ this, of n1] Cons.prems(3)
  obtain s2 n2 where 2: "sweepShards S clock js (s1, n1) = Ret (s2, n2)" "server_ok s2" "heap (cwOf s2) = heap (cwOf s1)"
      "\<And>p. GetClient (hb (sy s2)) p = (case GetClient (hb (sy s1)) p of None \<Rightarrow> None | Some r \<Rightarrow>
        if shardIndex p \<in> set js \<and> IsExpired (clock (shardIndex p)) (cliOf s r) then None else Some r)"
      "sweepTotal n2 = sweepTotal n1 + card {p \<in> dom (GetClient (hb (sy s1))). shardIndex p \<in> set js}"
    unfolding o by auto
  have fin: "finite (dom ?G)" using h by (simp add: GetClient_def [abs_def] hub_ok_def cm.finite_keys)
  have tot: "sweepTotal n2 = sweepTotal n + card {p \<in> dom ?G. shardIndex p \<in> set (i # js)}"
    using 1(5) 2(5) C(3) card_shards_Cons [OF fin i(2) off] by simp
  have "GetClient (hb (sy s2)) p = (case ?G p of None \<Rightarrow> None | Some r \<Rightarrow>
      if shardIndex p \<in> set (i # js) \<and> IsExpired (clock (shardIndex p)) (cliOf s r) then None else Some r)" for p
    using 2(4) [of p] 1(4) [of p] off [of p] C(1) i(2) by (cases "shardIndex p = i") (auto split: option.splits)
  then show ?case using 1 2 tot ch by auto
qed

lemma checkConns_spec:
  assumes "server_ok s" and "GetClient (hb (sy s)) [] = None"
  shows "\<exists>s1 n. checkConns S clock s = Ret (s1, n) \<and> server_ok s1 \<and> heap (cwOf s1) = heap (cwOf s) \<and>
    (\<forall>p. GetClient (hb (sy s1)) p = (case GetClient (hb (sy s)) p of None \<Rightarrow> None | Some r \<Rightarrow>
      if IsExpired (clock (shardIndex p)) (obj (cw (hb (sy s))) r) then None else Some r)) \<and>
    sweepTotal n = card (dom (GetClient (hb (sy s))))"
proof -
  have mem: "(shardIndex p \<in> set [0..<SHARD_COUNT]) = True" for p by simp
  show ?thesis
    using sweepShards_spec [OF assms(1) _ _ assms(2), of "[0..<SHARD_COUNT]" S clock
        "\<lparr>wsCountRemoved = 0, httpCountRemoved = 0, wsCount = 0, httpCount = 0\<rparr>", unfolded mem simp_thms]
    by (simp add: checkConns_def sweepTotal_def)
qed



section \<open>Who gets in\<close>

definition tokenSign :: "config \<Rightarrow> string \<Rightarrow> string \<Rightarrow> string" where
  "tokenSign c tsStr p = take 8 (hexEncode (HMAC_MD5 (securityToken c) (tsStr @ p)))"

lemma tokenSign_no_minus: "CHR ''-'' \<notin> set (tokenSign c ts p)"
  using hexEncode_no_minus set_take_subset by (fastforce simp: tokenSign_def)

lemma Split_two:
  assumes "2 \<le> length (Split sep q)"
  shows "\<exists>tail. q = Split sep q ! 0 @ sep # Split sep q ! 1 @ tail \<and> (tail = [] \<or> hd tail = sep)"
proof -
  obtain a b rest where s: "Split sep q = a # b # rest"
    using assms by (cases "Split sep q" rule: remdups_adj.cases) auto
  have "q = joinWith sep (a # b # rest)" using join_Split [of sep q] s by simp
  then show ?thesis using s by (cases rest) auto
qed

text \<open>
  C10: The token check is exact: a token is accepted if and only if it starts with the first eight
  hexadecimal digits of the keyed digest of time stamp and id, followed by that time stamp, and the
  time stamp is a number not further from the clock than the configured age; a part after a further
  dash is ignored. In particular the token a client makes for a time in that window is accepted.
\<close>

theorem checkToken_correct:
  assumes "in_i64 (now - maxTimeStampAge c)" and "in_i64 (now + maxTimeStampAge c)"
  shows "(checkToken c now p tok \<longleftrightarrow>
      (\<exists>tsStr tail ts. tok = tokenSign c tsStr p @ CHR ''-'' # tsStr @ tail \<and> CHR ''-'' \<notin> set tsStr \<and>
        (tail = [] \<or> hd tail = CHR ''-'') \<and> ParseInt64 tsStr = (ts, None) \<and>
        now - maxTimeStampAge c \<le> ts \<and> ts \<le> now + maxTimeStampAge c)) \<and>
    (0 \<le> ts0 \<and> now - maxTimeStampAge c \<le> ts0 \<and> ts0 \<le> now + maxTimeStampAge c \<longrightarrow>
      checkToken c now p (tokenSign c (FormatInt ts0) p @ CHR ''-'' # FormatInt ts0))"
proof -
  have w: "i64 (now - maxTimeStampAge c) = now - maxTimeStampAge c" "i64 (now + maxTimeStampAge c) = now + maxTimeStampAge c"
    using assms by (simp_all add: i64_id)
  have accept: "checkToken c now p (tokenSign c tsStr p @ CHR ''-'' # tsStr @ tail)"
    if t: "CHR ''-'' \<notin> set tsStr" "tail = [] \<or> hd tail = CHR ''-''" "ParseInt64 tsStr = (ts, None)"
      "now - maxTimeStampAge c \<le> ts" "ts \<le> now + maxTimeStampAge c" for tsStr tail ts
  proof -
    have "\<exists>rest. Split CHR ''-'' (tokenSign c tsStr p @ CHR ''-'' # tsStr @ tail) = tokenSign c tsStr p # tsStr # rest"
    proof (cases tail)
      case Nil
      then show ?thesis using Split_Cons [OF tokenSign_no_minus] Split_single [OF t(1)] by simp
    next
      case (Cons a tl)
      then show ?thesis using Split_Cons [OF tokenSign_no_minus] Split_Cons [OF t(1)] t(2) by simp
    qed
    then show ?thesis using t w by (auto simp: checkToken_def Let_def tokenSign_def)
  qed
  have "\<exists>tsStr tail ts. tok = tokenSign c tsStr p @ CHR ''-'' # tsStr @ tail \<and> CHR ''-'' \<notin> set tsStr \<and>
      (tail = [] \<or> hd tail = CHR ''-'') \<and> ParseInt64 tsStr = (ts, None) \<and>
      now - maxTimeStampAge c \<le> ts \<and> ts \<le> now + maxTimeStampAge c" if k: "checkToken c now p tok"
  proof -
    let ?t = "Split CHR ''-'' tok"
    have l: "2 \<le> length ?t" using k by (auto simp: checkToken_def Let_def split: if_splits)
    obtain ts where ts: "ParseInt64 (?t ! 1) = (ts, None)" "now - maxTimeStampAge c \<le> ts" "ts \<le> now + maxTimeStampAge c"
        "?t ! 0 = tokenSign c (?t ! 1) p"
      using k w by (auto simp: checkToken_def Let_def tokenSign_def split: if_splits prod.splits option.splits)
    have "?t ! 1 \<in> set ?t" using l by simp
    then have "CHR ''-'' \<notin> set (?t ! 1)" by (rule Split_no_sep)
    then show ?thesis using Split_two [OF l] ts by metis
  qed
  moreover have "checkToken c now p (tokenSign c (FormatInt ts0) p @ CHR ''-'' # FormatInt ts0)"
    if "0 \<le> ts0" "now - maxTimeStampAge c \<le> ts0" "ts0 \<le> now + maxTimeStampAge c"
  proof -
    have "in_i64 ts0" using that assms by (simp add: in_i64_def)
    then show ?thesis
      using accept [of "FormatInt ts0" "[]" ts0] that showNat_no_char [of "CHR ''-''"]
      by (simp add: ParseInt64_FormatInt) (simp add: FormatInt_def is_digit_def)
  qed
  ultimately show ?thesis using accept by blast
qed

definition demoConf :: config where
  "demoConf = \<lparr>limitEnabled = False, limitRate = 0, securityEnabled = True, maxTimeStampAge = 3600,
     securityToken = ''%!$y&2'', statsEnabled = False, StatsToken = []\<rparr>"

theorem checkToken_correct_witness:
  "checkToken demoConf 1700000000 ''peer-abc''
     (tokenSign demoConf (FormatInt 1700000100) ''peer-abc'' @ CHR ''-'' # FormatInt 1700000100)"
  using checkToken_correct [of 1700000000 demoConf "''peer-abc''" "[]" 1700000100]
  by (simp add: demoConf_def in_i64_def)



section \<open>Delivery to the peers\<close>

lemma pollBody_join: "ms \<noteq> [] \<Longrightarrow> pollBody ms = ''['' @ joinWith CHR '','' ms @ '']''"
proof -
  have "concat (map (\<lambda>m. m @ '','') ms) = joinWith CHR '','' ms @ '',''" if "ms \<noteq> []" for ms :: "bytes list"
    using that by (induction "CHR '',''" ms rule: joinWith.induct) auto
  then show "ms \<noteq> [] \<Longrightarrow> pollBody ms = ''['' @ joinWith CHR '','' ms @ '']''"
    by (simp add: pollBody_def butlast_append)
qed

lemma pollingHandler_known:
  assumes "commonCheck S s = Ret (s1, True)" "\<not> badId (queryGet rq ''id'')" "authorized S rq s1"
    "GetClient (hb (sy s1)) (queryGet rq ''id'') = Some r" "IsPolling (cliOf s1 r)"
  shows "pollingHandler S rq s w = pollQueue S r s1 w"
  using assms by (simp add: pollingHandler_def Let_def)

text \<open>
  C12: Polling delivers every message once and in order: a poll of a peer with waiting messages returns
  all of them as one JSON array and empties the queue; a poll with none waits, and a message that
  arrives later is returned alone and taken from the queue.
\<close>

theorem poll_delivers:
  assumes ok: "server_ok s1" and c: "commonCheck S s = Ret (s1, True)"
    and rq: "\<not> badId (queryGet rq ''id'')" "authorized S rq s1"
    and g: "GetClient (hb (sy s1)) (queryGet rq ''id'') = Some r" "IsPolling (obj (cw (hb (sy s1))) r)"
    and later: "server_ok s3" "r < length (heap (cw (hb (sy s3))))" "IsPolling (obj (cw (hb (sy s3))) r)"
      "queue (cw (hb (sy s3))) r = m # ms"
  shows "(queue (cw (hb (sy s1))) r \<noteq> [] \<longrightarrow>
      (\<exists>s2 w. pollingHandler S rq s newWriter = Ret (Answered s2 w) \<and> finalStatus w = 200 \<and>
        rwBody w = ''['' @ joinWith CHR '','' (queue (cw (hb (sy s1))) r) @ '']'' \<and> queue (cw (hb (sy s2))) r = [] \<and> server_ok s2)) \<and>
    (queue (cw (hb (sy s1))) r = [] \<longrightarrow> (\<exists>s2. pollingHandler S rq s newWriter = Ret (Waiting s2 newWriter r) \<and> server_ok s2)) \<and>
    (\<exists>s4 w. pollingResume S PollMsg (queryGet rq ''id'') r s3 newWriter = Ret (s4, w) \<and> finalStatus w = 200 \<and>
      rwBody w = ''['' @ m @ '']'' \<and> queue (cw (hb (sy s4))) r = ms \<and> server_ok s4)"
proof (intro conjI impI)
  note v = GetClient_server_valid [OF ok g(1)]
  obtain res where p: "pollQueue S r s1 newWriter = Ret res" "server_ok (pollServer res)"
      "if queue (cwOf s1) r = [] then res = Waiting (updCw (UpdateTs (eUnix (sE S)) r) s1) newWriter r
       else res = Answered (pollServer res) (rwWrite (pollBody (queue (cwOf s1) r)) (SetHeaderJson newWriter)) \<and>
         queue (cwOf (pollServer res)) r = []"
    using pollQueue_spec [OF ok v g(2), of S newWriter] by blast
  note h = pollingHandler_known [OF c rq g, of newWriter]
  show "\<exists>s2 w. pollingHandler S rq s newWriter = Ret (Answered s2 w) \<and> finalStatus w = 200 \<and>
      rwBody w = ''['' @ joinWith CHR '','' (queue (cwOf s1) r) @ '']'' \<and> queue (cwOf s2) r = [] \<and> server_ok s2"
    if ne: "queue (cwOf s1) r \<noteq> []"
  proof (intro exI conjI)
    show "pollingHandler S rq s newWriter =
        Ret (Answered (pollServer res) (rwWrite (pollBody (queue (cwOf s1) r)) (SetHeaderJson newWriter)))"
      using h p ne by simp
  qed (use p ne pollBody_join [OF ne] in \<open>simp_all add: finalStatus_def SetHeaderJson_def newWriter_def\<close>)
  show "\<exists>s2. pollingHandler S rq s newWriter = Ret (Waiting s2 newWriter r) \<and> server_ok s2" if "queue (cwOf s1) r = []"
    using h p that by auto
  show "\<exists>s4 w. pollingResume S PollMsg (queryGet rq ''id'') r s3 newWriter = Ret (s4, w) \<and> finalStatus w = 200 \<and>
      rwBody w = ''['' @ m @ '']'' \<and> queue (cwOf s4) r = ms \<and> server_ok s4"
  proof (rule polling_client [OF later(1-3)])
    fix q assume q: "MsgQueue (cliOf s3 r) = Some q" "queue_ok q" "queue (cwOf s3) r = chbuf q"
    let ?q1 = "q\<lparr>chbuf := ms\<rparr>"
    have buf: "chbuf q = m # ms" using q(3) later(4) by simp
    have recv: "chan_recv q = Received m ?q1" using buf by (rule chan_recv_Cons)
    have q1: "queue_ok ?q1" using q(2) buf by (simp add: queue_ok_def chan_ok_def)
    have "queue (cwOf (setQueue r ?q1 s3)) r = ms" using later(2) by (simp add: setQueue_def queue_push)
    then show ?thesis
      using q(1) recv server_ok_setQueue [OF later(1,3) q1]
      by (simp add: pollingResume_def finalStatus_def SetHeaderJson_def newWriter_def)
  qed
qed



section \<open>Flaws\<close>


text \<open>
  A websocket that fails the common check after it was registered stays behind: the peer is told
  with a close frame, but it remains registered, its connection is not closed and nobody reads from
  it, so messages to this peer go to a dead session until it expires.
\<close>

theorem failed_check_leaves_session:
  assumes ok: "server_ok s" and rq: "\<not> badId p" "p = queryGet rq ''id''" "authorized S rq s"
    and new: "GetClient (hb (sy s)) p = None" and busy: "720 < G_CPU s"
  shows "\<exists>s1 r frames. wsHandler S (Inr c) rq s = Ret (s1, None) \<and> GetClient (hb (sy s1)) p = Some r \<and>
    Conn (obj (cw (hb (sy s1))) r) = Some c \<and> \<not> IsPolling (obj (cw (hb (sy s1))) r) \<and>
    net (cw (hb (sy s1))) = net (cw (hb (sy s))) @ map (RawWrite c) frames"
proof (rule joinWs_spec [OF ok, of S p c])
  fix r s1
  assume j: "joinWs S p c s = (r, s1)" "GetClient (hb (sy s1)) = (GetClient (hb (sy s)))(p \<mapsto> r)"
    "cliOf s1 r = \<lparr>Conn = Some c, PeerId = p, Timestamp = eUnix (sE S), IsPolling = False, MsgQueue = None\<rparr>"
    "G_CPU s1 = G_CPU s" "net (cwOf s1) = net (cwOf s)"
  obtain hdr body where f: "sCloseFrame S 5000 ''check failed'' = (hdr, body)" by fastforce
  have "wsHandler S (Inr c) rq s = Ret (reject S c 5000 ''check failed'' s1, None)"
    using rq new busy j(1,4) by (simp add: wsHandler_def Let_def wsStart_def commonCheck_def REJECT_JOIN_CPU_Threshold_def)
  moreover have "net (cwOf (reject S c 5000 ''check failed'' s1)) = net (cwOf s) @ map (RawWrite c) [hdr, body]"
    using f j(5) by (simp add: reject_def WriteCustomStatusCode_def)
  moreover have "cliOf (reject S c 5000 ''check failed'' s1) r = cliOf s1 r"
    using f by (simp add: reject_def WriteCustomStatusCode_def)
  moreover have "GetClient (hb (sy (reject S c 5000 ''check failed'' s1))) p = Some r"
    using j(2) by (simp add: reject_def)
  ultimately show ?thesis using j(3) by (metis client.select_convs(1,4))
qed

text \<open>
  C40: The reader of an old session can end the new one: after a websocket client was removed as expired
  and the peer connected again, getting the recycled object, the reader of the old connection ends,
  unregisters the peer once more and closes the new connection.
\<close>

theorem old_reader_ends_new_session:
  assumes ok: "server_ok s" and g: "GetClient (hb (sy s)) p = Some r" "p \<noteq> []" "Conn (obj (cw (hb (sy s))) r) = Some c"
    "\<not> IsPolling (obj (cw (hb (sy s))) r)"
    and gone: "leave S p r s = Ret s1" and again: "sPick S = 0" "joinWs S p c2 s1 = (r2, s2)"
  shows "GetClient (hb (sy s2)) p = Some r2 \<and> r2 = r \<and>
    (\<exists>s3. wsRead S p c r None s2 = Ret (s3, False) \<and> GetClient (hb (sy s3)) p = None \<and>
      ConnClosed c2 \<in> set (net (cw (hb (sy s3)))))"
proof -
  note h = server_ok_hub [OF ok]
  have w: "cworld_ok (cwOf s)" using h by (simp add: hub_ok_def)
  note D = hub_okD [OF h g(1)]
  obtain h1 where u: "DoUnregister (eApi (sE S)) p (hb (sy s)) = (h1, True)" "cw h1 = cwOf s"
    using DoUnregister_spec(3,4) [OF h] g(1,2) by (metis option.distinct(1) surj_pair)
  obtain w' err where c: "Close (eWs (sE S)) r (cwOf s) = Ret (w', err)" "pool w' = r # pool (cwOf s)"
    using Close_spec [OF w D(1,2), of "eWs (sE S)"] by blast
  have s1: "s1 = updHb (\<lambda>_. h1\<lparr>cw := w'\<rparr>) s" using gone u c(1) by (simp add: leave_def)
  have ok1: "server_ok s1" using leave_spec [OF ok g(1,2), of S] gone by auto
  have pool: "pool (cwOf s1) = r # pool (cwOf s)" using s1 c(2) by simp
  have r2: "r2 = r" using again pool
    by (auto simp: joinWs_def NewWebsocketPeerClient_def poolGet_def split: prod.splits)
  obtain s2' where j: "joinWs S p c2 s1 = (r, s2')" "server_ok s2'" "GetClient (hb (sy s2')) = (GetClient (hb (sy s1)))(p \<mapsto> r)"
      "cliOf s2' r = \<lparr>Conn = Some c2, PeerId = p, Timestamp = eUnix (sE S), IsPolling = False, MsgQueue = None\<rparr>"
    using joinWs_spec [OF ok1, of S p c2] again(2) r2 by (metis prod.inject)
  have s2: "s2' = s2" using j(1) again(2) by simp
  have g2: "GetClient (hb (sy s2)) p = Some r" using j(3) s2 by simp
  obtain s3 where l: "leave S p r s2 = Ret s3" "GetClient (hb (sy s3)) p = None"
    using leave_spec [OF j(2) [unfolded s2] g2 g(2), of S] by auto
  note h2 = server_ok_hub [OF j(2) [unfolded s2]]
  obtain h3 where u2: "DoUnregister (eApi (sE S)) p (hb (sy s2)) = (h3, True)" "cw h3 = cwOf s2"
    using DoUnregister_spec(3,4) [OF h2] g2 g(2) by (metis option.distinct(1) surj_pair)
  have "Close (eWs (sE S)) r (cwOf s2) = Ret ((poolPut r (cwOf s2))\<lparr>net := net (cwOf s2) @ [ConnClosed c2]\<rparr>, wsClose (eWs (sE S)) (net (cwOf s2)) c2)"
    using j(4) s2 by (simp add: Close_def closeConn_def) (simp add: poolPut_def)
  then have "ConnClosed c2 \<in> set (net (cwOf s3))" using l(1) u2 by (auto simp: leave_def)
  then show ?thesis using g2 r2 l by (simp add: wsRead_def)
qed

text \<open>
  Two polls of one peer at the same time: both read the length of the queue, the first one takes
  the messages, and the second one then waits in the loop that has neither the time limit nor the
  check whether the peer is still there, until as many new messages arrive.
\<close>

theorem second_poll_blocks:
  assumes ok: "server_ok s" and r: "r < length (heap (cw (hb (sy s))))" "IsPolling (obj (cw (hb (sy s))) r)"
    and k: "k = queueLen (obj (cw (hb (sy s))) r)" "0 < k" and first: "drainQueue k r s w = Ret (s1, w1)"
  shows "drainQueue k r s1 w2 = Blocks"
proof (rule polling_client [OF ok r])
  fix q assume q: "MsgQueue (cliOf s r) = Some q" "queue_ok q" "queueLen (cliOf s r) = length (chbuf q)"
  have "s1 = setQueue r (q\<lparr>chbuf := []\<rparr>) s" using first q drain_all [of q] k(1) by (simp add: drainQueue_def)
  then have "MsgQueue (cliOf s1 r) = Some (q\<lparr>chbuf := []\<rparr>)" using r(1) by (simp add: setQueue_def obj_setObj)
  moreover have "drain k (q\<lparr>chbuf := []\<rparr>) = Blocks"
    using k(2) q(2) by (cases k) (simp_all add: chan_recv_def queue_ok_def)
  ultimately show ?thesis by (simp add: drainQueue_def)
qed


section \<open>Examples\<close>

definition demoSenv :: "(mem_store, string) senv" where
  "demoSenv = \<lparr>sE = demoEnv, sPick = 0, sNow = 0, sUnmarshal = \<lambda>_. Inl [], sUnmarshalList = \<lambda>_. Inl [],
     sVerMarshal = \<lambda>_. Inr ''v'', sCloseFrame = \<lambda>_ _. (''h'', ''b''), sControl = \<lambda>_ _ _. [], sCrashed = \<lambda>s. s\<rparr>"

definition demoServer :: "mem_store server" where
  "demoServer = \<lparr>sy = demoSys, conf = demoConf\<lparr>securityEnabled := False\<rparr>, limiter = None, G_CPU = 100\<rparr>"

definition demoFull :: "mem_store server" where
  "demoFull = setQueue 0 \<lparr>chbuf = [''m1'', ''m2''], chcap = POLLING_QUEUE_SIZE, chclosed = False\<rparr> demoServer"

definition demoRq :: "string \<Rightarrow> request" where
  "demoRq p = \<lparr>rqMethod = ''GET'', rqUpgrade = [], rqOrigin = [], rqQuery = [(''id'', p)], rqBody = Inr []\<rparr>"

lemma demoServer_ok: "server_ok demoServer"
  using demoSys_ok by (simp add: server_ok_def demoServer_def limiter_ok_def demoConf_def)

lemma demoServer_simps:
  "cwOf demoServer = demoWorld" "GetClient (hb (sy demoServer)) = GetClient demoHub" "conf demoServer = demoConf\<lparr>securityEnabled := False\<rparr>"
  "G_CPU demoServer = 100" "IsAlive (rds (hb (sy demoServer)))" "limiter demoServer = None"
  by (simp_all add: demoServer_def demoSys_simps demoHub_facts)
    (simp add: demoHub_def DoRegister_def Let_def InitHub_def SetLocalPeer_def memRedis_def emptyStore_def)

lemma demoFull_ok: "server_ok demoFull"
  unfolding demoFull_def
  by (rule server_ok_setQueue [OF demoServer_ok])
    (simp_all add: demoServer_simps demoWorld_simps queue_ok_def chan_ok_def POLLING_QUEUE_SIZE_def)

lemma demoFull_simps:
  "GetClient (hb (sy demoFull)) ''peer-a'' = Some 0" "IsPolling (cliOf demoFull 0)" "queue (cwOf demoFull) 0 = [''m1'', ''m2'']"
  "queueLen (cliOf demoFull 0) = 2" "conf demoFull = conf demoServer" "G_CPU demoFull = 100" "IsAlive (rds (hb (sy demoFull)))"
  "net (cwOf demoFull) = []" "0 < length (heap (cwOf demoFull))"
  using demoServer_simps
  by (simp_all add: demoFull_def setQueue_def demoHub_facts demoWorld_simps obj_setObj queue_def queueLen_def chan_len_def)
    (simp_all add: demoWorld_eq)

lemma demo_check:
  "commonCheck demoSenv demoServer = Ret (demoServer, True)" "commonCheck demoSenv demoFull = Ret (demoFull, True)"
  by (simp_all add: commonCheck_def demoServer_simps demoFull_simps REJECT_JOIN_CPU_Threshold_def demoConf_def)

lemma demo_rq:
  "\<not> badId (queryGet (demoRq ''peer-a'') ''id'')" "authorized demoSenv (demoRq p) demoServer" "authorized demoSenv (demoRq p) demoFull"
  by (simp_all add: badId_def queryGet_def demoRq_def authorized_def demoServer_simps demoFull_simps demoConf_def)

lemma demo_id: "queryGet (demoRq p) ''id'' = p"
  by (simp add: queryGet_def demoRq_def)


theorem reader_safe_witness:
  "\<exists>s1 b. wsRead demoSenv ''peer-b'' 7 1 (Some [(OpPing, ''x''), (OpClose, [])]) demoServer = Ret (s1, b) \<and> server_ok s1"
proof -
  have g: "GetClient (hb (sy demoServer)) ''peer-b'' = Some 1" using demoHub_facts(4) by (simp add: demoServer_simps)
  have "env_ok (sE demoSenv)" by (simp add: demoSenv_def demoEnv_ok)
  from reader_safe [OF this demoServer_ok g] show ?thesis by blast
qed



theorem poll_delivers_witness:
  "\<exists>s2 w. pollingHandler demoSenv (demoRq ''peer-a'') demoFull newWriter = Ret (Answered s2 w) \<and> rwBody w = ''[m1,m2]''"
  using poll_delivers [OF demoFull_ok demo_check(2) demo_rq(1,3), of 0 demoFull "''m1''" "[''m2'']"]
    demoFull_simps(9)
  by (auto simp: demo_id demoFull_simps demoFull_ok)



theorem failed_check_leaves_session_witness:
  "\<exists>s1 r. wsHandler demoSenv (Inr 9) (demoRq ''peer-z'') (demoServer\<lparr>G_CPU := 800\<rparr>) = Ret (s1, None) \<and>
     GetClient (hb (sy s1)) ''peer-z'' = Some r"
proof -
  have "GetClient demoHub ''peer-z'' = None"
    using DoRegister_spec(2) [OF demoHub_base, of 0 memRedis]
      DoRegister_spec(2) [OF DoRegister_spec(1) [OF demoHub_base, of 0 memRedis], of 1 memRedis]
      DoRegister_spec(3) [OF demoHub_base, of 0 memRedis]
    by (simp add: demoHub_def demoWorld_simps) (simp add: GetClient_def InitHub_def cm.get_empty)
  moreover have "server_ok (demoServer\<lparr>G_CPU := 800\<rparr>)" using demoServer_ok by (simp add: server_ok_def limiter_ok_def)
  ultimately show ?thesis
    using failed_check_leaves_session [of "demoServer\<lparr>G_CPU := 800\<rparr>" "''peer-z''" "demoRq ''peer-z''" demoSenv 9]
    by (fastforce simp: demo_id badId_def authorized_def demoServer_simps demoConf_def)
qed

theorem old_reader_ends_new_session_witness:
  "\<exists>s1 s2 s3. leave demoSenv ''peer-b'' 1 demoServer = Ret s1 \<and> joinWs demoSenv ''peer-b'' 8 s1 = (1, s2) \<and>
     wsRead demoSenv ''peer-b'' 7 1 None s2 = Ret (s3, False) \<and> GetClient (hb (sy s3)) ''peer-b'' = None"
proof -
  have g: "GetClient (hb (sy demoServer)) ''peer-b'' = Some 1" using demoHub_facts(4) by (simp add: demoServer_simps)
  obtain s1 where s1: "leave demoSenv ''peer-b'' 1 demoServer = Ret s1" using leave_spec [OF demoServer_ok g] by blast
  obtain r2 s2 where s2: "joinWs demoSenv ''peer-b'' 8 s1 = (r2, s2)" by fastforce
  have "GetClient (hb (sy s2)) ''peer-b'' = Some r2 \<and> r2 = 1 \<and>
      (\<exists>s3. wsRead demoSenv ''peer-b'' 7 1 None s2 = Ret (s3, False) \<and> GetClient (hb (sy s3)) ''peer-b'' = None \<and>
        ConnClosed 8 \<in> set (net (cw (hb (sy s3)))))"
    by (rule old_reader_ends_new_session [OF demoServer_ok g _ _ _ s1 _ s2])
      (simp_all add: demoServer_simps demoWorld_eq obj_def demoSenv_def)
  then show ?thesis using s1 s2 by auto
qed

theorem second_poll_blocks_witness:
  "\<exists>s1 w1. drainQueue 2 0 demoFull newWriter = Ret (s1, w1) \<and> drainQueue 2 0 s1 newWriter = Blocks"
proof -
  obtain q where q: "MsgQueue (cliOf demoFull 0) = Some q" "queueLen (cliOf demoFull 0) = length (chbuf q)"
    by (rule polling_client [OF demoFull_ok demoFull_simps(9,2)])
  then obtain s1 w1 where "drainQueue 2 0 demoFull newWriter = Ret (s1, w1)"
    using drain_all [of q] by (auto simp: drainQueue_def demoFull_simps)
  moreover from this have "drainQueue 2 0 s1 newWriter = Blocks"
    by (intro second_poll_blocks [OF demoFull_ok demoFull_simps(9,2), of 2 newWriter s1 w1]) (simp_all add: demoFull_simps)
  ultimately show ?thesis by blast
qed

end
