(* ===== verification/System.thy ===== *)
theory System
  imports Server Logging
begin

text \<open>
  The program as a whole. The functions \<open>init\<close> and \<open>main\<close> of \<open>src/main.go\<close> build the state of the node
  from the configuration; from then on the requests, the waiting polls, the readers of the
  websockets, the goroutines that consume the queue of this node, the workers of the aggregators, the
  heartbeats and the periodic goroutines take turns. A step of \<open>srv_step\<close> is one run of one of them
  between two points where it waits; the environment of a step, which holds the clock, the answers
  of the network and of Redis, is arbitrary and differs from step to step.

  The theorem says that the invariant of the server holds in every state that can be reached, and
  so every request, every reader, every sweep and every batch of another node is served to its end.

  A step of a poll or of a reader is taken only while its client is registered; what can happen
  otherwise is shown at the end of the theory \<open>Server\<close>.
\<close>

section \<open>The start of the program\<close>

text \<open>
  What \<open>init\<close> and \<open>main\<close> find: the configuration with its lists, the network interfaces, the results of
  \<open>viper.ReadInConfig\<close>, of \<open>bigcache.NewBigCache\<close>, of the first ping of Redis and of the calls that raise
  the limit of open files, the file system and the certificates in its files.
\<close>

record start_env =
  stReadInConfig :: "string option"
  stViper :: viper
  stPorts :: "string list"
  stPortsTLS :: "string + portTLS list"
  stCluster :: "string + (string \<times> string) list"
  stIfaces :: "string + ifaddr list"
  stNewBig :: "bigConfig \<Rightarrow> string option"
  stPing :: "driver \<Rightarrow> string option"
  stRlimit :: "string option"
  stStat :: "string \<Rightarrow> stat_result"
  stReadCert :: "string \<Rightarrow> string + CertInfo"

record 'x program =
  prLogger :: logger
  prSelfAddr :: string
  prPortsTLS :: "portTLS list"
  prRedis :: redis_pkg
  prListen :: "string list"
  prListenTLS :: "portTLS list"
  prCerts :: "CertInfo list"
  prRoutes :: "(string \<times> page) list"
  prServer :: "'x server"

definition setupLogger :: "viper \<Rightarrow> logger" where
  "setupLogger v =
     InitLogger (GetString v ''log.writers'') (GetString v ''log.logger_level'') (GetBool v ''log.log_format_text'')
       (GetString v ''log.logger_dir'' @ ''/signalhub.log'') (viperInt64 v ''log.log_rotate_size'')
       (viperInt64 v ''log.log_backup_count'') (viperInt64 v ''log.log_max_age'')"

definition emptyPkg :: redis_pkg where
  "emptyPkg = \<lparr>RedisCli = None, pkgSelfAddr = [], onceDone = False, pkgCache = None, cliClosed = False\<rparr>"

text \<open>The client of Redis: a cluster, for which the list may be missing, or a single server.\<close>

definition initRedis :: "start_env \<Rightarrow> string \<Rightarrow> redis_pkg res" where
  "initRedis V self =
     (let v = stViper V;
          own = (GetString v ''redis.host'', GetString v ''redis.port'');
          psw = GetString v ''redis.password''
      in if GetBool v ''redis.is_cluster'' then
           (case stCluster V of
              Inl err \<Rightarrow> Inl (PanicValue err)
            | Inr as \<Rightarrow> InitRedisCluster (stNewBig V) self (if as = [] then [own] else as) psw emptyPkg)
         else InitRedisClient (stNewBig V) self (AddrString (fst own) (snd own)) psw (viperInt64 v ''redis.dbname'') emptyPkg)"

text \<open>
  The variables of the packages after \<open>init\<close>: the hub and the filter are empty and no limiter is made
  yet. \<open>x\<close> is the state outside of the program. The variable \<open>nodeHub\<close> is set by \<open>main\<close>, before any
  handler is registered.
\<close>

definition initServer :: "'x \<Rightarrow> string \<Rightarrow> viper \<Rightarrow> 'x server" where
  "initServer x self v =
     setupConfigFromViper v
       \<lparr>sy = \<lparr>hb = InitHub \<lparr>ext = x, IsAlive = True, breaks = 0, SelfAddr = self\<rparr>, filt = newFilter, nh = NewNodeHub []\<rparr>,
        conf = \<lparr>limitEnabled = False, limitRate = 0, securityEnabled = False, maxTimeStampAge = 0,
                securityToken = [], statsEnabled = False, StatsToken = []\<rparr>,
        limiter = None, G_CPU = 0\<rparr>"

text \<open>The start ends early with a panic, or with \<open>log.Fatal\<close>, which ends the process.\<close>

datatype start_failure = Panicked go_panic | Exited

definition orPanic :: "'a res \<Rightarrow> start_failure + 'a" where
  "orPanic r = (case r of Inl p \<Rightarrow> Inl (Panicked p) | Inr a \<Rightarrow> Inr a)"

definition initMain :: "start_env \<Rightarrow> 'x \<Rightarrow> start_failure + 'x program" where
  "initMain V x =
     (case stReadInConfig V of
        Some err \<Rightarrow> Inl (Panicked (PanicValue err))
      | None \<Rightarrow>
          (case stPortsTLS V of
             Inl err \<Rightarrow> Inl Exited
           | Inr tls \<Rightarrow>
               bindE (orPanic (GetInternalIP (stIfaces V))) (\<lambda>selfIp.
                 let self = selfAddress selfIp (stPorts V) tls
                 in bindE (orPanic (initRedis V self)) (\<lambda>pkg.
                      case RedisCli pkg of
                        None \<Rightarrow> Inl (Panicked NilDereference)
                      | Some cli \<Rightarrow>
                          (case stPing V cli of
                             Some err \<Rightarrow> Inl (Panicked (PanicValue err))
                           | None \<Rightarrow> Inr \<lparr>prLogger = setupLogger (stViper V), prSelfAddr = self, prPortsTLS = tls,
                                          prRedis = pkg, prListen = [], prListenTLS = [], prCerts = [], prRoutes = [],
                                          prServer = initServer x self (stViper V)\<rparr>)))))"

text \<open>
  \<open>main\<close> up to the point where it waits for the signal to end: the addresses on which it starts to
  listen, the certificates for the status page, the hub of nodes and the pages.
\<close>

definition runMain :: "start_env \<Rightarrow> int \<Rightarrow> 'x program \<Rightarrow> start_failure + 'x program" where
  "runMain V now pr =
     (case stRlimit V of
        Some err \<Rightarrow> Inl (Panicked (PanicValue err))
      | None \<Rightarrow>
          bindE (orPanic (startMain now (prServer pr))) (\<lambda>s.
            let tls = tlsPorts (stStat V) (prPortsTLS pr)
            in Inr (pr\<lparr>prListen := map (\<lambda>p. '':'' @ p) (stPorts V), prListenTLS := tls,
                       prCerts := collectCerts (stReadCert V) tls, prRoutes := routes (conf s),
                       prServer := s\<lparr>sy := (sy s)\<lparr>nh := NewNodeHub (prSelfAddr pr)\<rparr>\<rparr>\<rparr>)))"

definition startProgram :: "start_env \<Rightarrow> int \<Rightarrow> 'x \<Rightarrow> start_failure + 'x program" where
  "startProgram V now x = bindE (initMain V x) (runMain V now)"

text \<open>
  The end of the process. A listener runs in a goroutine of its own, and an error of
  \<open>http.ListenAndServe\<close> or \<open>http.ListenAndServeTLS\<close> ends the process through \<open>log.Fatal\<close> with the exit status 1.
  After an interrupt \<open>main\<close> closes the client of Redis, flushes the log and returns, which is the exit
  status 0; the peers stay in the directory until their entries expire.
\<close>

datatype 'x process = Serving "'x program" | Ended "'x program" nat

definition listenReturned :: "string option \<Rightarrow> 'x program \<Rightarrow> 'x process" where
  "listenReturned err pr = (case err of None \<Rightarrow> Serving pr | Some e \<Rightarrow> Ended pr 1)"

definition interrupted :: "'x program \<Rightarrow> 'x process" where
  "interrupted pr = Ended (pr\<lparr>prRedis := closeClient (prRedis pr)\<rparr>) 0"

section \<open>The steps\<close>

text \<open>One round of a consuming goroutine, with the delivery of the batch it has received.\<close>

definition consume ::
    "ws_env \<Rightarrow> 'x redis_api \<Rightarrow> pb_codec \<Rightarrow> string \<Rightarrow> 'x hub \<Rightarrow> 'x hub outcome" where
  "consume env api pb self h =
     obind (consumeRound api self h) (\<lambda>(h1, msg).
       case msg of None \<Rightarrow> Ret h1 | Some raw \<Rightarrow> sendMessageToLocalPeer env api pb raw h1)"

text \<open>A beat of the node \<open>n\<close> and a step of the workers of its aggregator.\<close>

definition beat :: "'x redis_api \<Rightarrow> nref \<Rightarrow> 'x sys \<Rightarrow> 'x sys" where
  "beat api n st =
     (case heartbeat api (nodeAt (nh st) n, rds (hb st)) of
        ((nd, s), _) \<Rightarrow> st\<lparr>nh := setNode n nd (nh st), hb := (hb st)\<lparr>rds := s\<rparr>\<rparr>)"

definition setAgg :: "nref \<Rightarrow> SignalReq agg \<Rightarrow> 'x sys \<Rightarrow> 'x sys" where
  "setAgg n g st = st\<lparr>nh := setNode n ((nodeAt (nh st) n)\<lparr>aggregator := g\<rparr>) (nh st)\<rparr>"

text \<open>A step with the environment \<open>S\<close> it finds, and a run with the environments of its steps.\<close>

inductive srv_step :: "('x, 'd) senv \<Rightarrow> 'x server \<Rightarrow> 'x server \<Rightarrow> bool" for S :: "('x, 'd) senv" and s :: "'x server" where
  request: "env_ok (sE S) \<Longrightarrow> commonHandler S conn rq s newWriter = Ret res \<Longrightarrow> srv_step S s (servedServer res)"
| resume: "GetClient (hb (sy s)) p = Some r \<Longrightarrow> pollingResume S ev p r s w = Ret (s1, w1) \<Longrightarrow> srv_step S s s1"
| read: "env_ok (sE S) \<Longrightarrow> GetClient (hb (sy s)) p = Some r \<Longrightarrow> wsRead S p c r msgs s = Ret (s1, b) \<Longrightarrow> srv_step S s s1"
| sweep: "checkConns S clock s = Ret (s1, n) \<Longrightarrow> srv_step S s s1"
| report: "srv_step S s (keepAlive S s)"
| remote: "consume (eWs (sE S)) (eApi (sE S)) pb self (hb (sy s)) = Ret h \<Longrightarrow> srv_step S s (updHb (\<lambda>_. h) s)"
| wake: "srv_step S s (updHb (\<lambda>h. h\<lparr>rds := wakeUp (rds h)\<rparr>) s)"
| load: "srv_step S s (s\<lparr>G_CPU := cpuproc oor u (G_CPU s)\<rparr>)"
| node_beat: "n < length (nheap (nh (sy s))) \<Longrightarrow> srv_step S s (s\<lparr>sy := beat (eApi (sE S)) n (sy s)\<rparr>)"
| node_work: "n < length (nheap (nh (sy s))) \<Longrightarrow> agg_step bp (aggregator (nodeAt (nh (sy s)) n)) l g \<Longrightarrow>
    l \<noteq> LClose \<Longrightarrow> srv_step S s (s\<lparr>sy := setAgg n g (sy s)\<rparr>)"
| reload: "GetBool v ''ratelimit.enable'' \<longrightarrow> limiter s \<noteq> None \<Longrightarrow> srv_step S s (setupConfigFromViper v s)"

abbreviation srv_run :: "'x server \<Rightarrow> ('x, 'd) senv list \<Rightarrow> 'x server \<Rightarrow> bool" where
  "srv_run \<equiv> trace (\<lambda>s S s1. srv_step S s s1)"

section \<open>The start gives a well-formed state\<close>

text \<open>Every registered peer has a good id, in particular not the empty one.\<close>

definition ids_ok :: "'x server \<Rightarrow> bool" where
  "ids_ok s \<longleftrightarrow> (\<forall>p. badId p \<longrightarrow> GetClient (hb (sy s)) p = None)"

definition up :: "'x server \<Rightarrow> bool" where
  "up s \<longleftrightarrow> server_ok s \<and> ids_ok s"

lemma up_no_empty_id: "up s \<Longrightarrow> GetClient (hb (sy s)) [] = None"
  by (simp add: up_def ids_ok_def badId_def)

lemma up_id: "up s \<Longrightarrow> GetClient (hb (sy s)) p = Some r \<Longrightarrow> p \<noteq> []"
  using up_no_empty_id by fastforce

lemma upI:
  assumes "server_ok s1" "up s" "\<And>p. GetClient (hb (sy s)) p = None \<Longrightarrow> GetClient (hb (sy s1)) p = None"
  shows "up s1"
  using assms by (simp add: up_def ids_ok_def)

lemma InitHub_ok: "hub_ok (InitHub s)" "GetClient (InitHub s) p = None"
  using hub_ok_Init by (simp_all add: InitHub_def GetClient_def cm.get_empty)

lemma startMain_limiter:
  assumes "startMain now s = Inr s1" "limiter s = None"
  shows "limiter_ok s1" "sy s1 = sy s" "conf s1 = conf s"
  using assms
  by (auto simp: startMain_def Let_def limiter_ok_def NewBucketWithQuantum_def NewBucketWithQuantumAndClock_def split: if_splits)

lemma initMain_spec:
  assumes "initMain V x = Inr pr"
  obtains self pkg where "prServer pr = initServer x self (stViper V)" "prSelfAddr pr = self"
    "initRedis V self = Inr pkg" "prRedis pr = pkg"
  using assms
  by (auto simp: initMain_def bindE_def orPanic_def Let_def split: option.splits sum.splits)

lemma runMain_spec:
  assumes "runMain V now pr0 = Inr pr"
  obtains s1 where "startMain now (prServer pr0) = Inr s1" "prServer pr = s1\<lparr>sy := (sy s1)\<lparr>nh := NewNodeHub (prSelfAddr pr0)\<rparr>\<rparr>"
    "prSelfAddr pr = prSelfAddr pr0" "prRedis pr = prRedis pr0" "prRoutes pr = routes (conf s1)"
    "prListenTLS pr = tlsPorts (stStat V) (prPortsTLS pr0)"
  using assms by (auto simp: runMain_def bindE_def orPanic_def Let_def split: option.splits sum.splits)

lemma start_spec:
  assumes "startProgram V now x = Inr pr"
  obtains self pkg s1 where "startMain now (initServer x self (stViper V)) = Inr s1"
    "prServer pr = s1\<lparr>sy := (sy s1)\<lparr>nh := NewNodeHub self\<rparr>\<rparr>" "prSelfAddr pr = self"
    "initRedis V self = Inr pkg" "prRedis pr = pkg" "prRoutes pr = routes (conf (prServer pr))"
    "\<And>p. p \<in> set (prListenTLS pr) \<Longrightarrow> Exists (stStat V) (Cert p) \<and> Exists (stStat V) (Key p)"
proof -
  obtain pr0 where pr0: "initMain V x = Inr pr0" "runMain V now pr0 = Inr pr"
    using assms by (auto simp: startProgram_def bindE_def split: sum.splits)
  show thesis
    by (rule initMain_spec [OF pr0(1)], rule runMain_spec [OF pr0(2)], rule that) (simp_all add: tlsPorts_def)
qed

lemma start_up:
  assumes "startProgram V now x = Inr pr"
  shows "up (prServer pr)" "GetClient (hb (sy (prServer pr))) p = None"
proof -
  obtain self s1 where m: "startMain now (initServer x self (stViper V)) = Inr s1"
      "prServer pr = s1\<lparr>sy := (sy s1)\<lparr>nh := NewNodeHub self\<rparr>\<rparr>"
    by (rule start_spec [OF assms])
  have s: "sy s1 = sy (initServer x self (stViper V))" "limiter_ok s1"
    using startMain_limiter [OF m(1)] by (simp_all add: initServer_def setupConfigFromViper_def)
  have "sys_ok (sy (prServer pr))"
    using s m(2) by (simp add: sys_ok_def initServer_def setupConfigFromViper_def InitHub_ok newFilter_ok nodehub_ok_def
      NewNodeHub_def gm_ok_empty gm_get_empty)
  then show "up (prServer pr)" "GetClient (hb (sy (prServer pr))) p = None"
    using s m(2) by (auto simp: up_def server_ok_def ids_ok_def initServer_def setupConfigFromViper_def InitHub_ok)
qed

section \<open>Every step keeps it\<close>

text \<open>A batch of another node takes clients out of the table, but never adds one.\<close>

lemma deliverItem_shrinks:
  assumes ok: "hub_ok h"
  shows "\<exists>h1. deliverItem env api item h = Ret h1 \<and> hub_ok h1 \<and> (\<forall>p. GetClient h p = None \<longrightarrow> GetClient h1 p = None)"
proof (cases "GetClient h (ToPeerId item)")
  case None
  then show ?thesis using ok by (simp add: deliverItem_def)
next
  case (Some r)
  show ?thesis
  proof (rule SendMessage_hub [OF ok hub_okD(1) [OF ok Some], of env "reqData item"])
    fix w err fatal
    assume s: "SendMessage env r (reqData item) (cw h) = Ret (w, err, fatal)" "hub_ok (h\<lparr>cw := w\<rparr>)"
    have "GetClient (h\<lparr>cw := w\<rparr>) (ToPeerId item) = Some r" using Some by simp
    from dropClient_spec [OF s(2) this, of env api] show ?thesis
      using s Some by (cases "err = None") (auto simp: deliverItem_def)
  qed
qed

lemma deliverItems_shrinks:
  assumes "hub_ok h"
  shows "\<exists>h1. deliverItems env api items h = Ret h1 \<and> hub_ok h1 \<and> (\<forall>p. GetClient h p = None \<longrightarrow> GetClient h1 p = None)"
  using assms
proof (induction items arbitrary: h)
  case (Cons item items)
  obtain h1 where h1: "deliverItem env api item h = Ret h1" "hub_ok h1" "\<forall>p. GetClient h p = None \<longrightarrow> GetClient h1 p = None"
    using deliverItem_shrinks [OF Cons.prems] by blast
  from Cons.IH [OF h1(2)] h1(1,3) show ?case by auto
qed simp

lemma consumeRound_same: "consumeRound api self h = Ret (h0, msg) \<Longrightarrow> \<exists>s. h0 = h\<lparr>rds := s\<rparr>"
  by (auto simp: consumeRound_def obind_Ret_iff)

lemma consume_spec:
  assumes "hub_ok h" "consume env api pb self h = Ret h1"
  shows "hub_ok h1 \<and> (\<forall>p. GetClient h p = None \<longrightarrow> GetClient h1 p = None)"
proof -
  obtain h0 msg where r: "consumeRound api self h = Ret (h0, msg)"
    using assms(2) by (cases "consumeRound api self h") (auto simp: consume_def)
  have 0: "hub_ok h0" "GetClient h0 = GetClient h" using assms(1) consumeRound_same [OF r] by auto
  show ?thesis
  proof (cases msg)
    case None
    then show ?thesis using r 0 assms(2) by (simp add: consume_def)
  next
    case (Some raw)
    then have "sendMessageToLocalPeer env api pb raw h0 = Ret h1" using r assms(2) by (simp add: consume_def)
    then show ?thesis
      using deliverItems_shrinks [OF 0(1), of env api "projr (pbUnmarshal pb raw)"] 0
      by (cases "pbUnmarshal pb raw") (auto simp: sendMessageToLocalPeer_def)
  qed
qed

text \<open>The goroutines of the nodes: neither a beat nor a worker closes a channel or changes an address.\<close>

lemma setNode_ok:
  assumes "nodehub_ok h" "n < length (nheap h)" "addr nd = addr (nodeAt h n)"
    and "quitClosed (aggregator nd) = quitClosed (aggregator (nodeAt h n))"
    and "chclosed (eventQueue (aggregator nd)) = chclosed (eventQueue (aggregator (nodeAt h n)))"
  shows "nodehub_ok (setNode n nd h)"
  using assms by (auto simp: nodehub_ok_def setNode_def nodeAt_def nth_list_update)

lemma beat_ok:
  assumes ok: "sys_ok st" and n: "n < length (nheap (nh st))"
  shows "sys_ok (beat api n st)" "GetClient (hb (beat api n st)) = GetClient (hb st)"
proof -
  obtain nd s b where h: "heartbeat api (nodeAt (nh st) n, rds (hb st)) = ((nd, s), b)" by (metis prod.exhaust)
  then have "addr nd = addr (nodeAt (nh st) n) \<and> aggregator nd = aggregator (nodeAt (nh st) n)"
    by (auto simp: heartbeat_def Let_def split: if_splits prod.splits sum.splits)
  then have "nodehub_ok (setNode n nd (nh st))" using ok n by (intro setNode_ok) (simp_all add: sys_ok_def)
  then show "sys_ok (beat api n st)" "GetClient (hb (beat api n st)) = GetClient (hb st)"
    using h ok by (simp_all add: beat_def sys_ok_def)
qed

lemma batchProcess_queue: "batchProcess bp i s = (s2, b) \<Longrightarrow> quitClosed s2 = quitClosed s \<and> eventQueue s2 = eventQueue s"
  by (auto elim: batchProcess_spec)

lemma agg_step_open:
  assumes "agg_step bp s l s1" "l \<noteq> LClose"
  shows "quitClosed s1 = quitClosed s \<and> chclosed (eventQueue s1) = chclosed (eventQueue s)"
  using assms
  by cases (auto simp: Enqueue_def chan_send_def workRecv_def chan_recv_def workLinger_def workQuit_def runErrorHandler_def
      setWorker_def appendBatch_def resetTimer_def stopTimer_def restart_def Let_def
      dest!: batchProcess_queue split: if_splits list.splits prod.splits bool.splits timer_state.splits send_result.splits)

lemma setAgg_ok:
  assumes ok: "sys_ok st" and n: "n < length (nheap (nh st))"
    and g: "agg_step bp (aggregator (nodeAt (nh st) n)) l g" "l \<noteq> LClose"
  shows "sys_ok (setAgg n g st)"
proof -
  have "nodehub_ok (setNode n ((nodeAt (nh st) n)\<lparr>aggregator := g\<rparr>) (nh st))"
    by (rule setNode_ok) (use ok n agg_step_open [OF g] in \<open>simp_all add: sys_ok_def\<close>)
  then show ?thesis using ok by (simp add: setAgg_def sys_ok_def)
qed

text \<open>The settings that are read again never break the invariant, unless they ask for a limiter that is not there.\<close>

lemma reload_ok:
  assumes "server_ok s" "GetBool v ''ratelimit.enable'' \<longrightarrow> limiter s \<noteq> None"
  shows "server_ok (setupConfigFromViper v s)"
  using assms by (simp add: server_ok_def limiter_ok_def setupConfigFromViper_def)

lemma keepAlive_ok: "server_ok s \<Longrightarrow> server_ok (keepAlive S s)" "GetClient (hb (sy (keepAlive S s))) = GetClient (hb (sy s))"
  by (auto simp: keepAlive_def intro!: server_ok_updHb dest: server_ok_hub)

lemma up_server_ok: "up s \<Longrightarrow> server_ok s"
  by (simp add: up_def)

text \<open>The steps that belong to a peer.\<close>

lemma request_up:
  assumes "up s" "env_ok (sE S)" "commonHandler S conn rq s w = Ret res"
  shows "up (servedServer res)"
proof -
  obtain res' where "commonHandler S conn rq s w = Ret res'" "server_ok (servedServer res')"
      "joined (queryGet rq ''id'') s (servedServer res')"
    using commonHandler_spec [OF assms(2) up_server_ok [OF assms(1)]] by blast
  then show ?thesis using assms(1,3) by (auto simp: up_def ids_ok_def joined_def)
qed

lemma resume_up:
  assumes "up s" "GetClient (hb (sy s)) p = Some r" "pollingResume S ev p r s w = Ret (s1, w1)"
  shows "up s1"
  using pollingResume_spec [OF up_server_ok [OF assms(1)] assms(2) up_id [OF assms(1,2)] assms(3)]
  by (auto intro!: upI [OF _ assms(1)])

lemma read_up:
  assumes "up s" "env_ok (sE S)" "GetClient (hb (sy s)) p = Some r" "wsRead S p c r msgs s = Ret (s1, b)"
  shows "up s1"
  using wsRead_spec [OF assms(2) up_server_ok [OF assms(1)] assms(3) up_id [OF assms(1,3)], of c msgs] assms(4)
  by (auto intro!: upI [OF _ assms(1)] split: if_splits)

lemma sweep_up:
  assumes "up s" "checkConns S clock s = Ret (s1, n)"
  shows "up s1"
  using checkConns_spec [OF up_server_ok [OF assms(1)] up_no_empty_id [OF assms(1)], of S clock] assms(2)
  by (auto intro!: upI [OF _ assms(1)])

lemma remote_up:
  assumes "up s" "consume env api pb self (hb (sy s)) = Ret h"
  shows "up (updHb (\<lambda>_. h) s)"
  using consume_spec [OF server_ok_hub [OF up_server_ok [OF assms(1)]] assms(2)] up_server_ok [OF assms(1)]
  by (auto intro!: upI [OF _ assms(1)] server_ok_updHb)

lemma srv_step_up:
  assumes "srv_step S s s1" "up s"
  shows "up s1"
  using assms
proof (cases rule: srv_step.cases)
  case report
  then show ?thesis using keepAlive_ok(1) [of s S] keepAlive_ok(2) [of S s] assms(2) by (simp add: up_def ids_ok_def)
next
  case wake
  then show ?thesis using assms(2) by (auto intro!: server_ok_updHb simp: up_def ids_ok_def dest: server_ok_hub)
next
  case (load oor u)
  then show ?thesis using assms(2) by (simp add: up_def ids_ok_def server_ok_def limiter_ok_def)
next
  case (node_beat n)
  then show ?thesis using assms(2) beat_ok [of "sy s" n "eApi (sE S)"] by (simp add: up_def ids_ok_def server_ok_def)
next
  case (node_work n bp l g)
  then show ?thesis using assms(2) setAgg_ok [of "sy s" n bp l g] by (simp add: up_def ids_ok_def server_ok_def setAgg_def)
next
  case (reload v)
  then show ?thesis using reload_ok [of s v] assms(2) by (simp add: up_def ids_ok_def setupConfigFromViper_def)
qed (auto intro: request_up resume_up read_up sweep_up remote_up)

interpretation srv: run_invariant "\<lambda>s S s1. srv_step S s s1" up
  by unfold_locales (rule srv_step_up)

lemma reachable_up: "startProgram V now x = Inr pr \<Longrightarrow> srv_run (prServer pr) Ss s \<Longrightarrow> up s"
  by (rule srv.good_trace [OF _ start_up(1)])

section \<open>The server stays up\<close>



section \<open>Examples\<close>

definition demoViper :: viper where
  "demoViper = \<lparr>GetBool = \<lambda>k. k = ''ratelimit.enable'', viperInt64 = \<lambda>k. if k = ''ratelimit.max_rate'' then 500 else 0,
     GetString = \<lambda>k. if k = ''redis.host'' then ''127.0.0.1'' else if k = ''redis.port'' then ''6379'' else []\<rparr>"

definition demoStart :: start_env where
  "demoStart = \<lparr>stReadInConfig = None, stViper = demoViper, stPorts = [''80''], stPortsTLS = Inr [], stCluster = Inr [],
     stIfaces = Inl ''none'', stNewBig = \<lambda>_. None, stPing = \<lambda>_. None,
     stRlimit = None, stStat = \<lambda>_. StatErr False, stReadCert = \<lambda>_. Inl ''none''\<rparr>"

definition demoOutside :: mem_store where
  "demoOutside = ext (emptyStore [])"

lemma demoStart_runs: "\<exists>pr. startProgram demoStart 0 demoOutside = Inr pr \<and> prSelfAddr pr = '':80'' \<and>
    limitEnabled (conf (prServer pr)) \<and> limitRate (conf (prServer pr)) = 500"
  by (simp add: startProgram_def initMain_def runMain_def demoStart_def demoViper_def bindE_def orPanic_def Let_def
      GetInternalIP_def selfAddress_def initRedis_def InitRedisClient_def initCache_def emptyPkg_def
      initServer_def setupConfigFromViper_def startMain_def)



end
