(* ===== verification/Spec2Isabelle.thy ===== *)
theory Spec2Isabelle
  imports Protobuf RateBucket CMap SMap ECache Client RedisClient Aggregator Nodes Hub Handler GoPool Logging Cpu Web Crypto Stats Server System
begin

text \<open>
  This is a verification of the signaling server \<open>cbsignal_redis\<close>. Peers of a peer-to-peer network
  connect to a node of the cluster by websocket or by HTTP polling and send each other signals through
  it. A node keeps the table of its own peers; the directory in Redis says on which node every other
  peer is, and each node has a queue in Redis to which the others push batches of signals.

  \<^bold>\<open>The parts and their theories.\<close>

  \<^item> \<open>Prelude\<close>, \<open>GoStrings\<close>, \<open>Float64\<close>, \<open>Crypto\<close>: what the program uses of Go and its standard library:
    panics, \<open>int64\<close> with its wrap-around, maps, buffered channels, \<open>strconv\<close>, \<open>strings\<close>, \<open>path\<close>, the
    arithmetic of \<open>float64\<close>, MD5 and HMAC. \<open>Runs\<close> has runs of transition systems and the contracts of an
    invariant and of a simulation.
  \<^item> \<open>RateLimit\<close> and \<open>RateBucket\<close> are \<open>util/ratelimit\<close>: the token bucket, and its constructors for a rate.
  \<^item> \<open>FastMap\<close>, \<open>CMap\<close>, \<open>SMap\<close> are \<open>util/fastmap\<close>: the interface as the locale \<open>fast_map\<close>, the sharded map
    that the hub uses, which is an interpretation of it, and the wrapper of a skip list.
  \<^item> \<open>LruBucket\<close> and \<open>ECache\<close> are \<open>util/ecache\<close>: a bucket with its doubly linked list in an array, and the
    cache of many buckets. The message handlers use it to remember pairs of peers without a connection.
  \<^item> \<open>Client\<close> is \<open>client\<close>: objects that are shared by reference and recycled through a pool, with the
    queue of a polling peer and the connection of a websocket.
  \<^item> \<open>RedisClient\<close> is \<open>redis\<close>: the start of the package, the commands and the breaker that stops their
    use after an error.
  \<^item> \<open>Protobuf\<close> is \<open>protobuf\<close>: the messages between nodes, the law of their codec as the locale \<open>codec\<close>, and the
    wire format as an interpretation of it.
  \<^item> \<open>Aggregator\<close> and \<open>Nodes\<close> are \<open>nodes\<close>: the goroutines that collect signals to another node into
    batches, the heartbeat of a node, and the hub of nodes.
  \<^item> \<open>Hub\<close> is \<open>hub\<close>: the table of the peers, and the delivery of the batches that other nodes send.
  \<^item> \<open>Handler\<close> and \<open>Stats\<close> are \<open>handler\<close>: the messages of the peers, and the status pages with the load
    average.
  \<^item> \<open>Cpu\<close> is \<open>util/cpu\<close>, \<open>Web\<close> is \<open>util/other.go\<close>, \<open>util/system.go\<close> and \<open>util/ip.go\<close>, \<open>GoPool\<close> is
    \<open>util/gopool\<close>, \<open>Logging\<close> is \<open>util/log\<close>.
  \<^item> \<open>Server\<close> is the request handling of \<open>main.go\<close>: the checks, POST, polling, websockets with their
    readers, the sweep of expired peers. \<open>System\<close> is its \<open>init\<close> and \<open>main\<close> and the program as a whole.

  \<^bold>\<open>How the code is modelled.\<close> A structure of the code is a record, an operation a function of the same
  name that returns the new state; a clash with a name of the library gives a prefix, such as \<open>cmSet\<close> for
  \<open>Set\<close> of the sharded map. A function that can panic returns \<open>res\<close>; one that can also wait for ever
  returns \<open>outcome\<close>, which is \<open>Ret\<close>, \<open>Blocks\<close> or \<open>Panics\<close>. Integers are kept in 64 bits with \<open>i64\<close> or as words
  where the code can overflow. Clients and nodes live in heaps and are named by their index, so that
  sharing is visible. Where the code waits or gives up a lock, the function is split or takes what other
  goroutines do in the meantime as an argument; the aggregator, the pool and the server are transition
  systems in which the goroutines interleave.

  What is not code of the repository is an argument: the Redis server with its driver (\<open>redis_api\<close>), the
  websocket library and the connections (\<open>ws_env\<close>), the JSON and protobuf encoders, the skip list, the
  library \<open>gopsutil\<close>, the file system, the clock, the choice of \<open>sync.Pool\<close>. Where a theorem relies on
  them, their documented behaviour is a hypothesis such as \<open>list_laws\<close>, and a store in memory or another
  concrete function satisfies it in the witness. The environment of a request is the record \<open>senv\<close>.

  \<^bold>\<open>What is shown.\<close>

  \<^item> The whole program: after a start that succeeds, and after any sequence of requests, messages,
    batches, beats, sweeps and reloads, the invariant of the server holds and every request, reader,
    sweep and batch is handled without a panic and without blocking (\<open>server_stays_up\<close>,
    \<open>start_well_formed\<close>, \<open>requests_served\<close>, \<open>reader_safe\<close>, \<open>handlers_safe\<close>).
  \<^item> Delivery: a signal reaches the receiver on this node (\<open>signal_reaches_polling_peer\<close>) and on another
    one, through its aggregator and Redis (\<open>signal_reaches_remote_peer\<close>); polls and the change to a
    websocket lose nothing (\<open>poll_delivers\<close>, \<open>switch_keeps_messages\<close>); the aggregator refines a queue of batches, loses and
    repeats nothing and can always deliver all that waits (\<open>aggregator_refines\<close>,
    \<open>aggregator_conserves\<close>, \<open>aggregator_drains\<close>).
  \<^item> Protection: the token check is exact and a request without a token has no effect
    (\<open>checkToken_correct\<close>, \<open>unauthorized_no_effect\<close>, \<open>stats_pages\<close>); the rate, the queues and the load
    average are bounded (\<open>limiter_rate\<close>, \<open>queue_bounded\<close>, \<open>load_average_settles\<close>).
  \<^item> The data structures refine maps and caches (\<open>cmap_refines_map\<close>, \<open>smap_satisfies_contract\<close>,
    \<open>cput_refines\<close>, \<open>Put_Get\<close>), and the optimised limiter equals one that counts tick by tick
    (\<open>adjust_eq_ticking\<close>).
  \<^item> Flaws of the code are theorems as well, for example \<open>not_found_suppresses\<close>,
    \<open>old_reader_ends_new_session\<close> and \<open>reload_without_limiter_panics\<close>.

  \<^bold>\<open>Bounds.\<close> No function uses fuel. Loops are structural recursion on the list or the number they run
  over, or recursion on a string that gets shorter. The one loop of the code that can run for ever is \<open>setRange\<close> of \<open>Cpu\<close>, a partial function whose
  result is \<open>None\<close> then; \<open>ParseUintList_correct\<close> shows that it returns on every list whose ranges end
  below the largest integer, and \<open>ParseUintList_can_hang\<close> that it does not on one that reaches it. The
  loops of goroutines that never end are modelled by their rounds.

  \<^bold>\<open>Not modelled.\<close> The parsing of flags and of the configuration file and the sockets in \<open>main.go\<close> are
  calls of libraries, of which the model has the results. Of the generated \<open>protobuf/message.pb.go\<close>, the
  reflection code and the messages that no code uses are left out. \<open>sync.Pool\<close> may drop objects, which
  changes nothing but the choice of the object. Data races beyond the interleaving of the steps, such as
  a torn read of a Go map in \<open>NodeHub.Get\<close>, are outside of the model.
\<close>

section \<open>From one peer to another\<close>




text \<open>What the server promises of a blocking pop on a list that is not empty.\<close>

definition pop_total :: "'x redis_api \<Rightarrow> ('x \<Rightarrow> string \<Rightarrow> bytes list) \<Rightarrow> bool" where
  "pop_total api lsts \<longleftrightarrow> (\<forall>t k x. lsts x k \<noteq> [] \<longrightarrow> \<not> isl (snd (apiBLPop api t k x)))"

text \<open>One batch on its way: from the batch processor of one node to the clients of the other.\<close>

lemma batch_crosses:
  assumes L: "list_laws api lsts" and T: "list_total api" and P: "pop_total api lsts"
    and raw: "pbMarshal pb items = Inr raw" "pbUnmarshal pb raw = Inr items" "items \<noteq> []"
    and q: "lsts (ext s) (keyForMQ a) = []" and hB: "hub_ok hB"
    and r: "GetClient hB p = Some r" "IsPolling (obj (cw hB) r)"
    and room: "length (queue (cw hB) r) + length (filter (\<lambda>i. ToPeerId i = p) items) \<le> POLLING_QUEUE_SIZE"
  shows "\<exists>s1 h1 h2. nodeBatchProcess api pb a items s = (s1, None) \<and>
    consumeRound api a (hB\<lparr>rds := (rds hB)\<lparr>ext := ext s1\<rparr>\<rparr>) = Ret (h1, Some raw) \<and>
    sendMessageToLocalPeer envB api pb raw h1 = Ret h2 \<and> hub_ok h2 \<and>
    queue (cw h2) r = queue (cw hB) r @ map reqData (filter (\<lambda>i. ToPeerId i = p) items)"
proof -
  obtain s1 where s1: "sendBatchReq api pb a items s = (s1, None)"
      "lsts (ext s1) = (lsts (ext s))(keyForMQ a := [raw])"
    using sendBatchReq_spec [OF L T raw(1) refl, where s = s and a = a] q by auto
  let ?h = "hB\<lparr>rds := (rds hB)\<lparr>ext := ext s1\<rparr>\<rparr>"
  have "lsts (ext s1) (keyForMQ a) \<noteq> []" using s1(2) by simp
  then have nl: "\<not> isl (snd (apiBLPop api MQ_BLOCK_DURATION (keyForMQ a) (ext s1)))" using P unfolding pop_total_def by blast
  obtain x rr where rr: "apiBLPop api MQ_BLOCK_DURATION (keyForMQ a) (ext s1) = (x, Inr rr)"
    using nl by (cases "apiBLPop api MQ_BLOCK_DURATION (keyForMQ a) (ext s1)"; cases "snd (apiBLPop api MQ_BLOCK_DURATION (keyForMQ a) (ext s1))")
      auto
  have "\<exists>v vs. lsts (ext s1) (keyForMQ a) = v # vs \<and> rr = [keyForMQ a, v]"
    using L rr unfolding list_laws_def by blast
  then have "rr = [keyForMQ a, raw]" using s1(2) by simp
  then have c: "consumeRound api a ?h = Ret (?h\<lparr>rds := (rds hB)\<lparr>ext := x\<rparr>\<rparr>, Some raw)"
    using rr by (simp add: consumeRound_def BlockPopMQ_def)
  have h1: "hub_ok (?h\<lparr>rds := (rds hB)\<lparr>ext := x\<rparr>\<rparr>)" using hB by simp
  obtain h2 where "deliverItems envB api items (?h\<lparr>rds := (rds hB)\<lparr>ext := x\<rparr>\<rparr>) = Ret h2" "hub_ok h2"
      "queue (cw h2) r = queue (cw hB) r @ map reqData (filter (\<lambda>i. ToPeerId i = p) items)"
    using deliverItems_spec [OF h1, of envB api items] r room by auto
  then show ?thesis using s1(1) c raw(2,3) by (auto simp: nodeBatchProcess_def sendMessageToLocalPeer_def)
qed


definition farHub :: "mem_store hub" where
  "farHub = DoRegister memRedis 0 ((InitHub (emptyStore ''n2''))\<lparr>cw := snd (NewPollingPeerClient 0 100 ''peer-z''
     \<lparr>heap = [], pool = [], net = []\<rparr>)\<rparr>)"

lemma farHub_facts:
  "hub_ok farHub" "GetClient farHub ''peer-z'' = Some 0" "IsPolling (obj (cw farHub) 0)" "queue (cw farHub) 0 = []"
proof -
  let ?w = "snd (NewPollingPeerClient 0 100 ''peer-z'' \<lparr>heap = [], pool = [], net = []\<rparr>)"
  let ?h = "(InitHub (emptyStore ''n2''))\<lparr>cw := ?w\<rparr>"
  have w: "?w = \<lparr>heap = [\<lparr>Conn = None, PeerId = ''peer-z'', Timestamp = 100, IsPolling = True,
      MsgQueue = Some (make_chan POLLING_QUEUE_SIZE)\<rparr>], pool = [], net = []\<rparr>"
    by (simp add: NewPollingPeerClient_def poolGet_def setObj_def)
  have h: "hub_ok ?h"
    using client_ok_new(2) unfolding w by (simp add: hub_ok_def InitHub_def cm.get_empty cm.invar_empty cworld_ok_def)
  have r: "0 < length (heap (cw ?h))" "0 \<notin> set (pool (cw ?h))" unfolding w by simp_all
  note R = DoRegister_spec [OF h r, of memRedis, folded farHub_def]
  show "hub_ok farHub" by (rule R(1))
  show "GetClient farHub ''peer-z'' = Some 0" "IsPolling (obj (cw farHub) 0)" "queue (cw farHub) 0 = []"
    using R(2,3) w by (simp_all add: obj_def queue_def make_chan_def)
qed

lemma wire_demo: "set items \<subseteq> {\<lparr>ToPeerId = ''peer-z'', reqData = '':peer-a''\<rparr>} \<Longrightarrow> \<not> isl (pbMarshal wireCodec items)"
proof -
  assume s: "set items \<subseteq> {\<lparr>ToPeerId = ''peer-z'', reqData = '':peer-a''\<rparr>}"
  have "reqFits \<lparr>ToPeerId = ''peer-z'', reqData = '':peer-a''\<rparr>"
    by (simp add: reqFits_def encReq_def encField_def AppendBytes_def AppendVarint.simps)
  moreover have "utf8Valid ''peer-z''" by (rule utf8Valid_ascii) (simp add: inR_def)
  ultimately have "list_all (\<lambda>m. utf8Valid (ToPeerId m)) items" "list_all reqFits items"
    using s by (auto simp: list_all_iff)
  then show ?thesis by (simp add: wireCodec_def wireMarshal_def)
qed


end
